(* ===== verification/Yee_Base.thy ===== *)
theory Yee_Base
  imports Main "HOL-Library.Word"
begin

text \<open>
  Prelude of the development: the machine integers of the Rust sources, the
  arithmetic methods of the Rust standard library that the sources call
  (\<open>checked_add\<close>, \<open>saturating_sub\<close>, ...), the storage maps of the runtime with
  their default values, and sums over storage maps. The runtime is built for
  WebAssembly in release mode (\<open>runtime/wasm/Cargo.toml\<close>), where plain \<open>+\<close>,
  \<open>-\<close> and \<open>*\<close> wrap; plain word arithmetic models them.
\<close>

section \<open>Machine integers\<close>

type_synonym u8 = "8 word"
type_synonym u16 = "16 word"
type_synonym u32 = "32 word"
type_synonym u64 = "64 word"
type_synonym u128 = "128 word"
type_synonym u256 = "256 word"

named_theorems rust_arith \<open>definitions of the arithmetic methods of the Rust integers\<close>

definition checked_add :: "'a::len word \<Rightarrow> 'a word \<Rightarrow> 'a word option" where
  [rust_arith]: "checked_add a b = (if unat a + unat b < 2 ^ LENGTH('a) then Some (a + b) else None)"

definition checked_sub :: "'a::len word \<Rightarrow> 'a word \<Rightarrow> 'a word option" where
  [rust_arith]: "checked_sub a b = (if b \<le> a then Some (a - b) else None)"

definition checked_mul :: "'a::len word \<Rightarrow> 'a word \<Rightarrow> 'a word option" where
  [rust_arith]: "checked_mul a b = (if unat a * unat b < 2 ^ LENGTH('a) then Some (a * b) else None)"

definition saturating_add :: "'a::len word \<Rightarrow> 'a word \<Rightarrow> 'a word" where
  [rust_arith]: "saturating_add a b = (if unat a + unat b < 2 ^ LENGTH('a) then a + b else - 1)"

definition saturating_sub :: "'a::len word \<Rightarrow> 'a word \<Rightarrow> 'a word" where
  [rust_arith]: "saturating_sub a b = (if b \<le> a then a - b else 0)"

definition overflowing_mul :: "'a::len word \<Rightarrow> 'a word \<Rightarrow> 'a word \<times> bool" where
  [rust_arith]: "overflowing_mul a b = (a * b, 2 ^ LENGTH('a) \<le> unat a * unat b)"

lemma unat_plus_no_overflow [simp]:
  fixes a b :: "'a::len word"
  shows "unat a + unat b < 2 ^ LENGTH('a) \<Longrightarrow> unat (a + b) = unat a + unat b"
  by (simp add: unat_add_lem)

lemma unat_minus_le [simp]:
  fixes a b :: "'a::len word"
  shows "b \<le> a \<Longrightarrow> unat (a - b) = unat a - unat b"
  by (rule unat_sub)

lemma unat_mult_no_overflow:
  fixes a b :: "'a::len word"
  shows "unat a * unat b < 2 ^ LENGTH('a) \<Longrightarrow> unat (a * b) = unat a * unat b"
  by (simp add: unat_mult_lem)

lemma unat_of_nat_small: "n < 2 ^ LENGTH('a) \<Longrightarrow> unat (of_nat n :: 'a::len word) = n"
  by (simp add: unat_of_nat)

lemma checked_add_Some:
  "checked_add a b = Some c \<longleftrightarrow> unat a + unat b < 2 ^ LENGTH('a) \<and> c = (a + b :: 'a::len word)"
  by (auto simp: checked_add_def)

lemma checked_add_unat:
  "checked_add a b = Some c \<Longrightarrow> unat c = unat a + unat (b :: 'a::len word)"
  by (auto simp: checked_add_Some)

lemma checked_sub_Some:
  "checked_sub a b = Some c \<longleftrightarrow> b \<le> a \<and> c = (a - b :: 'a::len word)"
  by (auto simp: checked_sub_def)

lemma checked_sub_unat:
  "checked_sub a b = Some c \<Longrightarrow> unat a = unat c + unat (b :: 'a::len word)"
  by (auto simp: checked_sub_Some word_le_nat_alt)

lemma checked_sub_None: "checked_sub a b = None \<longleftrightarrow> a < (b :: 'a::len word)"
  by (auto simp: checked_sub_def)

lemma unat_saturating_add:
  fixes a b :: "'a::len word"
  shows "unat (saturating_add a b) = min (unat a + unat b) (2 ^ LENGTH('a) - 1)"
proof -
  have "unat (- 1 :: 'a word) = 2 ^ LENGTH('a) - 1"
    by (simp add: unat_eq_nat_uint uint_word_ariths nat_diff_distrib' nat_power_eq
        zmod_minus1)
  then show ?thesis by (simp add: saturating_add_def)
qed

lemma unat_saturating_sub:
  fixes a b :: "'a::len word"
  shows "unat (saturating_sub a b) = unat a - unat b"
  by (simp add: saturating_sub_def word_le_nat_alt)

lemma saturating_sub_le [simp]: "saturating_sub a b \<le> (a :: 'a::len word)"
  by (simp add: word_le_nat_alt unat_saturating_sub)

section \<open>Storage maps\<close>

text \<open>
  A \<open>StorageMap\<close> of the runtime holds a value for some keys; \<open>get\<close> of an absent
  key returns the default of the value type, \<open>take\<close> reads and removes.
\<close>

definition map_get :: "'v \<Rightarrow> ('k \<rightharpoonup> 'v) \<Rightarrow> 'k \<Rightarrow> 'v" where
  "map_get d m k = (case m k of None \<Rightarrow> d | Some v \<Rightarrow> v)"

lemma map_get_upd [simp]: "map_get d (m(k \<mapsto> v)) k' = (if k' = k then v else map_get d m k')"
  by (simp add: map_get_def)

lemma map_get_remove [simp]: "map_get d (m(k := None)) k' = (if k' = k then d else map_get d m k')"
  by (simp add: map_get_def)

lemma map_get_empty [simp]: "map_get d Map.empty k = d"
  by (simp add: map_get_def)

lemma map_get_None: "m k = None \<Longrightarrow> map_get d m k = d"
  by (simp add: map_get_def)

lemma map_get_Some: "m k = Some v \<Longrightarrow> map_get d m k = v"
  by (simp add: map_get_def)

text \<open>The total a map of amounts holds, as a natural number (no wrap-around).\<close>

definition msum :: "('k \<rightharpoonup> 'a::len word) \<Rightarrow> nat" where
  "msum m = (\<Sum>k\<in>dom m. unat (map_get 0 m k))"

lemma msum_empty [simp]: "msum Map.empty = 0"
  by (simp add: msum_def)

lemma msum_remove:
  assumes "finite (dom m)"
  shows "msum (m(k := None)) + unat (map_get 0 m k) = msum m"
proof -
  have *: "(\<Sum>x\<in>dom m - {k}. unat (map_get 0 (m(k := None)) x))
      = (\<Sum>x\<in>dom m - {k}. unat (map_get 0 m x))"
    by (rule sum.cong) auto
  show ?thesis
  proof (cases "k \<in> dom m")
    case True
    with assms have "msum m = unat (map_get 0 m k) + (\<Sum>x\<in>dom m - {k}. unat (map_get 0 m x))"
      unfolding msum_def by (simp add: sum.remove)
    with * show ?thesis by (simp add: msum_def)
  next
    case False
    then have "m(k := None) = m" by (auto simp: fun_upd_idem)
    with False show ?thesis by (auto simp: map_get_def dom_def split: option.splits)
  qed
qed

lemma msum_update:
  assumes "finite (dom m)"
  shows "msum (m(k \<mapsto> v)) + unat (map_get 0 m k) = msum m + unat v"
proof -
  have "msum (m(k \<mapsto> v)) = msum ((m(k \<mapsto> v))(k := None)) + unat v"
    using assms msum_remove [of "m(k \<mapsto> v)" k] by simp
  also have "\<dots> = msum (m(k := None)) + unat v" by simp
  finally show ?thesis using msum_remove [OF assms, of k] by simp
qed

lemma msum_ge:
  "finite (dom m) \<Longrightarrow> unat (map_get 0 m k) \<le> msum m"
  using msum_remove [of m k] by linarith

section \<open>Results\<close>

text \<open>
  A call of the runtime ends with \<open>Ok\<close>, with \<open>Err\<close> of an error string (the storage
  changes made before the error stay: this runtime does not roll back), or with
  a panic. A panicking operation is an \<open>option\<close> whose \<open>None\<close> is the panic.
\<close>

type_synonym 'a result = "string + 'a"

abbreviation Ok :: "'a \<Rightarrow> 'a result" where "Ok \<equiv> Inr"
abbreviation Err :: "string \<Rightarrow> 'a result" where "Err \<equiv> Inl"

fun is_ok :: "'a result \<Rightarrow> bool" where
  "is_ok (Inr _) = True"
| "is_ok (Inl _) = False"

lemma is_ok_iff: "is_ok r \<longleftrightarrow> (\<exists>x. r = Ok x)"
  by (cases r) auto

end
