(* ===== verification/Runtime_Store.thy ===== *)
theory Runtime_Store
  imports Yee_Base
begin

unbundle bit_operations_syntax

text \<open>
  What the runtime modules share: the origin of a call, the header digest items,
  the outer event type \<open>construct_runtime!\<close> assembles from the modules' events, and
  the storage of the system module the modules read and write (block number,
  digest, events, account nonces). The system module is Substrate's: the only
  operations used here are reading the block number, appending to the digest and
  to the event list, and removing a nonce. Each module theory extends this record
  with its own storage, in the order of the calls between the modules.
\<close>

datatype 'a origin = Root | Signed 'a | Inherent

fun ensure_signed :: "'a origin \<Rightarrow> 'a result" where
  "ensure_signed (Signed a) = Ok a"
| "ensure_signed _ = Err ''bad origin: expected to be a signed origin''"

fun ensure_inherent :: "'a origin \<Rightarrow> unit result" where
  "ensure_inherent Inherent = Ok ()"
| "ensure_inherent _ = Err ''bad origin: expected to be an inherent origin''"

fun ensure_root :: "'a origin \<Rightarrow> unit result" where
  "ensure_root Root = Ok ()"
| "ensure_root _ = Err ''bad origin: expected to be a root origin''"

lemma ensure_signed_Ok: "ensure_signed o' = Ok a \<longleftrightarrow> o' = Signed a"
  by (cases o') auto

lemma ensure_inherent_Ok: "ensure_inherent o' = Ok u \<longleftrightarrow> o' = Inherent"
  by (cases o') auto

lemma ensure_root_Ok: "ensure_root o' = Ok u \<longleftrightarrow> o' = Root"
  by (cases o') auto

text \<open>
  Digest items: the sources build and match \<open>Other\<close> (module logs) and \<open>Consensus\<close>
  (the proof-of-work seal); every other variant is \<open>System_Item\<close>.
\<close>

datatype digest_item =
    Other "u8 list"
  | Consensus "u8 list" "u8 list"
  | System_Item "u8 list"

text \<open>A reward plan of the proof-of-work module, which also occurs in its event.\<close>

record 'a reward_plan =
  rp_block_number :: u64
  rp_coinbase :: 'a
  rp_block_reward :: u128
  rp_fee_reward :: u128

datatype 'a event =
    NewAccount 'a u128
  | ReapedAccount 'a
  | Transfer 'a 'a u128 u128
  | Reward "'a reward_plan"
  | Issued "u8 list" u32 "u8 list" 'a u128 u16
  | Transferred "u8 list" u32 'a 'a u128

record 'a system_store =
  block_number :: u64
  digest :: "digest_item list"
  events :: "'a event list"
  account_nonce :: "'a \<rightharpoonup> u64"

definition deposit_event :: "'a event \<Rightarrow> ('a, 'z) system_store_scheme \<Rightarrow> ('a, 'z) system_store_scheme" where
  "deposit_event e s = s\<lparr>events := events s @ [e]\<rparr>"

definition deposit_log :: "digest_item \<Rightarrow> ('a, 'z) system_store_scheme \<Rightarrow> ('a, 'z) system_store_scheme" where
  "deposit_log d s = s\<lparr>digest := digest s @ [d]\<rparr>"

named_theorems store_defs \<open>the one-field updates of the system storage\<close>

lemmas [store_defs] = deposit_event_def deposit_log_def

text \<open>
  Encoders and decoders of the codec library are parameters of the definitions
  that use them. A decoder returns the value and the rest of the input; what the
  properties need of them is that they read back what was written.
\<close>

record 'x codec =
  enc :: "'x \<Rightarrow> u8 list"
  dec :: "u8 list \<Rightarrow> ('x \<times> u8 list) option"

definition codec_ok :: "'x codec \<Rightarrow> bool" where
  "codec_ok c \<longleftrightarrow> (\<forall>x rest. dec c (enc c x @ rest) = Some (x, rest))"

lemma codec_ok_dec [simp]: "codec_ok c \<Longrightarrow> dec c (enc c x @ rest) = Some (x, rest)"
  by (simp add: codec_ok_def)

lemma codec_ok_dec_all [simp]: "codec_ok c \<Longrightarrow> dec c (enc c x) = Some (x, [])"
  using codec_ok_dec [of c x "[]"] by simp

text \<open>A codec whose values take at least \<open>n\<close> bytes.\<close>

definition min_size :: "nat \<Rightarrow> 'x codec \<Rightarrow> bool" where
  "min_size n c \<longleftrightarrow> (\<forall>x. n \<le> length (enc c x))"

text \<open>
  The instance that the examples use: an integer as its \<open>n\<close> little-endian bytes.
\<close>

primrec le_enc :: "nat \<Rightarrow> 'a::len word \<Rightarrow> u8 list" where
  "le_enc 0 w = []"
| "le_enc (Suc n) w = ucast w # le_enc n (drop_bit 8 w)"

primrec le_val :: "u8 list \<Rightarrow> 'a::len word" where
  "le_val [] = 0"
| "le_val (b # bs) = ucast b OR push_bit 8 (le_val bs)"

definition le_codec :: "nat \<Rightarrow> 'a::len word codec" where
  "le_codec n = \<lparr>enc = le_enc n,
     dec = (\<lambda>input. if length input < n then None else Some (le_val (take n input), drop n input))\<rparr>"

lemma length_le_enc [simp]: "length (le_enc n w) = n"
  by (induction n arbitrary: w) simp_all

lemma le_val_le_enc: "le_val (le_enc n w) = take_bit (8 * n) (w :: 'a::len word)"
proof (induction n arbitrary: w)
  case (Suc n)
  have "ucast (ucast w :: u8) OR push_bit 8 (take_bit (8 * n) (drop_bit 8 w)) = take_bit (8 * Suc n) w"
    by (rule bit_word_eqI) (auto simp: bit_simps dest: bit_imp_le_length)
  with Suc show ?case by simp
qed simp

lemma codec_ok_le: "LENGTH('a) \<le> 8 * n \<Longrightarrow> codec_ok (le_codec n :: 'a::len word codec)"
  by (simp add: codec_ok_def le_codec_def le_val_le_enc take_bit_word_eq_self)

lemma min_size_le: "m \<le> n \<Longrightarrow> min_size m (le_codec n)"
  by (simp add: le_codec_def min_size_def)

end
