(* ===== verification/Sharding_Digest.thy ===== *)
theory Sharding_Digest
  imports Runtime_Store
begin

text \<open>
  The node's view of the sharding logs of a header, \<open>core/sharding/src/lib.rs\<close>:
  the enumeration \<open>ScaleOutPhase\<close> and the digest items that carry the shard of a
  block and the scale-out phase. The derived codec of the enumeration writes the
  index of the variant and then the fields; the codecs of the field types are
  parameters.
\<close>

definition GENERATED_MODULE_LOG_PREFIX :: u8 where "GENERATED_MODULE_LOG_PREFIX = 2"
definition GENERATED_SHARDING_PREFIX :: u8 where "GENERATED_SHARDING_PREFIX = 0"
definition GENERATED_SCALE_OUT_PHASE_PREFIX :: u8 where "GENERATED_SCALE_OUT_PHASE_PREFIX = 1"

lemmas prefix_defs =
  GENERATED_MODULE_LOG_PREFIX_def GENERATED_SHARDING_PREFIX_def GENERATED_SCALE_OUT_PHASE_PREFIX_def

datatype ScaleOutPhase =
    Started u64 u16
  | NativeReady u64 u16
  | Ready u64 u16
  | Committing u16
  | Committed u16 u16

definition dec2 :: "'x codec \<Rightarrow> 'y codec \<Rightarrow> u8 list \<Rightarrow> ('x \<times> 'y) option" where
  "dec2 cx cy input =
     (case dec cx input of None \<Rightarrow> None
      | Some (x, input') \<Rightarrow> (case dec cy input' of None \<Rightarrow> None
        | Some (y, input'') \<Rightarrow> Some (x, y)))"

lemma dec2_enc [simp]: "codec_ok cx \<Longrightarrow> codec_ok cy \<Longrightarrow> dec2 cx cy (enc cx x @ enc cy y) = Some (x, y)"
  by (simp add: dec2_def)

fun phase_encode :: "u64 codec \<Rightarrow> u16 codec \<Rightarrow> ScaleOutPhase \<Rightarrow> u8 list" where
  "phase_encode cb cn (Started u n) = 0 # enc cb u @ enc cn n"
| "phase_encode cb cn (NativeReady u n) = 1 # enc cb u @ enc cn n"
| "phase_encode cb cn (Ready u n) = 2 # enc cb u @ enc cn n"
| "phase_encode cb cn (Committing c) = 3 # enc cn c"
| "phase_encode cb cn (Committed n c) = 4 # enc cn n @ enc cn c"

definition phase_decode :: "u64 codec \<Rightarrow> u16 codec \<Rightarrow> u8 list \<Rightarrow> ScaleOutPhase option" where
  "phase_decode cb cn input =
     (case input of [] \<Rightarrow> None
      | i # input' \<Rightarrow>
          if i = 0 then map_option (\<lambda>(u, n). Started u n) (dec2 cb cn input')
          else if i = 1 then map_option (\<lambda>(u, n). NativeReady u n) (dec2 cb cn input')
          else if i = 2 then map_option (\<lambda>(u, n). Ready u n) (dec2 cb cn input')
          else if i = 3 then map_option (\<lambda>(c, _). Committing c) (dec cn input')
          else if i = 4 then map_option (\<lambda>(n, c). Committed n c) (dec2 cn cn input')
          else None)"

lemma phase_decode_encode [simp]:
  "codec_ok cb \<Longrightarrow> codec_ok cn \<Longrightarrow> phase_decode cb cn (phase_encode cb cn p) = Some p"
  by (cases p) (auto simp: phase_decode_def)

definition sharding_info :: "u16 codec \<Rightarrow> u16 \<Rightarrow> u16 \<Rightarrow> digest_item" where
  "sharding_info cn num cnt =
     Other ([GENERATED_MODULE_LOG_PREFIX, GENERATED_SHARDING_PREFIX] @ enc cn num @ enc cn cnt)"

definition as_sharding_info :: "u16 codec \<Rightarrow> digest_item \<Rightarrow> (u16 \<times> u16) option" where
  "as_sharding_info cn item =
     (case item of
        Other data \<Rightarrow>
          if 4 \<le> length data \<and> data ! 0 = GENERATED_MODULE_LOG_PREFIX
             \<and> data ! 1 = GENERATED_SHARDING_PREFIX
          then dec2 cn cn (drop 2 data) else None
      | _ \<Rightarrow> None)"

definition scale_out_phase :: "u64 codec \<Rightarrow> u16 codec \<Rightarrow> ScaleOutPhase \<Rightarrow> digest_item" where
  "scale_out_phase cb cn p =
     Other ([GENERATED_MODULE_LOG_PREFIX, GENERATED_SCALE_OUT_PHASE_PREFIX] @ phase_encode cb cn p)"

definition as_scale_out_phase :: "u64 codec \<Rightarrow> u16 codec \<Rightarrow> digest_item \<Rightarrow> ScaleOutPhase option" where
  "as_scale_out_phase cb cn item =
     (case item of
        Other data \<Rightarrow>
          if 4 \<le> length data \<and> data ! 0 = GENERATED_MODULE_LOG_PREFIX
             \<and> data ! 1 = GENERATED_SCALE_OUT_PHASE_PREFIX
          then phase_decode cb cn (drop 2 data) else None
      | _ \<Rightarrow> None)"

text \<open>
  \<open>logs.iter().rev().filter_map(f).next()\<close>: the value of the last item on which \<open>f\<close>
  is defined.
\<close>

definition last_log :: "('d \<Rightarrow> 'x option) \<Rightarrow> 'd list \<Rightarrow> 'x option" where
  "last_log f logs = (case List.map_filter f (rev logs) of [] \<Rightarrow> None | x # _ \<Rightarrow> Some x)"

lemma last_log_Nil [simp]: "last_log f [] = None"
  by (simp add: last_log_def map_filter_simps)

lemma last_log_snoc [simp]: "last_log f (logs @ [d]) = (case f d of None \<Rightarrow> last_log f logs | Some x \<Rightarrow> Some x)"
  by (simp add: last_log_def map_filter_simps split: option.split)

lemma last_log_append:
  "last_log f (xs @ ys) = (case last_log f ys of None \<Rightarrow> last_log f xs | Some x \<Rightarrow> Some x)"
  by (induction ys rule: rev_induct) (simp_all flip: append_assoc split: option.split)

lemma last_log_snoc2 [simp]: "last_log f (logs @ [d, e]) =
    (case f e of None \<Rightarrow> last_log f (logs @ [d]) | Some x \<Rightarrow> Some x)"
  using last_log_snoc [of f "logs @ [d]" e] by simp

lemma as_sharding_info_sharding_info:
  assumes "codec_ok cn" and "min_size 1 cn"
  shows "as_sharding_info cn (sharding_info cn n c) = Some (n, c)"
proof -
  have "1 \<le> length (enc cn n)" "1 \<le> length (enc cn c)" using assms(2) by (auto simp: min_size_def)
  with assms(1) show ?thesis by (simp add: as_sharding_info_def sharding_info_def prefix_defs)
qed

lemma as_scale_out_phase_scale_out_phase:
  assumes "codec_ok cb" and "codec_ok cn" and "min_size 1 cn"
  shows "as_scale_out_phase cb cn (scale_out_phase cb cn p) = Some p"
proof -
  have "1 \<le> length (enc cn x)" for x using assms(3) by (auto simp: min_size_def)
  then have "2 \<le> length (phase_encode cb cn p)"
    by (cases p) (auto simp: Suc_le_eq add_increasing)
  with assms show ?thesis by (simp add: as_scale_out_phase_def scale_out_phase_def prefix_defs)
qed

lemma as_sharding_info_other: "as_sharding_info cn (scale_out_phase cb cn p) = None"
  by (simp add: as_sharding_info_def scale_out_phase_def prefix_defs)

lemma as_scale_out_phase_other: "as_scale_out_phase cb cn (sharding_info cn n c) = None"
  by (simp add: as_scale_out_phase_def sharding_info_def prefix_defs)

end
