(* ===== verification/Sharding_Utils.thy ===== *)
theory Sharding_Utils
  imports Yee_Base
begin

unbundle bit_operations_syntax

text \<open>
  The shard arithmetic: \<open>core/sharding/primitives/src/utils.rs\<close> (the shard an
  account belongs to) and \<open>get_original_shard_num\<close> of
  \<open>core/consensus/pow/src/verifier.rs\<close> (the shard number before a number of
  splits). The shard count is a power of two; the shard of a byte string is the
  value of its last two bytes modulo the count; doubling the count splits shard
  \<open>n\<close> into \<open>n\<close> and \<open>n + count\<close>. The locale \<open>shard_map\<close> states what the runtime
  modules rely on.
\<close>

section \<open>Definitions\<close>

text \<open>Shifts of a \<open>u16\<close> use the shift amount modulo the width (release build).\<close>

definition shl16 :: "u16 \<Rightarrow> u16 \<Rightarrow> u16" where
  "shl16 x n = push_bit (unat n mod 16) x"

function log2_loop :: "u16 \<Rightarrow> u16 \<Rightarrow> u16" where
  "log2_loop s i = (if 0 < s then log2_loop (drop_bit 1 s) (i + 1) else i)"
  by pat_completeness auto
termination
  by (relation "measure (\<lambda>(s, i). unat s)")
    (auto simp: drop_bit_eq_div unat_div unat_gt_0)

declare log2_loop.simps [simp del]

definition log2 :: "u16 \<Rightarrow> u16" where
  "log2 n = log2_loop n 0 - 1"

definition pow2 :: "u16 \<Rightarrow> u16" where
  "pow2 n = shl16 1 n"

definition get_digits :: "u16 \<Rightarrow> u16 option" where
  "get_digits shard_count =
     (if shard_count = 0 then None
      else (let digits = log2 shard_count
            in if pow2 digits = shard_count then Some digits else None))"

definition u16_from_be_bytes :: "u8 \<Rightarrow> u8 \<Rightarrow> u16" where
  "u16_from_be_bytes hi lo = push_bit 8 (ucast hi) OR ucast lo"

definition shard_num_for_bytes :: "u8 list \<Rightarrow> u16 \<Rightarrow> u16 option" where
  "shard_num_for_bytes bytes shard_count =
     (let len = length bytes
      in if len < 2 then None
         else map_option (\<lambda>digits.
                let a = u16_from_be_bytes (bytes ! (len - 2)) (bytes ! (len - 1));
                    mask = NOT (shl16 (NOT 0) digits)
                in a AND mask) (get_digits shard_count))"

text \<open>\<open>encode\<close> is the account type's codec.\<close>

definition shard_num_for :: "('t \<Rightarrow> u8 list) \<Rightarrow> 't \<Rightarrow> u16 \<Rightarrow> u16 option" where
  "shard_num_for encode t shard_count = shard_num_for_bytes (encode t) shard_count"

function get_original_loop :: "u16 \<Rightarrow> u16 \<Rightarrow> u16 \<Rightarrow> u16 \<times> u16" where
  "get_original_loop shard_num shard_count original_shard_count =
     (if original_shard_count < shard_count
      then (let shard_count' = shard_count div 2;
                shard_num' = (if shard_count' \<le> shard_num then shard_num - shard_count' else shard_num)
            in get_original_loop shard_num' shard_count' original_shard_count)
      else (shard_num, shard_count))"
  by pat_completeness auto
termination
proof (relation "measure (\<lambda>(n, c, d). unat c)", goal_cases)
  case 1
  then show ?case by simp
next
  case (2 n c d c' n')
  then have "0 < unat c" by (metis gr0I not_less_zero word_less_nat_alt)
  with 2 show ?case by (simp add: unat_div)
qed

declare get_original_loop.simps [simp del]

definition get_original_shard_num :: "u16 \<Rightarrow> u16 \<Rightarrow> u16 \<Rightarrow> u16 result" where
  "get_original_shard_num shard_num shard_count original_shard_count =
     (case get_original_loop shard_num shard_count original_shard_count of (num, count) \<Rightarrow>
        if count \<noteq> original_shard_count then Err ''Invalid header shard info'' else Ok num)"

section \<open>Logarithms and powers\<close>

lemma log2_loop_bounds:
  "2 ^ k \<le> unat s \<Longrightarrow> unat s < 2 ^ Suc k \<Longrightarrow> log2_loop s i = i + of_nat (Suc k)"
proof (induction k arbitrary: s i)
  case 0
  then have "unat s = 1" by simp
  then have "s = 1" by (simp add: word_unat_eq_iff)
  then show ?case by (simp add: log2_loop.simps)
next
  case (Suc k)
  have u: "unat (drop_bit 1 s) = unat s div 2"
    by (simp add: drop_bit_eq_div unat_div)
  have "log2_loop (drop_bit 1 s) (i + 1) = (i + 1) + of_nat (Suc k)"
    using Suc.prems by (intro Suc.IH) (simp_all only: u, simp_all)
  moreover have "0 < s"
    using Suc.prems(1) by (cases "s = 0") (simp_all add: word_gt_0)
  ultimately show ?case by (simp add: log2_loop.simps [of s])
qed

lemma log2_bounds:
  assumes "2 ^ k \<le> unat n" and "unat n < 2 ^ Suc k"
  shows "log2 n = of_nat k"
  using log2_loop_bounds [OF assms, of 0] by (simp add: log2_def)

lemma u16_log_exists:
  assumes "(n :: u16) \<noteq> 0"
  obtains k where "k < 16" and "2 ^ k \<le> unat n" and "unat n < 2 ^ Suc k"
proof -
  have "0 < unat n" using assms by (simp add: unat_gt_0)
  then obtain k where k: "2 ^ k \<le> unat n" "unat n < 2 ^ Suc k"
    using ex_power_ivl1 [of 2 "unat n"] by auto
  have "unat n < 2 ^ 16" using unsigned_less [of n] by simp
  with k(1) have "(2::nat) ^ k < 2 ^ 16" by (rule le_less_trans)
  then have "k < 16" by (simp only: power_strict_increasing_iff)
  with k that show ?thesis by blast
qed

lemma unat_pow2: "k < 16 \<Longrightarrow> unat (pow2 (of_nat k)) = 2 ^ k"
proof -
  assume k: "k < 16"
  then have "(2::nat) ^ k < 2 ^ 16" by (intro power_strict_increasing) simp_all
  moreover have "unat (push_bit k (1 :: u16)) = take_bit 16 (push_bit k 1)"
    by (subst unsigned_push_bit_eq) simp
  ultimately show ?thesis
    using k by (simp add: pow2_def shl16_def unat_of_nat push_bit_eq_mult take_bit_nat_eq_self)
qed

lemma get_digits_Some:
  "get_digits n = Some d \<longleftrightarrow> (\<exists>k<16. unat n = 2 ^ k \<and> d = of_nat k)"
proof (cases "n = 0")
  case True
  then show ?thesis by (simp add: get_digits_def)
next
  case False
  then obtain k where k: "k < 16" "2 ^ k \<le> unat n" "unat n < 2 ^ Suc k"
    by (rule u16_log_exists)
  then have log: "log2 n = of_nat k" by (intro log2_bounds) simp_all
  have pow: "(pow2 (of_nat k) = n) = (unat n = 2 ^ k)"
    using unat_pow2 [OF k(1)] by (auto simp: word_unat_eq_iff)
  have eq: "k' = k" if "unat n = 2 ^ k'" for k'
  proof -
    from that k have "(2::nat) ^ k \<le> 2 ^ k'" "(2::nat) ^ k' < 2 ^ Suc k" by metis+
    then have "k \<le> k'" "k' < Suc k" by (simp_all del: power_Suc)
    then show ?thesis by simp
  qed
  show ?thesis
    using False k(1) unfolding get_digits_def Let_def log pow by (auto dest: eq)
qed

section \<open>The shard of a byte string and its splits\<close>

text \<open>The value of the last two bytes, read big-endian.\<close>

definition tail_value :: "u8 list \<Rightarrow> nat" where
  "tail_value bytes = 256 * unat (bytes ! (length bytes - 2)) + unat (bytes ! (length bytes - 1))"

lemma unat_u16_from_be_bytes: "unat (u16_from_be_bytes hi lo) = 256 * unat hi + unat lo"
proof -
  have h: "unat hi < 256" "unat lo < 256"
    using unsigned_less [of hi] unsigned_less [of lo] by simp_all
  have "push_bit 8 (ucast hi) AND (ucast lo :: u16) = 0"
    by (rule bit_word_eqI) (auto simp: bit_simps dest: bit_imp_le_length)
  then have "u16_from_be_bytes hi lo = push_bit 8 (ucast hi) + ucast lo"
    by (simp add: u16_from_be_bytes_def disjunctive_add_eq_or)
  also have "\<dots> = of_nat (256 * unat hi + unat lo)"
    by (simp add: push_bit_eq_mult)
  finally have "unat (u16_from_be_bytes hi lo) = (256 * unat hi + unat lo) mod 2 ^ 16"
    by (simp only: unat_of_nat) simp
  then show ?thesis
    using h by simp
qed

lemma low_mask_eq: "d < 16 \<Longrightarrow> a AND NOT (shl16 (- 1) (of_nat d)) = take_bit d a"
  by (simp add: shl16_def unat_of_nat push_bit_minus_one_eq_not_mask take_bit_eq_mask)

lemma unat_low_mask: "d < 16 \<Longrightarrow> unat (a AND NOT (shl16 (- 1) (of_nat d))) = unat a mod 2 ^ d"
  by (simp add: low_mask_eq unsigned_take_bit_eq flip: take_bit_eq_mod)

text \<open>The counts for which every account has a shard: the powers of two a \<open>u16\<close> can hold.\<close>

definition valid_count :: "u16 \<Rightarrow> bool" where
  "valid_count c \<longleftrightarrow> (\<exists>k<16. unat c = 2 ^ k)"

lemma valid_count_pos: "valid_count c \<Longrightarrow> 0 < unat c"
  by (auto simp: valid_count_def)

lemma shard_num_for_bytes_Some:
  "shard_num_for_bytes bytes c = Some n \<longleftrightarrow>
     2 \<le> length bytes \<and> valid_count c \<and> unat n = tail_value bytes mod unat c"
proof -
  let ?a = "u16_from_be_bytes (bytes ! (length bytes - 2)) (bytes ! (length bytes - 1))"
  have "unat ?a = tail_value bytes"
    by (simp add: unat_u16_from_be_bytes tail_value_def)
  then have *: "?a AND NOT (shl16 (- 1) (of_nat k)) = n \<longleftrightarrow> unat n = tail_value bytes mod 2 ^ k"
    if "k < 16" for k
    using unat_low_mask [OF that, of ?a] by (auto simp: word_unat_eq_iff)
  show ?thesis
  proof (cases "\<exists>k<16. unat c = 2 ^ k")
    case True
    then obtain k where k: "k < 16" "unat c = 2 ^ k" by blast
    then have "get_digits c = Some (of_nat k)" by (auto simp: get_digits_Some)
    with k * [OF k(1)] show ?thesis
      by (auto simp: shard_num_for_bytes_def valid_count_def Let_def simp del: One_nat_def)
  next
    case False
    then have "get_digits c = None" by (metis get_digits_Some not_None_eq)
    with False show ?thesis by (auto simp: shard_num_for_bytes_def valid_count_def Let_def)
  qed
qed

lemma shard_num_for_bytes_total:
  assumes "2 \<le> length bytes" and "valid_count c"
  obtains n where "shard_num_for_bytes bytes c = Some n"
proof
  have "tail_value bytes mod unat c < 2 ^ 16"
    using valid_count_pos [OF assms(2)] unsigned_less [of c, where ?'a = nat]
    by (intro less_trans [OF mod_less_divisor]) simp_all
  with assms show "shard_num_for_bytes bytes c = Some (of_nat (tail_value bytes mod unat c))"
    by (simp add: shard_num_for_bytes_Some unat_of_nat)
qed

lemma get_original_loop_mod:
  assumes "unat c = unat d * 2 ^ m" and "0 < d" and "n < c"
  shows "\<exists>r. get_original_loop n c d = (r, d) \<and> unat r = unat n mod unat d"
  using assms
proof (induction m arbitrary: n c)
  case 0
  then have "c = d" by (simp add: word_unat_eq_iff)
  with 0 show ?case by (simp add: get_original_loop.simps word_less_nat_alt)
next
  case (Suc m)
  let ?c = "c div 2" and ?n = "if c div 2 \<le> n then n - c div 2 else n"
  have c2: "unat ?c = unat d * 2 ^ m"
    using Suc.prems(1) by (simp add: unat_div)
  have dpos: "0 < unat d" using Suc.prems(2) by (simp add: unat_gt_0 word_gt_0)
  then have "unat d * 1 < unat d * 2 ^ Suc m"
    by (intro mult_strict_left_mono) (simp_all add: one_less_power del: power_Suc One_nat_def)
  then have "unat d < unat c"
    using Suc.prems(1) by simp
  then have less: "d < c" by (simp add: word_less_nat_alt)
  have cc: "unat c = 2 * unat ?c" using Suc.prems(1) c2 by simp
  have nlt: "?n < ?c"
    using Suc.prems(3) cc by (auto simp: word_less_nat_alt word_le_nat_alt unat_sub)
  have nmod: "unat ?n mod unat d = unat n mod unat d"
  proof (cases "?c \<le> n")
    case True
    then have "unat n = unat (n - ?c) + unat d * 2 ^ m"
      using c2 by (simp add: word_le_nat_alt unat_sub)
    then have "unat n mod unat d = unat (n - ?c) mod unat d" by (metis mod_mult_self2)
    with True show ?thesis by simp
  next
    case False
    then show ?thesis by simp
  qed
  obtain r where "get_original_loop ?n ?c d = (r, d)" "unat r = unat ?n mod unat d"
    using Suc.IH [OF c2 Suc.prems(2) nlt] by blast
  with less nmod show ?case
    by (simp add: get_original_loop.simps [of n c d] Let_def)
qed

lemma get_original_shard_num_mod:
  assumes "unat c = unat d * 2 ^ m" and "0 < d" and "n < c"
  shows "\<exists>r. get_original_shard_num n c d = Ok r \<and> unat r = unat n mod unat d"
  using get_original_loop_mod [OF assms] by (auto simp: get_original_shard_num_def)

lemma mod_double_eq: "0 < c \<Longrightarrow> a mod (2 * c) = a mod c \<or> a mod (2 * c) = a mod c + (c :: nat)"
  using mod_mult2_eq [of a c 2] by (cases "a div c mod 2 = 0") (auto simp: mult.commute)

section \<open>The interface the runtime relies on\<close>

text \<open>
  A shard map sends an account to a shard of a given count: it is defined on the
  accounts \<open>ok\<close> for every valid count, its values are below the count, and doubling
  the count keeps the shard number or adds the old count to it.
\<close>

locale shard_map =
  fixes shard_of :: "'t \<Rightarrow> u16 \<Rightarrow> u16 option"
    and ok :: "'t \<Rightarrow> bool"
  assumes total: "ok t \<Longrightarrow> valid_count c \<Longrightarrow> \<exists>n. shard_of t c = Some n"
    and valid: "shard_of t c = Some n \<Longrightarrow> ok t \<and> valid_count c"
    and bound: "shard_of t c = Some n \<Longrightarrow> n < c"
    and split: "shard_of t c = Some n \<Longrightarrow> shard_of t d = Some m \<Longrightarrow> unat d = 2 * unat c
      \<Longrightarrow> unat m = unat n \<or> unat m = unat n + unat c"
begin

lemma split_mod:
  assumes "shard_of t c = Some n" and "shard_of t d = Some m" and "unat d = unat c * 2 ^ k"
  shows "unat m mod unat c = unat n"
  using assms(2,3)
proof (induction k arbitrary: d m)
  case 0
  then have "d = c" by (simp add: word_unat_eq_iff)
  with 0 assms(1) bound [OF assms(1)] show ?case by (simp add: word_less_nat_alt)
next
  case (Suc k)
  let ?e = "d div 2"
  have e: "unat ?e = unat c * 2 ^ k" using Suc.prems(2) by (simp add: unat_div)
  have "0 < unat c" using valid [OF assms(1)] valid_count_pos by blast
  have "valid_count ?e"
  proof -
    obtain i where i: "i < 16" "unat d = 2 ^ i"
      using valid [OF Suc.prems(1)] by (auto simp: valid_count_def)
    have "0 < i"
      using i(2) Suc.prems(2) by (cases i) auto
    then obtain j where "i = Suc j" by (cases i) auto
    with i show ?thesis by (auto simp: valid_count_def unat_div intro!: exI [of _ j])
  qed
  then obtain p where p: "shard_of t ?e = Some p"
    using total valid [OF assms(1)] by blast
  have "unat m = unat p \<or> unat m = unat p + unat ?e"
    using split [OF p Suc.prems(1)] e Suc.prems(2) by simp
  with Suc.IH [OF p e] e show ?case by auto
qed

lemma original:
  assumes "shard_of t c = Some n" and "shard_of t d = Some m" and "unat d = unat c * 2 ^ k"
  shows "get_original_shard_num m d c = Ok n"
proof -
  have "0 < c" using valid [OF assms(1)] valid_count_pos [of c] by (simp add: word_less_nat_alt)
  then obtain r where "get_original_shard_num m d c = Ok r" "unat r = unat m mod unat c"
    using get_original_shard_num_mod [OF assms(3) _ bound [OF assms(2)]] by blast
  with split_mod [OF assms] show ?thesis by (simp add: word_unat_eq_iff)
qed

lemma unique_shard: "ok t \<Longrightarrow> valid_count c \<Longrightarrow> \<exists>!n. n < c \<and> shard_of t c = Some n"
  using total bound by (metis option.inject)

end
interpretation account: shard_map "shard_num_for encode" "\<lambda>t. 2 \<le> length (encode t)"
  for encode :: "'t \<Rightarrow> u8 list"
proof unfold_locales
  fix t c n m d
  show "\<exists>n. shard_num_for encode t c = Some n" if "2 \<le> length (encode t)" "valid_count c"
    using shard_num_for_bytes_total [OF that] by (auto simp: shard_num_for_def)
  show "2 \<le> length (encode t) \<and> valid_count c" if "shard_num_for encode t c = Some n"
    using that by (simp add: shard_num_for_def shard_num_for_bytes_Some)
  show "n < c" if "shard_num_for encode t c = Some n"
    using that valid_count_pos [of c]
    by (simp add: shard_num_for_def shard_num_for_bytes_Some word_less_nat_alt)
  show "unat m = unat n \<or> unat m = unat n + unat c"
    if "shard_num_for encode t c = Some n" "shard_num_for encode t d = Some m" "unat d = 2 * unat c"
    using that mod_double_eq [of "unat c" "tail_value (encode t)"] valid_count_pos [of c]
    by (simp add: shard_num_for_def shard_num_for_bytes_Some)
qed

text \<open>
  C5: an account with a two-byte tail has a shard for exactly the shard counts that
  are powers of two below \<open>2 ^ 16\<close>, and the shard is the big-endian value of the
  last two bytes of its encoding modulo the count.
\<close>

theorem shard_num_for_spec:
  "shard_num_for encode t c = Some n \<longleftrightarrow>
     2 \<le> length (encode t) \<and> (\<exists>k<16. unat c = 2 ^ k) \<and> unat n = tail_value (encode t) mod unat c"
  by (simp add: shard_num_for_def shard_num_for_bytes_Some valid_count_def)

text \<open>
  C6: scaling out is invertible. When the shard count grows from \<open>c\<close> to \<open>d\<close> by any
  number of doublings, the verifier's \<open>get_original_shard_num\<close> maps the new shard of
  an account back to its old one.
\<close>

theorem get_original_shard_num_inverts_split:
  assumes "shard_num_for encode t c = Some n" and "shard_num_for encode t d = Some m"
    and "unat d = unat c * 2 ^ k"
  shows "get_original_shard_num m d c = Ok n"
  by (rule account.original [OF assms])

theorem get_original_shard_num_inverts_split_witness:
  "shard_num_for id [0xa2, 0x7d :: u8] 4 = Some 1 \<and> shard_num_for id [0xa2, 0x7d :: u8] 16 = Some 13
     \<and> get_original_shard_num 13 16 4 = Ok 1"
proof -
  have a: "shard_num_for id [0xa2, 0x7d :: u8] 4 = Some 1" by code_simp
  have b: "shard_num_for id [0xa2, 0x7d :: u8] 16 = Some 13" by code_simp
  show ?thesis
    using a b get_original_shard_num_inverts_split [OF a b, of 2] by simp
qed

end
