(* ===== verification/Sharding_Module.thy ===== *)
theory Sharding_Module
  imports Sharding_Digest Sharding_Utils
begin

text \<open>
  The runtime module \<open>srml/yee-sharding/src/lib.rs\<close>: the shard a block belongs to,
  set by an inherent, and the scale-out state machine
  None, Started, NativeReady, Ready, Commiting, Committed, None that doubles the
  number of shards. The lemmas give the value of the phase after each block and
  the time a scale-out takes.
\<close>

section \<open>Data and storage\<close>

record ScaleOut =
  so_shard_num :: u16

record ShardInfo =
  si_num :: u16
  si_count :: u16
  si_scale_out :: "ScaleOut option"

text \<open>The runtime's own copy of the phase enumeration; \<open>Rt_Commiting\<close> is spelt as there.\<close>

datatype rt_phase =
    Rt_Started u64 u16
  | Rt_NativeReady u64 u16
  | Rt_Ready u64 u16
  | Rt_Commiting u16
  | Rt_Committed u16 u16

datatype sharding_log = ShardMarker u16 u16 | ScaleOutPhaseLog rt_phase

record 'a sharding_store = "'a system_store" +
  genesis_sharding_count :: u16
  scale_out_observe_blocks :: u64
  current_shard_info :: "ShardInfo option"
  current_scale_out_phase :: "rt_phase option"

section \<open>Operations\<close>

definition set_shard_info ::
  "'a origin \<Rightarrow> ShardInfo \<Rightarrow> ('a, 'z) sharding_store_scheme
     \<Rightarrow> unit result \<times> ('a, 'z) sharding_store_scheme" where
  "set_shard_info origin info s =
     (case ensure_inherent origin of Inl e \<Rightarrow> (Err e, s) | Inr _ \<Rightarrow>
       (let s = s\<lparr>current_shard_info := Some info\<rparr>;
            bn = block_number s;
            observe = scale_out_observe_blocks s;
            target_shard_num = (case si_scale_out info of Some so \<Rightarrow> so_shard_num so | None \<Rightarrow> si_num info)
        in (Ok (),
          (case current_scale_out_phase s of
             None \<Rightarrow>
               (case si_scale_out info of
                  Some _ \<Rightarrow> s\<lparr>current_scale_out_phase := Some (Rt_Started (bn + observe) target_shard_num)\<rparr>
                | None \<Rightarrow> s)
           | Some (Rt_Started observe_util shard_num) \<Rightarrow>
               if observe_util = bn
               then s\<lparr>current_scale_out_phase := Some (Rt_NativeReady (bn + observe) target_shard_num)\<rparr>
               else s
           | Some (Rt_NativeReady observe_util shard_num) \<Rightarrow>
               if observe_util = bn
               then s\<lparr>current_scale_out_phase := Some (Rt_Ready (bn + observe) target_shard_num)\<rparr>
               else s
           | Some (Rt_Ready observe_util shard_num) \<Rightarrow>
               if observe_util = bn
               then s\<lparr>current_scale_out_phase := Some (Rt_Commiting (si_count info + si_count info))\<rparr>
               else s
           | Some (Rt_Commiting shard_count) \<Rightarrow>
               s\<lparr>current_scale_out_phase := Some (Rt_Committed target_shard_num shard_count)\<rparr>
           | Some (Rt_Committed shard_num shard_count) \<Rightarrow>
               s\<lparr>current_scale_out_phase := None\<rparr>))))"

text \<open>
  A log of the module enters the digest as \<open>Other\<close> of the encoding of the runtime's
  log enumeration, in which the sharding module has index 2 (after system and
  consensus), followed by the variant of \<open>RawLog\<close>.
\<close>

fun rt_phase_encode :: "u64 codec \<Rightarrow> u16 codec \<Rightarrow> rt_phase \<Rightarrow> u8 list" where
  "rt_phase_encode cb cn (Rt_Started u n) = 0 # enc cb u @ enc cn n"
| "rt_phase_encode cb cn (Rt_NativeReady u n) = 1 # enc cb u @ enc cn n"
| "rt_phase_encode cb cn (Rt_Ready u n) = 2 # enc cb u @ enc cn n"
| "rt_phase_encode cb cn (Rt_Commiting c) = 3 # enc cn c"
| "rt_phase_encode cb cn (Rt_Committed n c) = 4 # enc cn n @ enc cn c"

fun sharding_log_item :: "u64 codec \<Rightarrow> u16 codec \<Rightarrow> sharding_log \<Rightarrow> digest_item" where
  "sharding_log_item cb cn (ShardMarker n c) = Other (2 # 0 # enc cn n @ enc cn c)"
| "sharding_log_item cb cn (ScaleOutPhaseLog p) = Other (2 # 1 # rt_phase_encode cb cn p)"

definition sharding_on_finalize ::
  "u64 codec \<Rightarrow> u16 codec \<Rightarrow> ('a, 'z) sharding_store_scheme \<Rightarrow> ('a, 'z) sharding_store_scheme" where
  "sharding_on_finalize cb cn s =
     (let s1 = (case current_shard_info s of
                  Some i \<Rightarrow> deposit_log (sharding_log_item cb cn (ShardMarker (si_num i) (si_count i))) s
                | None \<Rightarrow> s)
      in case current_scale_out_phase s1 of
           Some p \<Rightarrow> deposit_log (sharding_log_item cb cn (ScaleOutPhaseLog p)) s1
         | None \<Rightarrow> s1)"

text \<open>
  The interface to the other modules: \<open>None\<close> of the outer option is the panic of
  \<open>expect\<close> when no shard info was set.
\<close>

definition get_genesis_shard_count :: "('a, 'z) sharding_store_scheme \<Rightarrow> u16" where
  "get_genesis_shard_count s = genesis_sharding_count s"

definition get_curr_shard :: "('a, 'z) sharding_store_scheme \<Rightarrow> u16 option" where
  "get_curr_shard s = map_option si_num (current_shard_info s)"

definition get_shard_count :: "('a, 'z) sharding_store_scheme \<Rightarrow> u16 option" where
  "get_shard_count s = map_option si_count (current_shard_info s)"

section \<open>What the module writes is what the node reads\<close>

fun node_phase :: "rt_phase \<Rightarrow> ScaleOutPhase" where
  "node_phase (Rt_Started u n) = Started u n"
| "node_phase (Rt_NativeReady u n) = NativeReady u n"
| "node_phase (Rt_Ready u n) = Ready u n"
| "node_phase (Rt_Commiting c) = Committing c"
| "node_phase (Rt_Committed n c) = Committed n c"

lemma rt_phase_encode_node: "rt_phase_encode cb cn p = phase_encode cb cn (node_phase p)"
  by (cases p) auto

lemma sharding_log_item_marker: "sharding_log_item cb cn (ShardMarker n c) = sharding_info cn n c"
  by (simp add: sharding_info_def prefix_defs)

lemma sharding_log_item_phase:
  "sharding_log_item cb cn (ScaleOutPhaseLog p) = scale_out_phase cb cn (node_phase p)"
  by (simp add: scale_out_phase_def prefix_defs rt_phase_encode_node)

lemmas log_items = sharding_log_item_marker sharding_log_item_phase as_sharding_info_sharding_info
  as_scale_out_phase_scale_out_phase as_sharding_info_other as_scale_out_phase_other

lemma on_finalize_shard_info:
  assumes "codec_ok cb" "codec_ok cn" "min_size 1 cn"
  shows "last_log (as_sharding_info cn) (digest (sharding_on_finalize cb cn s)) =
    (case current_shard_info s of Some i \<Rightarrow> Some (si_num i, si_count i)
     | None \<Rightarrow> last_log (as_sharding_info cn) (digest s))"
  using assms
  by (auto simp: sharding_on_finalize_def Let_def store_defs log_items simp del: sharding_log_item.simps
      split: option.splits)

lemma on_finalize_phase:
  assumes "codec_ok cb" "codec_ok cn" "min_size 1 cn"
    and "last_log (as_scale_out_phase cb cn) (digest s) = None"
  shows "last_log (as_scale_out_phase cb cn) (digest (sharding_on_finalize cb cn s)) =
    map_option node_phase (current_scale_out_phase s)"
  using assms
  by (auto simp: sharding_on_finalize_def Let_def store_defs log_items simp del: sharding_log_item.simps
      split: option.splits)


section \<open>The state machine\<close>

definition target_num :: "ShardInfo \<Rightarrow> u16" where
  "target_num info = (case si_scale_out info of Some so \<Rightarrow> so_shard_num so | None \<Rightarrow> si_num info)"

text \<open>The phase after a block, from the phase before it.\<close>

fun next_phase :: "u64 \<Rightarrow> u64 \<Rightarrow> ShardInfo \<Rightarrow> rt_phase option \<Rightarrow> rt_phase option" where
  "next_phase obs bn info None =
     (if si_scale_out info = None then None else Some (Rt_Started (bn + obs) (target_num info)))"
| "next_phase obs bn info (Some (Rt_Started u n)) =
     Some (if u = bn then Rt_NativeReady (bn + obs) (target_num info) else Rt_Started u n)"
| "next_phase obs bn info (Some (Rt_NativeReady u n)) =
     Some (if u = bn then Rt_Ready (bn + obs) (target_num info) else Rt_NativeReady u n)"
| "next_phase obs bn info (Some (Rt_Ready u n)) =
     Some (if u = bn then Rt_Commiting (si_count info + si_count info) else Rt_Ready u n)"
| "next_phase obs bn info (Some (Rt_Commiting c)) = Some (Rt_Committed (target_num info) c)"
| "next_phase obs bn info (Some (Rt_Committed n c)) = None"

lemma set_shard_info_inherent:
  "set_shard_info Inherent info s =
     (Ok (), s\<lparr>current_shard_info := Some info,
               current_scale_out_phase := next_phase (scale_out_observe_blocks s) (block_number s) info
                 (current_scale_out_phase s)\<rparr>)"
proof (cases "current_scale_out_phase s")
  case None
  then show ?thesis by (cases "si_scale_out info") (simp_all add: set_shard_info_def target_num_def)
next
  case (Some p)
  then show ?thesis by (cases p) (simp_all add: set_shard_info_def target_num_def)
qed

lemma set_shard_info_bad_origin:
  "origin \<noteq> Inherent \<Longrightarrow> \<exists>e. set_shard_info origin info s = (Err e, s)"
  by (cases origin) (auto simp: set_shard_info_def)

text \<open>
  The phases of consecutive blocks with numbers from \<open>bn\<close>, given the shard info of
  each of them.
\<close>

fun phases :: "u64 \<Rightarrow> u64 \<Rightarrow> ShardInfo list \<Rightarrow> rt_phase option \<Rightarrow> rt_phase option" where
  "phases obs bn [] p = p"
| "phases obs bn (i # is) p = phases obs (bn + 1) is (next_phase obs bn i p)"

lemma phases_append: "phases obs bn (xs @ ys) p = phases obs (bn + of_nat (length xs)) ys (phases obs bn xs p)"
  by (induction xs arbitrary: bn p) (simp_all add: algebra_simps)

lemma phases_wait:
  assumes "\<And>bn i. bn \<noteq> u \<Longrightarrow> next_phase obs bn i (Some p) = Some p"
    and "u = bn + of_nat k" and "length is \<le> k" and "k < 2 ^ 64"
  shows "phases obs bn is (Some p) = Some p"
  using assms(2-)
proof (induction "is" arbitrary: bn k)
  case (Cons i "is")
  then obtain j where k: "k = Suc j" by (cases k) auto
  have "(of_nat k :: u64) \<noteq> 0"
    using Cons.prems(3) k unat_of_nat_small [of k, where ?'a = 64] by auto
  with Cons.prems(1) have "bn \<noteq> u" by simp
  moreover have "u = bn + 1 + of_nat j" using Cons.prems(1) k by (simp add: algebra_simps)
  ultimately show ?case using Cons.IH [of "bn + 1" j] Cons.prems k assms(1) by simp
qed simp


lemma phases_cycle:
  assumes k: "unat obs = Suc m" and l: "length xs1 = m" "length xs2 = m" "length xs3 = m"
    and so: "si_scale_out i0 \<noteq> None"
  shows "phases obs bn ([i0] @ xs1 @ [i1] @ xs2 @ [i2] @ xs3 @ [i3]) None
    = Some (Rt_Commiting (si_count i3 + si_count i3))"
proof -
  have m: "m < 2 ^ 64" using k unsigned_less [of obs, where ?'a = nat] by simp
  have "of_nat (unat obs) = obs" by simp
  then have o': "of_nat (Suc m) = obs" by (simp only: k)
  then have o: "obs = of_nat m + 1" by (simp add: add.commute)
  have L: "of_nat (length ([i] @ xs)) = obs" if "length xs = m" for i :: ShardInfo and xs
    using o' that by simp
  have w: "phases obs (b + 1) xs (Some p) = Some p"
    if "length xs = m" "\<And>bn i. bn \<noteq> b + obs \<Longrightarrow> next_phase obs bn i (Some p) = Some p" for b xs p
    by (rule phases_wait [of "b + obs" _ _ _ m]) (use that m o in auto)
  have a: "phases obs bn ([i0] @ xs1) None = Some (Rt_Started (bn + obs) (target_num i0))"
    using so w [OF l(1), of bn] by auto
  have b: "phases obs (bn + obs) ([i1] @ xs2) (Some (Rt_Started (bn + obs) n))
      = Some (Rt_NativeReady (bn + obs + obs) (target_num i1))" for n
    using w [OF l(2), of "bn + obs"] by simp
  have c: "phases obs (bn + obs + obs) ([i2] @ xs3) (Some (Rt_NativeReady (bn + obs + obs) n))
      = Some (Rt_Ready (bn + obs + obs + obs) (target_num i2))" for n
    using w [OF l(3), of "bn + obs + obs"] by simp
  have "phases obs bn (([i0] @ xs1) @ ([i1] @ xs2) @ ([i2] @ xs3) @ [i3]) None
      = phases obs (bn + obs) (([i1] @ xs2) @ ([i2] @ xs3) @ [i3]) (Some (Rt_Started (bn + obs) (target_num i0)))"
    unfolding phases_append [of _ _ "[i0] @ xs1"] L [OF l(1)] a ..
  also have "\<dots> = phases obs (bn + obs + obs) (([i2] @ xs3) @ [i3])
      (Some (Rt_NativeReady (bn + obs + obs) (target_num i1)))"
    unfolding phases_append [of _ _ "[i1] @ xs2"] L [OF l(2)] b ..
  also have "\<dots> = phases obs (bn + obs + obs + obs) [i3]
      (Some (Rt_Ready (bn + obs + obs + obs) (target_num i2)))"
    unfolding phases_append [of _ _ "[i2] @ xs3"] L [OF l(3)] c ..
  also have "\<dots> = Some (Rt_Commiting (si_count i3 + si_count i3))" by simp
  finally show ?thesis by (simp only: append_assoc)
qed

text \<open>Consecutive blocks of the module: the number grows by one and the inherent is applied.\<close>

definition sharding_block :: "ShardInfo \<Rightarrow> ('a, 'z) sharding_store_scheme \<Rightarrow> ('a, 'z) sharding_store_scheme" where
  "sharding_block info s = snd (set_shard_info Inherent info (s\<lparr>block_number := block_number s + 1\<rparr>))"

lemma sharding_blocks_phase:
  "current_scale_out_phase (fold sharding_block is s)
     = phases (scale_out_observe_blocks s) (block_number s + 1) is (current_scale_out_phase s)"
  by (induction "is" arbitrary: s) (simp_all add: sharding_block_def set_shard_info_inherent)

text \<open>
  C7: a scale-out requested while no other is under way runs to its end. With an
  observation period of \<open>m + 1\<close> blocks the phase is \<open>Committed\<close> with twice the shard
  count \<open>3 * (m + 1) + 1\<close> blocks after the requesting block, whatever the blocks in
  between carry, and the block after that clears it.
\<close>

theorem scale_out_completes:
  assumes "unat (scale_out_observe_blocks s) = Suc m" and "current_scale_out_phase s = None"
    and "length xs1 = m" and "length xs2 = m" and "length xs3 = m" and "si_scale_out i0 \<noteq> None"
  shows "current_scale_out_phase
      (fold sharding_block ([i0] @ xs1 @ [i1] @ xs2 @ [i2] @ xs3 @ [i3, i4]) s)
      = Some (Rt_Committed (target_num i4) (2 * si_count i3))
    \<and> current_scale_out_phase
      (fold sharding_block ([i0] @ xs1 @ [i1] @ xs2 @ [i2] @ xs3 @ [i3, i4, i5]) s) = None"
proof -
  let ?c = "[i0] @ xs1 @ [i1] @ xs2 @ [i2] @ xs3 @ [i3]"
  have q: "current_scale_out_phase (fold sharding_block (?c @ ys) s)
      = phases (scale_out_observe_blocks s) (block_number s + 1 + of_nat (length ?c)) ys
          (Some (Rt_Commiting (si_count i3 + si_count i3)))" for ys
    unfolding sharding_blocks_phase assms(2) phases_append [of _ _ ?c] phases_cycle [OF assms(1,3-6)] ..
  have e: "[i0] @ xs1 @ [i1] @ xs2 @ [i2] @ xs3 @ [i3, i4] = ?c @ [i4]"
    "[i0] @ xs1 @ [i1] @ xs2 @ [i2] @ xs3 @ [i3, i4, i5] = ?c @ [i4, i5]" by simp_all
  show ?thesis unfolding e q by simp
qed

definition demo_store :: "nat sharding_store" where
  "demo_store = \<lparr>block_number = 9, digest = [], events = [], account_nonce = Map.empty,
     genesis_sharding_count = 4, scale_out_observe_blocks = 1,
     current_shard_info = None, current_scale_out_phase = None\<rparr>"

theorem scale_out_completes_witness:
  "let i = \<lparr>si_num = 1, si_count = 4, si_scale_out = Some \<lparr>so_shard_num = 5\<rparr>\<rparr>;
       j = \<lparr>si_num = 5, si_count = 8, si_scale_out = None\<rparr>
   in current_scale_out_phase (fold sharding_block [i, i, i, i, j] demo_store) = Some (Rt_Committed 5 8)"
proof -
  let ?i = "\<lparr>si_num = 1, si_count = 4, si_scale_out = Some \<lparr>so_shard_num = 5\<rparr>\<rparr> :: ShardInfo"
  let ?j = "\<lparr>si_num = 5, si_count = 8, si_scale_out = None\<rparr> :: ShardInfo"
  show ?thesis
    using scale_out_completes [of demo_store 0 "[]" "[]" "[]" ?i ?i ?i ?i ?j ?j]
    by (simp add: demo_store_def target_num_def Let_def)
qed

end
