(* ===== verification/Scale_Out_Check.thy ===== *)
theory Scale_Out_Check
  imports Sharding_Module
begin

text \<open>
  The verifier's check of the shard and of the scale-out phase of a header,
  \<open>check_shard_info\<close> and \<open>check_scale\<close> of \<open>core/consensus/pow/src/verifier.rs\<close>. The
  result is an option: \<open>None\<close> is a panic (\<open>expect\<close>). The calls of \<open>trigger_exit\<close> are
  returned as a list. The main lemma is the refinement between the runtime module
  and the verifier: the headers the module produces pass the check.
\<close>

record 'h header =
  hd_number :: u64
  hd_parent_hash :: 'h
  hd_logs :: "digest_item list"

record 'a ShardExtra =
  se_coinbase :: 'a
  se_shard_num :: u16
  se_shard_count :: u16
  se_scale_out :: "ScaleOut option"

datatype exit_call = Trigger_Stop | Trigger_Restart

section \<open>The check of the phase\<close>

definition own_num :: "u16 \<Rightarrow> u16 \<Rightarrow> u16 \<Rightarrow> bool" where
  "own_num shard_num num count \<longleftrightarrow> shard_num = num \<or> shard_num = num + count"

fun check_phase :: "u64 \<Rightarrow> u64 \<Rightarrow> u16 \<Rightarrow> u16 \<Rightarrow> ScaleOutPhase option \<Rightarrow> ScaleOutPhase option \<Rightarrow> bool" where
  "check_phase number observe_blocks num count (Some (Started p_observe_util p_shard_num)) phase =
     (case phase of
        Some (Started observe_util shard_num) \<Rightarrow>
          p_observe_util = observe_util \<and> own_num shard_num num count \<and> number < observe_util
      | Some (NativeReady observe_util shard_num) \<Rightarrow>
          p_observe_util = number \<and> own_num shard_num num count \<and> number + observe_blocks = observe_util
      | None \<Rightarrow> True
      | _ \<Rightarrow> False)"
| "check_phase number observe_blocks num count (Some (NativeReady p_observe_util p_shard_num)) phase =
     (case phase of
        Some (NativeReady observe_util shard_num) \<Rightarrow>
          p_observe_util = observe_util \<and> own_num shard_num num count \<and> number < observe_util
      | Some (Ready observe_util shard_num) \<Rightarrow>
          p_observe_util = number \<and> own_num shard_num num count \<and> number + observe_blocks = observe_util
      | None \<Rightarrow> True
      | _ \<Rightarrow> False)"
| "check_phase number observe_blocks num count (Some (Ready p_observe_util p_shard_num)) phase =
     (case phase of
        Some (Ready observe_util shard_num) \<Rightarrow>
          p_observe_util = observe_util \<and> own_num shard_num num count \<and> number < observe_util
      | Some (Committing shard_count) \<Rightarrow> p_observe_util = number \<and> shard_count = count * 2
      | _ \<Rightarrow> False)"
| "check_phase number observe_blocks num count (Some (Committing p_shard_count)) phase =
     (case phase of
        Some (Committed shard_num shard_count) \<Rightarrow>
          shard_num = num \<and> shard_count = p_shard_count \<and> count = shard_count
      | _ \<Rightarrow> False)"
| "check_phase number observe_blocks num count (Some (Committed p_shard_num p_shard_count)) phase =
     (case phase of
        Some (Started observe_util shard_num) \<Rightarrow>
          observe_util = number + observe_blocks \<and> own_num shard_num num count
      | None \<Rightarrow> True
      | _ \<Rightarrow> False)"
| "check_phase number observe_blocks num count None phase =
     (case phase of
        Some (Started observe_util shard_num) \<Rightarrow>
          number + observe_blocks = observe_util \<and> own_num shard_num num count
      | Some _ \<Rightarrow> False
      | None \<Rightarrow> True)"

definition check_scale ::
  "u64 codec \<Rightarrow> u16 codec \<Rightarrow> ('a \<Rightarrow> u8 list) \<Rightarrow> 'h header \<Rightarrow> 'a ShardExtra
     \<Rightarrow> (unit result \<times> exit_call list) option" where
  "check_scale cb cn encode header extra =
     (case last_log (as_scale_out_phase cb cn) (hd_logs header) of
        Some (Committed _ scale_shard_count) \<Rightarrow>
          (let target_shard_num =
             (case se_scale_out extra of Some so \<Rightarrow> so_shard_num so | None \<Rightarrow> se_shard_num extra)
           in if se_shard_count extra \<noteq> scale_shard_count
              then (case shard_num_for encode (se_coinbase extra) scale_shard_count of
                      None \<Rightarrow> None
                    | Some coinbase_shard_num \<Rightarrow>
                        if target_shard_num \<noteq> coinbase_shard_num
                        then Some (Err ''Invalid arg coinbase'', [Trigger_Stop])
                        else Some (Err ''Invalid arg shard info'', [Trigger_Restart]))
              else Some (Ok (), []))
      | _ \<Rightarrow> Some (Ok (), []))"

text \<open>\<open>header_of\<close> is the client's header lookup, \<open>observe_blocks\<close> the context's genesis value.\<close>

definition check_shard_info ::
  "u64 codec \<Rightarrow> u16 codec \<Rightarrow> ('a \<Rightarrow> u8 list) \<Rightarrow> ('h \<Rightarrow> 'h header option) \<Rightarrow> u64 \<Rightarrow> 'a ShardExtra
     \<Rightarrow> 'h header \<Rightarrow> (unit result \<times> exit_call list) option" where
  "check_shard_info cb cn encode header_of observe_blocks extra header =
     (case last_log (as_sharding_info cn) (hd_logs header) of
        None \<Rightarrow> None
      | Some (num, count) \<Rightarrow>
     (case header_of (hd_parent_hash header) of
        None \<Rightarrow> None
      | Some parent \<Rightarrow>
          if \<not> check_phase (hd_number header) observe_blocks num count
                 (last_log (as_scale_out_phase cb cn) (hd_logs parent))
                 (last_log (as_scale_out_phase cb cn) (hd_logs header))
          then Some (Err ''ScaleOutPhase checked failed.'', [])
          else (case check_scale cb cn encode header extra of
                  None \<Rightarrow> None
                | Some (Inl e, calls) \<Rightarrow> Some (Err e, calls)
                | Some (Inr _, calls) \<Rightarrow>
                    (case get_original_shard_num (se_shard_num extra) (se_shard_count extra) count of
                       Inl e \<Rightarrow> Some (Err e, calls)
                     | Inr original_shard_num \<Rightarrow>
                         if num \<noteq> original_shard_num
                         then Some (Err ''Invalid header shard info'', calls)
                         else Some (Ok (), calls)))))"

section \<open>The runtime's phases pass the check\<close>

text \<open>
  The invariant of the runtime's phase after block \<open>bn\<close> of a shard numbered \<open>num\<close>
  of \<open>count\<close>: an observation period ends in a later block, and the shard number
  recorded is one of the two numbers shard \<open>num\<close> splits into.
\<close>

fun phase_inv :: "u64 \<Rightarrow> u16 \<Rightarrow> u16 \<Rightarrow> rt_phase option \<Rightarrow> bool" where
  "phase_inv bn num count (Some (Rt_Started u n)) \<longleftrightarrow> bn < u \<and> own_num n num count"
| "phase_inv bn num count (Some (Rt_NativeReady u n)) \<longleftrightarrow> bn < u \<and> own_num n num count"
| "phase_inv bn num count (Some (Rt_Ready u n)) \<longleftrightarrow> bn < u \<and> own_num n num count"
| "phase_inv bn num count _ \<longleftrightarrow> True"

text \<open>
  What the node's inherent data has to be: the target shard is one of the two the
  shard splits into, and the block after \<open>Commiting\<close> is made by a node restarted
  with the doubled count and the number it targets.
\<close>

definition info_ok :: "rt_phase option \<Rightarrow> ShardInfo \<Rightarrow> bool" where
  "info_ok p info \<longleftrightarrow> own_num (target_num info) (si_num info) (si_count info) \<and>
     (case p of Some (Rt_Commiting c) \<Rightarrow> si_count info = c \<and> target_num info = si_num info | _ \<Rightarrow> True)"

lemma next_number_less:
  fixes bn u :: u64
  shows "bn < u \<Longrightarrow> bn + 1 \<noteq> u \<Longrightarrow> bn + 1 < u"
  using inc_le less_le by blast

lemma number_less_util:
  fixes bn obs :: u64
  shows "unat bn + unat obs < 2 ^ 64 \<Longrightarrow> 0 < obs \<Longrightarrow> bn < bn + obs"
  by (simp add: word_less_nat_alt)

lemma next_phase_checked:
  assumes inv: "phase_inv bn (si_num info) (si_count info) p" and info: "info_ok p info"
    and obs: "0 < obs" "unat (bn + 1) + unat obs < 2 ^ 64"
  shows "check_phase (bn + 1) obs (si_num info) (si_count info)
      (map_option node_phase p) (map_option node_phase (next_phase obs (bn + 1) info p))"
    and "phase_inv (bn + 1) (si_num info) (si_count info) (next_phase obs (bn + 1) info p)"
proof -
  note l = number_less_util [OF obs(2,1)]
  show "check_phase (bn + 1) obs (si_num info) (si_count info)
      (map_option node_phase p) (map_option node_phase (next_phase obs (bn + 1) info p))"
  proof (cases p)
    case None
    then show ?thesis using info by (simp add: info_ok_def)
  next
    case (Some q)
    then show ?thesis using inv info by (cases q) (auto simp: info_ok_def next_number_less)
  qed
  show "phase_inv (bn + 1) (si_num info) (si_count info) (next_phase obs (bn + 1) info p)"
  proof (cases p)
    case None
    then show ?thesis using info l by (simp add: info_ok_def)
  next
    case (Some q)
    then show ?thesis using inv info l by (cases q) (auto simp: info_ok_def next_number_less)
  qed
qed

lemma last_log_none: "\<forall>d\<in>set ds. f d = None \<Longrightarrow> last_log f (logs @ ds) = last_log f logs"
proof (induction ds rule: rev_induct)
  case (snoc d ds)
  then show ?case using last_log_snoc [of f "logs @ ds" d] by simp
qed simp

lemma produced_logs:
  assumes "codec_ok cb" and "codec_ok cn" and "min_size 1 cn"
    and "last_log (as_scale_out_phase cb cn) (digest s) = None"
  shows "last_log (as_sharding_info cn) (digest (sharding_on_finalize cb cn (snd (set_shard_info Inherent info s)))) = Some (si_num info, si_count info)"
    and "last_log (as_scale_out_phase cb cn) (digest (sharding_on_finalize cb cn (snd (set_shard_info Inherent info s))))
      = map_option node_phase (next_phase (scale_out_observe_blocks s) (block_number s) info
          (current_scale_out_phase s))"
  using assms(4)
  by (simp_all add: set_shard_info_inherent on_finalize_shard_info [OF assms(1-3)]
      on_finalize_phase [OF assms(1-3)])

text \<open>
  C3: a block produced by the runtime passes the verifier. Let \<open>s\<close> be the storage at the
  start of block \<open>bn + 1\<close> whose parent header carries the current phase. If the phase
  satisfies the invariant, the inherent is one a correctly configured node
  provides, and the verifying node's own shard arguments descend from the block's
  shard, then the header with the logs the sharding module deposits (and any
  further logs of other modules) is accepted without stopping the node.
\<close>

theorem produced_header_accepted:
  assumes codecs: "codec_ok cb" "codec_ok cn" "min_size 1 cn"
    and store: "block_number s = bn + 1" "last_log (as_scale_out_phase cb cn) (digest s) = None"
      "0 < scale_out_observe_blocks s" "unat (bn + 1) + unat (scale_out_observe_blocks s) < 2 ^ 64"
    and inv: "phase_inv bn (si_num info) (si_count info) (current_scale_out_phase s)"
      "info_ok (current_scale_out_phase s) info"
    and parent: "header_of (hd_parent_hash header) = Some parent"
      "last_log (as_scale_out_phase cb cn) (hd_logs parent) = map_option node_phase (current_scale_out_phase s)"
    and header: "hd_number header = bn + 1"
      "hd_logs header = digest (sharding_on_finalize cb cn (snd (set_shard_info Inherent info s))) @ ds"
      "\<forall>d\<in>set ds. as_sharding_info cn d = None \<and> as_scale_out_phase cb cn d = None"
    and extra: "get_original_shard_num (se_shard_num extra) (se_shard_count extra) (si_count info) = Ok (si_num info)"
      "\<And>c. current_scale_out_phase s = Some (Rt_Commiting c) \<Longrightarrow> se_shard_count extra = c"
  shows "check_shard_info cb cn encode header_of (scale_out_observe_blocks s) extra header = Some (Ok (), [])"
proof -
  let ?p = "next_phase (scale_out_observe_blocks s) (bn + 1) info (current_scale_out_phase s)"
  have logs: "last_log (as_sharding_info cn) (hd_logs header) = Some (si_num info, si_count info)"
    "last_log (as_scale_out_phase cb cn) (hd_logs header) = map_option node_phase ?p"
    using produced_logs [OF codecs store(2), of info] header(2,3) store(1)
    by (simp_all add: last_log_none)
  have "check_phase (bn + 1) (scale_out_observe_blocks s) (si_num info) (si_count info)
      (map_option node_phase (current_scale_out_phase s)) (map_option node_phase ?p)"
    by (rule next_phase_checked(1) [OF inv store(3,4)])
  moreover have "check_scale cb cn encode header extra = Some (Ok (), [])"
  proof (cases "current_scale_out_phase s")
    case None
    then show ?thesis by (simp add: check_scale_def logs(2))
  next
    case (Some q)
    then show ?thesis using extra(2) by (cases q) (simp_all add: check_scale_def logs(2))
  qed
  ultimately show ?thesis
    by (simp add: check_shard_info_def logs parent header(1) extra(1))
qed

theorem produced_header_accepted_witness:
  "\<exists>header. check_shard_info (le_codec 8) (le_codec 2) id
     (\<lambda>h. Some \<lparr>hd_number = 9, hd_parent_hash = h, hd_logs = []\<rparr>) 1
     \<lparr>se_coinbase = [0, 5], se_shard_num = 1, se_shard_count = 4, se_scale_out = Some \<lparr>so_shard_num = 5\<rparr>\<rparr>
     (header :: nat header) = Some (Ok (), [])"
proof -
  let ?i = "\<lparr>si_num = 1, si_count = 4, si_scale_out = Some \<lparr>so_shard_num = 5\<rparr>\<rparr> :: ShardInfo"
  let ?s = "demo_store\<lparr>block_number := 10\<rparr>"
  let ?hd = "\<lparr>hd_number = 10, hd_parent_hash = 0, hd_logs = digest (sharding_on_finalize (le_codec 8) (le_codec 2)
      (snd (set_shard_info Inherent ?i ?s)))\<rparr> :: nat header"
  have orig: "get_original_shard_num 1 4 4 = Ok 1" by code_simp
  have "check_shard_info (le_codec 8) (le_codec 2) id
     (\<lambda>h. Some \<lparr>hd_number = 9, hd_parent_hash = h, hd_logs = []\<rparr>) (scale_out_observe_blocks ?s)
     \<lparr>se_coinbase = [0, 5], se_shard_num = 1, se_shard_count = 4, se_scale_out = Some \<lparr>so_shard_num = 5\<rparr>\<rparr>
     ?hd = Some (Ok (), [])"
    by (rule produced_header_accepted
      [where bn = 9 and info = ?i and ds = "[]" and parent = "\<lparr>hd_number = 9, hd_parent_hash = 0, hd_logs = []\<rparr>"])
      (simp_all add: codec_ok_le min_size_le demo_store_def info_ok_def own_num_def target_num_def orig)
  then show ?thesis by (auto simp: demo_store_def)
qed

end
