(* ===== verification/Pow_Store.thy ===== *)
theory Pow_Store
  imports Sharding_Module
begin

text \<open>
  The storage of the proof-of-work module \<open>srml/yee-pow/src/lib.rs\<close> and the
  operations that do not pay rewards: the inherent that names the coinbase, its
  check, the per-block reset of the fee counter and the counter itself. The reward
  payment uses the currency and is in \<open>Pow_Reward\<close>.
\<close>

datatype RewardCondition = Normal | Slash

record 'a PowInfo =
  pi_coinbase :: 'a
  pi_reward_condition :: RewardCondition

record 'a pow_store = "'a sharding_store" +
  genesis_pow_target :: u256
  pow_target_adj :: u64
  target_block_time :: u64
  block_reward :: u128
  block_reward_latency :: u64
  reward_plans :: "'a reward_plan list"
  total_fee :: u128
  current_pow_info :: "'a PowInfo option"

definition set_pow_info ::
  "'a origin \<Rightarrow> 'a PowInfo \<Rightarrow> ('a, 'z) pow_store_scheme \<Rightarrow> unit result \<times> ('a, 'z) pow_store_scheme" where
  "set_pow_info origin info s =
     (case ensure_inherent origin of Inl e \<Rightarrow> (Err e, s)
      | Inr _ \<Rightarrow> (Ok (), s\<lparr>current_pow_info := Some info\<rparr>))"

definition pow_on_initialize :: "('a, 'z) pow_store_scheme \<Rightarrow> ('a, 'z) pow_store_scheme" where
  "pow_on_initialize s = s\<lparr>total_fee := 0\<rparr>"

definition on_fee_withdrawn :: "u128 \<Rightarrow> ('a, 'z) pow_store_scheme \<Rightarrow> ('a, 'z) pow_store_scheme" where
  "on_fee_withdrawn amount s = s\<lparr>total_fee := total_fee s + amount\<rparr>"

text \<open>
  \<open>check_inherent\<close>: the inherent data of the two modules is looked up by the
  caller, \<open>None\<close> standing for absent or undecodable data. The outer option is the
  panic of \<open>unwrap\<close> on a coinbase without a shard.
\<close>

definition pow_check_inherent ::
  "('a \<Rightarrow> u8 list) \<Rightarrow> 'a PowInfo option \<Rightarrow> ShardInfo option \<Rightarrow> unit result option" where
  "pow_check_inherent encode pow_data shard_data =
     (case pow_data of None \<Rightarrow> Some (Ok ())
      | Some d \<Rightarrow>
          if pi_reward_condition d \<noteq> Normal then Some (Err ''allow normal reward condition only'')
          else (case shard_data of None \<Rightarrow> Some (Ok ())
                | Some shard \<Rightarrow>
                    (case shard_num_for encode (pi_coinbase d) (si_count shard) of None \<Rightarrow> None
                     | Some shard_num \<Rightarrow>
                         if shard_num \<noteq> si_num shard then Some (Err ''shard and coinbase not match'')
                         else Some (Ok ()))))"

lemmas [store_defs] = pow_on_initialize_def on_fee_withdrawn_def

end
