(* ===== verification/Balances.thy ===== *)
theory Balances
  imports Pow_Store
begin

text \<open>
  The balances module \<open>srml/yee-balances/src/lib.rs\<close>: storage, the private mutators
  with the existential deposit, transfers within and across shards, withdrawal,
  slashing, deposits, reserves, locks, vesting and fee payment. An imbalance is the
  amount it carries; dropping it squares up the total issuance. The handlers the
  runtime configures for imbalances are \<open>()\<close>, which drops them. The hook for new
  accounts writes only to the storage of the indices module, which no operation
  here reads. \<open>None\<close> as the value of an operation is a panic.
\<close>

section \<open>Data and storage\<close>

datatype WithdrawReason = TransactionPayment | TransferReason | Reserve

datatype ExistenceRequirement = KeepAlive | AllowDeath

datatype UpdateBalanceOutcome = Updated | AccountKilled

datatype SignedImbalance = Positive u128 | Negative u128

record VestingSchedule =
  vs_offset :: u128
  vs_per_block :: u128

record BalanceLock =
  bl_id :: "u8 list"
  bl_amount :: u128
  bl_until :: u64
  bl_reasons :: "WithdrawReason set"

record 'a balances_store = "'a pow_store" +
  total_issuance :: u128
  existential_deposit :: u128
  transfer_fee :: u128
  creation_fee :: u128
  transaction_base_fee :: u128
  transaction_byte_fee :: u128
  vesting :: "'a \<rightharpoonup> VestingSchedule"
  free_balance_map :: "'a \<rightharpoonup> u128"
  reserved_balance_map :: "'a \<rightharpoonup> u128"
  locks_map :: "'a \<rightharpoonup> BalanceLock list"

definition free_balance :: "'a \<Rightarrow> ('a, 'z) balances_store_scheme \<Rightarrow> u128" where
  "free_balance who s = map_get 0 (free_balance_map s) who"

definition reserved_balance :: "'a \<Rightarrow> ('a, 'z) balances_store_scheme \<Rightarrow> u128" where
  "reserved_balance who s = map_get 0 (reserved_balance_map s) who"

definition locks :: "'a \<Rightarrow> ('a, 'z) balances_store_scheme \<Rightarrow> BalanceLock list" where
  "locks who s = map_get [] (locks_map s) who"

definition locked_at :: "VestingSchedule \<Rightarrow> u64 \<Rightarrow> u128" where
  "locked_at v n =
     (case checked_mul (ucast n) (vs_per_block v) of
        Some x \<Rightarrow> max (vs_offset v) x - x
      | None \<Rightarrow> 0)"

definition vesting_balance :: "'a \<Rightarrow> ('a, 'z) balances_store_scheme \<Rightarrow> u128" where
  "vesting_balance who s =
     (case vesting s who of
        Some v \<Rightarrow> min (free_balance who s) (locked_at v (block_number s))
      | None \<Rightarrow> 0)"

section \<open>Imbalances\<close>

definition drop_positive :: "u128 \<Rightarrow> ('a, 'z) balances_store_scheme \<Rightarrow> ('a, 'z) balances_store_scheme" where
  "drop_positive v s = s\<lparr>total_issuance := saturating_add (total_issuance s) v\<rparr>"

definition drop_negative :: "u128 \<Rightarrow> ('a, 'z) balances_store_scheme \<Rightarrow> ('a, 'z) balances_store_scheme" where
  "drop_negative v s = s\<lparr>total_issuance := saturating_sub (total_issuance s) v\<rparr>"

definition imbalance_drop_zero :: "u128 \<Rightarrow> unit + u128" where
  "imbalance_drop_zero v = (if v = 0 then Inl () else Inr v)"

definition imbalance_split :: "u128 \<Rightarrow> u128 \<Rightarrow> u128 \<times> u128" where
  "imbalance_split v amount = (let first = min v amount; second = v - first in (first, second))"

definition imbalance_merge :: "u128 \<Rightarrow> u128 \<Rightarrow> u128" where
  "imbalance_merge v other = saturating_add v other"

text \<open>\<open>offset\<close>: \<open>Inl\<close> an imbalance of the own sign, \<open>Inr\<close> one of the opposite sign.\<close>

definition imbalance_offset :: "u128 \<Rightarrow> u128 \<Rightarrow> u128 + u128" where
  "imbalance_offset a b = (if b \<le> a then Inl (a - b) else Inr (b - a))"

section \<open>Private mutators\<close>

definition new_account :: "'a \<Rightarrow> u128 \<Rightarrow> ('a, 'z) balances_store_scheme \<Rightarrow> ('a, 'z) balances_store_scheme" where
  "new_account who balance s = deposit_event (NewAccount who balance) s"

definition reap_account :: "'a \<Rightarrow> ('a, 'z) balances_store_scheme \<Rightarrow> ('a, 'z) balances_store_scheme" where
  "reap_account who s =
     deposit_event (ReapedAccount who) (s\<lparr>account_nonce := (account_nonce s)(who := None)\<rparr>)"

definition on_free_too_low :: "'a \<Rightarrow> ('a, 'z) balances_store_scheme \<Rightarrow> ('a, 'z) balances_store_scheme" where
  "on_free_too_low who s =
     (let dust = free_balance who s;
          s = s\<lparr>free_balance_map := (free_balance_map s)(who := None)\<rparr>;
          s = s\<lparr>locks_map := (locks_map s)(who := None)\<rparr>;
          s = (if dust \<noteq> 0 then drop_negative dust s else s)
      in if reserved_balance who s = 0 then reap_account who s else s)"

definition on_reserved_too_low :: "'a \<Rightarrow> ('a, 'z) balances_store_scheme \<Rightarrow> ('a, 'z) balances_store_scheme" where
  "on_reserved_too_low who s =
     (let dust = reserved_balance who s;
          s = s\<lparr>reserved_balance_map := (reserved_balance_map s)(who := None)\<rparr>;
          s = (if dust \<noteq> 0 then drop_negative dust s else s)
      in if free_balance who s = 0 then reap_account who s else s)"

definition set_reserved_balance ::
  "'a \<Rightarrow> u128 \<Rightarrow> ('a, 'z) balances_store_scheme \<Rightarrow> UpdateBalanceOutcome \<times> ('a, 'z) balances_store_scheme" where
  "set_reserved_balance who balance s =
     (let s1 = s\<lparr>reserved_balance_map := (reserved_balance_map s)(who \<mapsto> balance)\<rparr>
      in if balance < existential_deposit s
         then (AccountKilled, on_reserved_too_low who s1)
         else (Updated, s1))"

definition set_free_balance ::
  "'a \<Rightarrow> u128 \<Rightarrow> ('a, 'z) balances_store_scheme \<Rightarrow> UpdateBalanceOutcome \<times> ('a, 'z) balances_store_scheme" where
  "set_free_balance who balance s =
     (let s1 = s\<lparr>free_balance_map := (free_balance_map s)(who \<mapsto> balance)\<rparr>
      in if balance < existential_deposit s
         then (AccountKilled, on_free_too_low who s1)
         else (Updated, s1))"

abbreviation put_free :: "'a \<Rightarrow> u128 \<Rightarrow> ('a, 'z) balances_store_scheme \<Rightarrow> ('a, 'z) balances_store_scheme" where
  "put_free who balance s \<equiv> snd (set_free_balance who balance s)"

abbreviation put_reserved :: "'a \<Rightarrow> u128 \<Rightarrow> ('a, 'z) balances_store_scheme \<Rightarrow> ('a, 'z) balances_store_scheme" where
  "put_reserved who balance s \<equiv> snd (set_reserved_balance who balance s)"

section \<open>Currency\<close>

definition total_balance :: "'a \<Rightarrow> ('a, 'z) balances_store_scheme \<Rightarrow> u128" where
  "total_balance who s = free_balance who s + reserved_balance who s"

definition can_slash :: "'a \<Rightarrow> u128 \<Rightarrow> ('a, 'z) balances_store_scheme \<Rightarrow> bool" where
  "can_slash who value s \<longleftrightarrow> value \<le> free_balance who s"

definition minimum_balance :: "('a, 'z) balances_store_scheme \<Rightarrow> u128" where
  "minimum_balance s = existential_deposit s"

definition ensure_can_withdraw ::
  "'a \<Rightarrow> WithdrawReason \<Rightarrow> u128 \<Rightarrow> ('a, 'z) balances_store_scheme \<Rightarrow> unit result" where
  "ensure_can_withdraw who reason new_balance s =
     (if (reason = Reserve \<or> reason = TransferReason) \<and> new_balance < vesting_balance who s
      then Err ''vesting balance too high to send value''
      else if locks who s = [] then Ok ()
      else if list_all (\<lambda>l. bl_until l \<le> block_number s \<or> bl_amount l \<le> new_balance
                \<or> reason \<notin> bl_reasons l) (locks who s)
      then Ok ()
      else Err ''account liquidity restrictions prevent withdrawal'')"

definition transfer ::
  "('a \<Rightarrow> u8 list) \<Rightarrow> 'a \<Rightarrow> 'a \<Rightarrow> u128 \<Rightarrow> ('a, 'z) balances_store_scheme
     \<Rightarrow> (unit result \<times> ('a, 'z) balances_store_scheme) option" where
  "transfer encode transactor dest value s =
     (let from_balance = free_balance transactor s;
          fee = transfer_fee s
      in case checked_add value fee of
           None \<Rightarrow> Some (Err ''got overflow after adding a fee to value'', s)
         | Some liability \<Rightarrow>
      (case checked_sub from_balance liability of
           None \<Rightarrow> Some (Err ''balance too low to send value'', s)
         | Some new_from_balance \<Rightarrow>
      (case ensure_can_withdraw transactor TransferReason new_from_balance s of
           Inl e \<Rightarrow> Some (Err e, s)
         | Inr _ \<Rightarrow>
      (let to_balance = free_balance dest s
       in case get_curr_shard s of None \<Rightarrow> None | Some cn \<Rightarrow>
         (case get_shard_count s of None \<Rightarrow> None | Some c \<Rightarrow>
         (case shard_num_for encode dest c of None \<Rightarrow> None | Some dn \<Rightarrow>
          if cn \<noteq> dn
          then (let s = put_free transactor new_from_balance s;
                    s = drop_negative fee s;
                    s = on_fee_withdrawn fee s;
                    s = deposit_event (Transfer transactor dest value fee) s
                in Some (Ok (), s))
          else (case checked_add to_balance value of
                  None \<Rightarrow> Some (Err ''destination balance too high to receive value'', s)
                | Some new_to_balance \<Rightarrow>
                    if transactor \<noteq> dest
                    then (let s = put_free transactor new_from_balance s;
                              s = (if free_balance_map s dest = None then new_account dest new_to_balance s else s);
                              s = put_free dest new_to_balance s;
                              s = drop_negative fee s;
                              s = on_fee_withdrawn fee s;
                              s = deposit_event (Transfer transactor dest value fee) s
                          in Some (Ok (), s))
                    else Some (Ok (), s))))))))"

definition withdraw ::
  "'a \<Rightarrow> u128 \<Rightarrow> WithdrawReason \<Rightarrow> ExistenceRequirement \<Rightarrow> ('a, 'z) balances_store_scheme
     \<Rightarrow> u128 result \<times> ('a, 'z) balances_store_scheme" where
  "withdraw who value reason liveness s =
     (case checked_sub (free_balance who s) value of
        Some new_balance \<Rightarrow>
          if liveness = KeepAlive \<and> new_balance < existential_deposit s
          then (Err ''payment would kill account'', s)
          else (case ensure_can_withdraw who reason new_balance s of
                  Inl e \<Rightarrow> (Err e, s)
                | Inr _ \<Rightarrow> (Ok value, put_free who new_balance s))
      | None \<Rightarrow> (Err ''too few free funds in account'', s))"

text \<open>\<open>slash\<close> returns the imbalance, the part of the value that could not be slashed, and the state.\<close>

definition slash ::
  "'a \<Rightarrow> u128 \<Rightarrow> ('a, 'z) balances_store_scheme \<Rightarrow> (u128 \<times> u128) \<times> ('a, 'z) balances_store_scheme" where
  "slash who value s =
     (let free = free_balance who s;
          free_slash = min free value;
          s = put_free who (free - free_slash) s;
          remaining_slash = value - free_slash
      in if remaining_slash \<noteq> 0
         then (let reserved = reserved_balance who s;
                   reserved_slash = min reserved remaining_slash;
                   s = put_reserved who (reserved - reserved_slash) s
               in ((free_slash + reserved_slash, remaining_slash - reserved_slash), s))
         else ((value, 0), s))"

definition deposit_into_existing ::
  "'a \<Rightarrow> u128 \<Rightarrow> ('a, 'z) balances_store_scheme \<Rightarrow> u128 result \<times> ('a, 'z) balances_store_scheme" where
  "deposit_into_existing who value s =
     (if total_balance who s = 0 then (Err ''beneficiary account must pre-exist'', s)
      else (Ok value, put_free who (free_balance who s + value) s))"

definition make_free_balance_be ::
  "'a \<Rightarrow> u128 \<Rightarrow> ('a, 'z) balances_store_scheme
     \<Rightarrow> (SignedImbalance \<times> UpdateBalanceOutcome) \<times> ('a, 'z) balances_store_scheme" where
  "make_free_balance_be who balance s =
     (let original = free_balance who s
      in if balance < existential_deposit s \<and> original = 0
         then ((Positive 0, AccountKilled), s)
         else (let imbalance = (if original \<le> balance then Positive (balance - original)
                                else Negative (original - balance))
               in if balance < existential_deposit s
                  then ((imbalance, AccountKilled), put_free who balance s)
                  else ((imbalance, Updated),
                        put_free who balance
                          (if free_balance_map s who = None then new_account who balance s else s))))"

text \<open>
  A negative imbalance, possible only when the deposit wraps around, is dropped at
  the end of \<open>deposit_creating\<close>.
\<close>

definition deposit_creating ::
  "'a \<Rightarrow> u128 \<Rightarrow> ('a, 'z) balances_store_scheme \<Rightarrow> u128 \<times> ('a, 'z) balances_store_scheme" where
  "deposit_creating who value s =
     (case make_free_balance_be who (free_balance who s + value) s of
        ((Positive p, _), s) \<Rightarrow> (p, s)
      | ((Negative n, _), s) \<Rightarrow> (0, drop_negative n s))"

section \<open>Reserves\<close>

definition can_reserve :: "'a \<Rightarrow> u128 \<Rightarrow> ('a, 'z) balances_store_scheme \<Rightarrow> bool" where
  "can_reserve who value s =
     (case checked_sub (free_balance who s) value of
        None \<Rightarrow> False
      | Some new_balance \<Rightarrow> is_ok (ensure_can_withdraw who Reserve new_balance s))"

definition reserve ::
  "'a \<Rightarrow> u128 \<Rightarrow> ('a, 'z) balances_store_scheme \<Rightarrow> unit result \<times> ('a, 'z) balances_store_scheme" where
  "reserve who value s =
     (let b = free_balance who s
      in if b < value then (Err ''not enough free funds'', s)
         else (let new_balance = b - value
               in case ensure_can_withdraw who Reserve new_balance s of
                    Inl e \<Rightarrow> (Err e, s)
                  | Inr _ \<Rightarrow>
                      (let s = put_reserved who (reserved_balance who s + value) s;
                           s = put_free who new_balance s
                       in (Ok (), s))))"

definition unreserve ::
  "'a \<Rightarrow> u128 \<Rightarrow> ('a, 'z) balances_store_scheme \<Rightarrow> u128 \<times> ('a, 'z) balances_store_scheme" where
  "unreserve who value s =
     (let b = reserved_balance who s;
          actual = min b value;
          s = put_free who (free_balance who s + actual) s;
          s = put_reserved who (b - actual) s
      in (value - actual, s))"

definition slash_reserved ::
  "'a \<Rightarrow> u128 \<Rightarrow> ('a, 'z) balances_store_scheme \<Rightarrow> (u128 \<times> u128) \<times> ('a, 'z) balances_store_scheme" where
  "slash_reserved who value s =
     (let b = reserved_balance who s;
          slash = min b value
      in ((slash, value - slash), put_reserved who (b - slash) s))"

definition repatriate_reserved ::
  "'a \<Rightarrow> 'a \<Rightarrow> u128 \<Rightarrow> ('a, 'z) balances_store_scheme \<Rightarrow> u128 result \<times> ('a, 'z) balances_store_scheme" where
  "repatriate_reserved slashed beneficiary value s =
     (if total_balance beneficiary s = 0 then (Err ''beneficiary account must pre-exist'', s)
      else (let b = reserved_balance slashed s;
                slash = min b value;
                s = put_free beneficiary (free_balance beneficiary s + slash) s;
                s = put_reserved slashed (b - slash) s
            in (Ok (value - slash), s)))"

section \<open>Locks\<close>

text \<open>
  The \<open>filter_map\<close> of \<open>set_lock\<close> with its captured \<open>new_lock.take()\<close>: the first lock with
  the id is replaced by \<open>upd\<close> of it, later ones with the id and expired ones go; the
  flag returned says whether the new lock is still to be pushed.
\<close>

fun lock_pass :: "u64 \<Rightarrow> u8 list \<Rightarrow> (BalanceLock \<Rightarrow> BalanceLock) \<Rightarrow> bool \<Rightarrow> BalanceLock list \<Rightarrow> BalanceLock list \<times> bool" where
  "lock_pass now id' upd pending [] = ([], pending)"
| "lock_pass now id' upd pending (l # ls) =
     (if bl_id l = id'
      then (let (ls', p) = lock_pass now id' upd False ls
            in (if pending then (upd l # ls', p) else (ls', p)))
      else (let (ls', p) = lock_pass now id' upd pending ls
            in (if now < bl_until l then (l # ls', p) else (ls', p))))"

definition set_lock ::
  "u8 list \<Rightarrow> 'a \<Rightarrow> u128 \<Rightarrow> u64 \<Rightarrow> WithdrawReason set \<Rightarrow> ('a, 'z) balances_store_scheme
     \<Rightarrow> ('a, 'z) balances_store_scheme" where
  "set_lock id' who amount until' reasons s =
     (let new_lock = \<lparr>bl_id = id', bl_amount = amount, bl_until = until', bl_reasons = reasons\<rparr>;
          passed = lock_pass (block_number s) id' (\<lambda>_. new_lock) True (locks who s);
          ls = (if snd passed then fst passed @ [new_lock] else fst passed)
      in s\<lparr>locks_map := (locks_map s)(who \<mapsto> ls)\<rparr>)"

definition extend_lock ::
  "u8 list \<Rightarrow> 'a \<Rightarrow> u128 \<Rightarrow> u64 \<Rightarrow> WithdrawReason set \<Rightarrow> ('a, 'z) balances_store_scheme
     \<Rightarrow> ('a, 'z) balances_store_scheme" where
  "extend_lock id' who amount until' reasons s =
     (let new_lock = \<lparr>bl_id = id', bl_amount = amount, bl_until = until', bl_reasons = reasons\<rparr>;
          passed = lock_pass (block_number s) id'
             (\<lambda>l. \<lparr>bl_id = bl_id l, bl_amount = max (bl_amount l) amount, bl_until = max (bl_until l) until',
                   bl_reasons = bl_reasons l \<union> reasons\<rparr>) True (locks who s);
          ls = (if snd passed then fst passed @ [new_lock] else fst passed)
      in s\<lparr>locks_map := (locks_map s)(who \<mapsto> ls)\<rparr>)"

definition remove_lock :: "u8 list \<Rightarrow> 'a \<Rightarrow> ('a, 'z) balances_store_scheme \<Rightarrow> ('a, 'z) balances_store_scheme" where
  "remove_lock id' who s =
     s\<lparr>locks_map := (locks_map s)(who \<mapsto> filter (\<lambda>l. block_number s < bl_until l \<and> bl_id l \<noteq> id') (locks who s))\<rparr>"

section \<open>Fees, dispatch, relays, genesis\<close>

definition make_payment :: "'a \<Rightarrow> u64 \<Rightarrow> ('a, 'z) balances_store_scheme \<Rightarrow> unit result \<times> ('a, 'z) balances_store_scheme" where
  "make_payment transactor encoded_len s =
     (let transaction_fee = transaction_base_fee s + transaction_byte_fee s * ucast encoded_len
      in case withdraw transactor transaction_fee TransactionPayment KeepAlive s of
           (Inl e, s) \<Rightarrow> (Err e, s)
         | (Inr imbalance, s) \<Rightarrow> (Ok (), on_fee_withdrawn transaction_fee (drop_negative imbalance s)))"

definition is_dead_account :: "'a \<Rightarrow> ('a, 'z) balances_store_scheme \<Rightarrow> bool" where
  "is_dead_account who s \<longleftrightarrow> total_balance who s = 0"

text \<open>\<open>lookup\<close> is the address lookup of the indices module.\<close>

definition transfer_call ::
  "('a \<Rightarrow> u8 list) \<Rightarrow> ('addr \<Rightarrow> 'a result) \<Rightarrow> 'a origin \<Rightarrow> 'addr \<Rightarrow> u128 \<Rightarrow> ('a, 'z) balances_store_scheme
     \<Rightarrow> (unit result \<times> ('a, 'z) balances_store_scheme) option" where
  "transfer_call encode lookup origin dest value s =
     (case ensure_signed origin of Inl e \<Rightarrow> Some (Err e, s)
      | Inr transactor \<Rightarrow> (case lookup dest of Inl e \<Rightarrow> Some (Err e, s)
        | Inr dest \<Rightarrow> transfer encode transactor dest value s))"

text \<open>A call declared without an origin argument is dispatched for the root origin only.\<close>

definition set_balance_call ::
  "('addr \<Rightarrow> 'a result) \<Rightarrow> 'a origin \<Rightarrow> 'addr \<Rightarrow> u128 \<Rightarrow> u128 \<Rightarrow> ('a, 'z) balances_store_scheme
     \<Rightarrow> unit result \<times> ('a, 'z) balances_store_scheme" where
  "set_balance_call lookup origin who free reserved s =
     (case ensure_root origin of Inl e \<Rightarrow> (Err e, s)
      | Inr _ \<Rightarrow> (case lookup who of Inl e \<Rightarrow> (Err e, s)
        | Inr who \<Rightarrow> (Ok (), put_reserved who reserved (put_free who free s))))"

text \<open>
  \<open>relay_transfer\<close>: \<open>decode_origin\<close> decodes the originating transfer to its sender,
  receiver and amount; \<open>unwrap\<close> of a failed decoding panics.
\<close>

definition relay_transfer ::
  "(u8 list \<Rightarrow> ('a \<times> 'a \<times> u128) option) \<Rightarrow> u8 list \<Rightarrow> ('a, 'z) balances_store_scheme
     \<Rightarrow> (unit result \<times> ('a, 'z) balances_store_scheme) option" where
  "relay_transfer decode_origin bytes s =
     (case decode_origin bytes of None \<Rightarrow> None
      | Some (from', to', amount) \<Rightarrow>
          (let s = (if free_balance_map s to' = None then new_account to' amount s else s)
           in case checked_add (free_balance to' s) amount of
                None \<Rightarrow> Some (Err ''destination balance too high to receive value'', s)
              | Some to_balance \<Rightarrow>
                  Some (Ok (), deposit_event (Transfer from' to' to_balance 0) (put_free to' to_balance s))))"

text \<open>The values the genesis configuration gives the storage.\<close>

definition genesis_total_issuance :: "('a \<times> u128) list \<Rightarrow> u128" where
  "genesis_total_issuance balances = foldl (\<lambda>acc (_, n). acc + n) 0 balances"

definition genesis_free_balance :: "('a \<times> u128) list \<Rightarrow> 'a \<rightharpoonup> u128" where
  "genesis_free_balance balances = foldl (\<lambda>m (who, n). m(who \<mapsto> n)) Map.empty balances"

definition genesis_vesting_schedule :: "u64 \<Rightarrow> u64 \<Rightarrow> u128 \<Rightarrow> VestingSchedule" where
  "genesis_vesting_schedule begin' length' balance =
     (let per_block = balance div max (ucast length') 1;
          offset = ucast begin' * per_block + balance
      in \<lparr>vs_offset = offset, vs_per_block = per_block\<rparr>)"

definition genesis_vesting :: "('a \<times> u128) list \<Rightarrow> ('a \<times> u64 \<times> u64) list \<Rightarrow> ('a \<times> VestingSchedule) list" where
  "genesis_vesting balances vesting_config =
     List.map_filter (\<lambda>(who, begin', length').
       map_option (\<lambda>(_, balance). (who, genesis_vesting_schedule begin' length' balance))
         (find (\<lambda>(w, _). w = who) balances)) vesting_config"

end
