(* ===== verification/Balances_Laws.thy ===== *)
theory Balances_Laws
  imports Balances
begin

text \<open>
  What the private mutators of the balances module do to each field of the storage,
  and the accounting: \<open>held\<close> is the sum of all free and reserved balances, \<open>slack\<close> the
  amount by which the total issuance exceeds it. Every operation changes the slack
  by a known amount as long as no subtraction from the issuance saturates, and a
  saturating one only leaves the issuance too high.
\<close>

section \<open>The mutators, field by field\<close>

named_theorems balance_defs \<open>definitions of the private mutators\<close>

lemmas [balance_defs] = free_balance_def reserved_balance_def locks_def drop_positive_def drop_negative_def
  new_account_def reap_account_def on_free_too_low_def on_reserved_too_low_def set_reserved_balance_def
  set_free_balance_def

lemma saturating_sub_0 [simp]: "saturating_sub a 0 = a"
  by (simp add: saturating_sub_def)

lemma put_free_map [simp]:
  "free_balance_map (put_free who b s) =
     (free_balance_map s)(who := (if b < existential_deposit s then None else Some b))"
  by (simp add: balance_defs store_defs Let_def)

lemma put_free_reserved_map [simp]: "reserved_balance_map (put_free who b s) = reserved_balance_map s"
  by (simp add: balance_defs store_defs Let_def)

lemma put_free_issuance [simp]:
  "total_issuance (put_free who b s) =
     (if b < existential_deposit s then saturating_sub (total_issuance s) b else total_issuance s)"
  by (simp add: balance_defs store_defs Let_def)

lemma put_free_config [simp]:
  "existential_deposit (put_free who b s) = existential_deposit s"
  "transfer_fee (put_free who b s) = transfer_fee s"
  "creation_fee (put_free who b s) = creation_fee s"
  "transaction_base_fee (put_free who b s) = transaction_base_fee s"
  "transaction_byte_fee (put_free who b s) = transaction_byte_fee s"
  "vesting (put_free who b s) = vesting s"
  "block_number (put_free who b s) = block_number s"
  "current_shard_info (put_free who b s) = current_shard_info s"
  "total_fee (put_free who b s) = total_fee s"
  by (simp_all add: balance_defs store_defs Let_def)

lemma put_free_locks_map [simp]:
  "locks_map (put_free who b s) =
     (if b < existential_deposit s then (locks_map s)(who := None) else locks_map s)"
  by (simp add: balance_defs store_defs Let_def)

lemma put_reserved_map [simp]:
  "reserved_balance_map (put_reserved who b s) =
     (reserved_balance_map s)(who := (if b < existential_deposit s then None else Some b))"
  by (simp add: balance_defs store_defs Let_def)

lemma put_reserved_free_map [simp]: "free_balance_map (put_reserved who b s) = free_balance_map s"
  by (simp add: balance_defs store_defs Let_def)

lemma put_reserved_issuance [simp]:
  "total_issuance (put_reserved who b s) =
     (if b < existential_deposit s then saturating_sub (total_issuance s) b else total_issuance s)"
  by (simp add: balance_defs store_defs Let_def)

lemma put_reserved_config [simp]:
  "existential_deposit (put_reserved who b s) = existential_deposit s"
  "transfer_fee (put_reserved who b s) = transfer_fee s"
  "vesting (put_reserved who b s) = vesting s"
  "block_number (put_reserved who b s) = block_number s"
  "current_shard_info (put_reserved who b s) = current_shard_info s"
  "total_fee (put_reserved who b s) = total_fee s"
  "locks_map (put_reserved who b s) = locks_map s"
  by (simp_all add: balance_defs store_defs Let_def)

lemma put_free_free [simp]:
  "free_balance x (put_free who b s) =
     (if x = who then if b < existential_deposit s then 0 else b else free_balance x s)"
  by (simp add: free_balance_def map_get_def)

lemma put_free_reserved [simp]: "reserved_balance x (put_free who b s) = reserved_balance x s"
  by (simp add: reserved_balance_def)

lemma put_reserved_free [simp]: "free_balance x (put_reserved who b s) = free_balance x s"
  by (simp add: free_balance_def)

lemma put_reserved_reserved [simp]:
  "reserved_balance x (put_reserved who b s) =
     (if x = who then if b < existential_deposit s then 0 else b else reserved_balance x s)"
  by (simp add: reserved_balance_def map_get_def)

text \<open>Operations that leave the balances alone.\<close>

lemma frame_balances [simp]:
  "free_balance_map (deposit_event e s) = free_balance_map s"
  "reserved_balance_map (deposit_event e s) = reserved_balance_map s"
  "total_issuance (deposit_event e s) = total_issuance s"
  "existential_deposit (deposit_event e s) = existential_deposit s"
  "free_balance_map (new_account a b s) = free_balance_map s"
  "reserved_balance_map (new_account a b s) = reserved_balance_map s"
  "total_issuance (new_account a b s) = total_issuance s"
  "existential_deposit (new_account a b s) = existential_deposit s"
  "free_balance_map (drop_negative v s) = free_balance_map s"
  "reserved_balance_map (drop_negative v s) = reserved_balance_map s"
  "existential_deposit (drop_negative v s) = existential_deposit s"
  "free_balance_map (drop_positive v s) = free_balance_map s"
  "reserved_balance_map (drop_positive v s) = reserved_balance_map s"
  "existential_deposit (drop_positive v s) = existential_deposit s"
  "free_balance_map (on_fee_withdrawn v s) = free_balance_map s"
  "reserved_balance_map (on_fee_withdrawn v s) = reserved_balance_map s"
  "total_issuance (on_fee_withdrawn v s) = total_issuance s"
  "existential_deposit (on_fee_withdrawn v s) = existential_deposit s"
  by (simp_all add: balance_defs store_defs)

lemma frame_balance_reads [simp]:
  "free_balance x (deposit_event e s) = free_balance x s"
  "free_balance x (new_account a b s) = free_balance x s"
  "free_balance x (drop_negative v s) = free_balance x s"
  "free_balance x (drop_positive v s) = free_balance x s"
  "free_balance x (on_fee_withdrawn v s) = free_balance x s"
  "reserved_balance x (deposit_event e s) = reserved_balance x s"
  "reserved_balance x (new_account a b s) = reserved_balance x s"
  "reserved_balance x (drop_negative v s) = reserved_balance x s"
  "reserved_balance x (drop_positive v s) = reserved_balance x s"
  "reserved_balance x (on_fee_withdrawn v s) = reserved_balance x s"
  by (simp_all add: free_balance_def reserved_balance_def)

section \<open>Accounting\<close>

declare of_nat_unat [simp del]

definition balances_fin :: "('a, 'z) balances_store_scheme \<Rightarrow> bool" where
  "balances_fin s \<longleftrightarrow> finite (dom (free_balance_map s)) \<and> finite (dom (reserved_balance_map s))"

definition held :: "('a, 'z) balances_store_scheme \<Rightarrow> nat" where
  "held s = msum (free_balance_map s) + msum (reserved_balance_map s)"

definition slack :: "('a, 'z) balances_store_scheme \<Rightarrow> int" where
  "slack s = int (unat (total_issuance s)) - int (held s)"

lemma balances_fin_put [simp]:
  "balances_fin s \<Longrightarrow> balances_fin (put_free who b s)"
  "balances_fin s \<Longrightarrow> balances_fin (put_reserved who b s)"
  by (simp_all add: balances_fin_def)

lemma balances_fin_frame [simp]:
  "balances_fin (deposit_event e s) = balances_fin s"
  "balances_fin (new_account a b s) = balances_fin s"
  "balances_fin (drop_negative v s) = balances_fin s"
  "balances_fin (drop_positive v s) = balances_fin s"
  "balances_fin (on_fee_withdrawn v s) = balances_fin s"
  by (simp_all add: balances_fin_def)

lemma slack_frame [simp]:
  "slack (deposit_event e s) = slack s"
  "slack (new_account a b s) = slack s"
  "slack (on_fee_withdrawn v s) = slack s"
  by (simp_all add: slack_def held_def)

lemma held_put_free:
  assumes "balances_fin s"
  shows "held (put_free who b s) + unat (free_balance who s) + (if b < existential_deposit s then unat b else 0)
    = held s + unat b"
  using assms msum_update [of "free_balance_map s" who b] msum_remove [of "free_balance_map s" who]
  by (auto simp: held_def balances_fin_def free_balance_def)

lemma held_put_reserved:
  assumes "balances_fin s"
  shows "held (put_reserved who b s) + unat (reserved_balance who s) + (if b < existential_deposit s then unat b else 0)
    = held s + unat b"
  using assms msum_update [of "reserved_balance_map s" who b] msum_remove [of "reserved_balance_map s" who]
  by (auto simp: held_def balances_fin_def reserved_balance_def)

lemma free_le_held: "balances_fin s \<Longrightarrow> unat (free_balance who s) \<le> held s"
  using msum_ge [of "free_balance_map s" who] by (simp add: held_def balances_fin_def free_balance_def)

lemma reserved_le_held: "balances_fin s \<Longrightarrow> unat (reserved_balance who s) \<le> held s"
  using msum_ge [of "reserved_balance_map s" who] by (simp add: held_def balances_fin_def reserved_balance_def)

lemma slack_put_free_ge:
  "balances_fin s \<Longrightarrow>
    slack s + int (unat (free_balance who s)) - int (unat b) \<le> slack (put_free who b s)"
  using held_put_free [of s who b] by (auto simp: slack_def unat_saturating_sub split: if_splits)

lemma slack_put_reserved_ge:
  "balances_fin s \<Longrightarrow>
    slack s + int (unat (reserved_balance who s)) - int (unat b) \<le> slack (put_reserved who b s)"
  using held_put_reserved [of s who b] by (auto simp: slack_def unat_saturating_sub split: if_splits)

lemma slack_put_free:
  "balances_fin s \<Longrightarrow> existential_deposit s \<le> b \<or> b \<le> total_issuance s \<Longrightarrow>
    slack (put_free who b s) = slack s + int (unat (free_balance who s)) - int (unat b)"
  using held_put_free [of s who b]
  by (auto simp: slack_def unat_saturating_sub word_le_nat_alt word_less_nat_alt split: if_splits)

lemma slack_put_reserved:
  "balances_fin s \<Longrightarrow> existential_deposit s \<le> b \<or> b \<le> total_issuance s \<Longrightarrow>
    slack (put_reserved who b s) = slack s + int (unat (reserved_balance who s)) - int (unat b)"
  using held_put_reserved [of s who b]
  by (auto simp: slack_def unat_saturating_sub word_le_nat_alt word_less_nat_alt split: if_splits)

lemma slack_drop_negative_ge: "slack s - int (unat v) \<le> slack (drop_negative v s)"
  by (simp add: slack_def held_def drop_negative_def unat_saturating_sub)

lemma slack_drop_negative: "v \<le> total_issuance s \<Longrightarrow> slack (drop_negative v s) = slack s - int (unat v)"
  by (simp add: slack_def held_def drop_negative_def unat_saturating_sub word_le_nat_alt)

lemma slack_drop_positive:
  "unat (total_issuance s) + unat v < 2 ^ 128 \<Longrightarrow> slack (drop_positive v s) = slack s + int (unat v)"
  by (simp add: slack_def held_def drop_positive_def unat_saturating_add)

lemma slack_covers:
  "balances_fin s \<Longrightarrow> int (unat v) \<le> slack s + int (unat (free_balance who s)) \<Longrightarrow> v \<le> total_issuance s"
  using free_le_held [of s who] by (simp add: slack_def word_le_nat_alt)

end
