(* ===== verification/Balances_Accounts.thy ===== *)
theory Balances_Accounts
  imports Balances_Laws
begin

text \<open>
  The accounting of the operations of the balances module. An operation that
  returns a negative imbalance leaves the issuance too high by exactly that amount
  until the imbalance is dropped, one that returns a positive imbalance leaves it
  too low; transfers within a shard, reserves and fee payments keep the difference
  between issuance and holdings; a transfer to another shard raises it by the value
  sent, and the relay of that transfer lowers it there by the same value.
\<close>

section \<open>Transfers\<close>

text \<open>The destination of a transfer lives in another shard than the current one.\<close>

definition crosses :: "('a \<Rightarrow> u8 list) \<Rightarrow> 'a \<Rightarrow> ('a, 'z) sharding_store_scheme \<Rightarrow> bool" where
  "crosses encode dest s \<longleftrightarrow>
     (case current_shard_info s of None \<Rightarrow> False
      | Some info \<Rightarrow> (case shard_num_for encode dest (si_count info) of None \<Rightarrow> False
        | Some dn \<Rightarrow> si_num info \<noteq> dn))"

text \<open>The last steps of a transfer.\<close>

abbreviation charge :: "'a \<Rightarrow> 'a \<Rightarrow> u128 \<Rightarrow> u128 \<Rightarrow> ('a, 'z) balances_store_scheme \<Rightarrow> ('a, 'z) balances_store_scheme" where
  "charge a b v fee s \<equiv> deposit_event (Transfer a b v fee) (on_fee_withdrawn fee (drop_negative fee s))"

abbreviation ensure_account :: "'a \<Rightarrow> u128 \<Rightarrow> ('a, 'z) balances_store_scheme \<Rightarrow> ('a, 'z) balances_store_scheme" where
  "ensure_account a v s \<equiv> (if free_balance_map s a = None then new_account a v s else s)"

lemma transfer_OkE:
  assumes "transfer encode a b v s = Some (Ok (), s')"
  obtains nf where "checked_add v (transfer_fee s) = Some (v + transfer_fee s)"
    and "v + transfer_fee s \<le> free_balance a s" and "nf = free_balance a s - (v + transfer_fee s)"
    and "ensure_can_withdraw a TransferReason nf s = Ok ()"
    and "(crosses encode b s \<and> s' = charge a b v (transfer_fee s) (put_free a nf s))
      \<or> (\<not> crosses encode b s \<and> a = b \<and> s' = s)
      \<or> (\<not> crosses encode b s \<and> a \<noteq> b \<and> checked_add (free_balance b s) v = Some (free_balance b s + v)
          \<and> s' = charge a b v (transfer_fee s) (put_free b (free_balance b s + v)
                (ensure_account b (free_balance b s + v) (put_free a nf s))))"
  using assms
  by (auto simp: transfer_def Let_def get_curr_shard_def get_shard_count_def crosses_def
      checked_add_Some checked_sub_Some split: option.splits sum.splits if_splits)

lemma transfer_Err: "transfer encode a b v s = Some (Err e, s') \<Longrightarrow> s' = s"
  by (auto simp: transfer_def Let_def split: option.splits sum.splits if_splits)

lemma unat_checked: "checked_add a b = Some (a + b) \<Longrightarrow> unat (a + b) = unat a + unat (b :: 'w::len word)"
  by (simp add: checked_add_unat)

lemma slack_put_free_le:
  assumes "balances_fin s" and "int (unat b) \<le> slack s + int (unat (free_balance who s))"
  shows "slack (put_free who b s) = slack s + int (unat (free_balance who s)) - int (unat b)"
  using slack_put_free [OF assms(1)] slack_covers [OF assms] by blast

lemma slack_drop_negative_le:
  assumes "balances_fin s" and "int (unat v) \<le> slack s"
  shows "slack (drop_negative v s) = slack s - int (unat v)"
  using slack_drop_negative slack_covers [OF assms(1), of v] assms(2) by force

lemma free_balance_ensure [simp]: "free_balance x (ensure_account a v s) = free_balance x s"
  by (simp add: free_balance_def)

lemma balances_fin_ensure [simp]: "balances_fin (ensure_account a v s) = balances_fin s"
  by simp

lemma slack_ensure [simp]: "slack (ensure_account a v s) = slack s"
  by simp

lemma slack_debit:
  assumes fin: "balances_fin s" and pos: "0 \<le> slack s"
    and ov: "checked_add v f = Some (v + f)" and le: "v + f \<le> free_balance a s"
  shows "slack (put_free a (free_balance a s - (v + f)) s) = slack s + int (unat v) + int (unat f)"
proof -
  have u: "unat (free_balance a s - (v + f)) + (unat v + unat f) = unat (free_balance a s)"
    using le unat_checked [OF ov] by (simp add: word_le_nat_alt)
  then show ?thesis using slack_put_free_le [OF fin, of "free_balance a s - (v + f)" a] pos by simp
qed

lemma transfer_slack:
  assumes fin: "balances_fin s" and pos: "0 \<le> slack s"
    and t: "transfer encode a b v s = Some (Ok (), s')"
  shows "slack s' = slack s + (if crosses encode b s then int (unat v) else 0)" and "balances_fin s'"
proof -
  obtain nf where ov: "checked_add v (transfer_fee s) = Some (v + transfer_fee s)"
    and le: "v + transfer_fee s \<le> free_balance a s" and nf: "nf = free_balance a s - (v + transfer_fee s)"
    and cases: "(crosses encode b s \<and> s' = charge a b v (transfer_fee s) (put_free a nf s))
      \<or> (\<not> crosses encode b s \<and> a = b \<and> s' = s)
      \<or> (\<not> crosses encode b s \<and> a \<noteq> b \<and> checked_add (free_balance b s) v = Some (free_balance b s + v)
          \<and> s' = charge a b v (transfer_fee s) (put_free b (free_balance b s + v)
                (ensure_account b (free_balance b s + v) (put_free a nf s))))"
    by (rule transfer_OkE [OF t])
  let ?s1 = "put_free a nf s" and ?nt = "free_balance b s + v"
  have s1: "slack ?s1 = slack s + int (unat v) + int (unat (transfer_fee s))"
    using slack_debit [OF fin pos ov le] by (simp add: nf)
  have fin1: "balances_fin ?s1" using fin by simp
  have "slack s' = slack s + (if crosses encode b s then int (unat v) else 0) \<and> balances_fin s'"
    using cases
  proof (elim disjE conjE)
    assume "crosses encode b s" "s' = charge a b v (transfer_fee s) ?s1"
    then show ?thesis using slack_drop_negative_le [OF fin1] s1 pos fin1 by simp
  next
    assume c: "\<not> crosses encode b s" "a \<noteq> b" and nt: "checked_add (free_balance b s) v = Some ?nt"
      and s': "s' = charge a b v (transfer_fee s) (put_free b ?nt (ensure_account b ?nt ?s1))"
    let ?s2 = "put_free b ?nt (ensure_account b ?nt ?s1)"
    have fb: "free_balance b (ensure_account b ?nt ?s1) = free_balance b s" using c by simp
    have "slack ?s2 = slack (ensure_account b ?nt ?s1) + int (unat (free_balance b s)) - int (unat ?nt)"
      using slack_put_free_le [of "ensure_account b ?nt ?s1" ?nt b] fin1 s1 pos
      unfolding fb by (simp add: unat_checked [OF nt])
    then have s2: "slack ?s2 = slack s + int (unat (transfer_fee s))"
      using s1 by (simp add: unat_checked [OF nt])
    have "balances_fin ?s2" using fin1 by simp
    with s2 show ?thesis using slack_drop_negative_le [of ?s2 "transfer_fee s"] pos c s' by simp
  qed (use fin in auto)
  then show "slack s' = slack s + (if crosses encode b s then int (unat v) else 0)" and "balances_fin s'"
    by simp_all
qed

section \<open>Operations with imbalances\<close>

lemma withdraw_OkE:
  assumes "withdraw who v reason liveness s = (Ok n, s')"
  obtains "n = v" and "v \<le> free_balance who s"
    and "liveness = KeepAlive \<Longrightarrow> existential_deposit s \<le> free_balance who s - v"
    and "ensure_can_withdraw who reason (free_balance who s - v) s = Ok ()"
    and "s' = put_free who (free_balance who s - v) s"
  using assms
  by (auto simp: withdraw_def checked_sub_Some not_less split: option.splits sum.splits if_splits)

lemma withdraw_Err: "withdraw who v reason liveness s = (Err e, s') \<Longrightarrow> s' = s"
  by (auto simp: withdraw_def split: option.splits sum.splits if_splits)

lemma withdraw_slack:
  assumes fin: "balances_fin s" and pos: "0 \<le> slack s"
    and w: "withdraw who v reason liveness s = (Ok n, s')"
  shows "slack s' = slack s + int (unat n)" and "balances_fin s'"
proof -
  have le: "v \<le> free_balance who s" and n: "n = v" and s': "s' = put_free who (free_balance who s - v) s"
    using w by (auto elim: withdraw_OkE)
  show "balances_fin s'" using fin s' by simp
  have u: "unat (free_balance who s - v) + unat v = unat (free_balance who s)"
    using le by (simp add: word_le_nat_alt)
  then show "slack s' = slack s + int (unat n)"
    using slack_put_free_le [OF fin, of "free_balance who s - v" who] pos n s' by simp
qed

lemma make_payment_OkE:
  assumes "make_payment who len s = (Ok (), s')"
  obtains s1 where "withdraw who (transaction_base_fee s + transaction_byte_fee s * ucast len)
        TransactionPayment KeepAlive s = (Ok (transaction_base_fee s + transaction_byte_fee s * ucast len), s1)"
    and "s' = on_fee_withdrawn (transaction_base_fee s + transaction_byte_fee s * ucast len)
        (drop_negative (transaction_base_fee s + transaction_byte_fee s * ucast len) s1)"
proof -
  let ?fee = "transaction_base_fee s + transaction_byte_fee s * ucast len"
  obtain r s1 where w: "withdraw who ?fee TransactionPayment KeepAlive s = (r, s1)" by fastforce
  show ?thesis
  proof (cases r)
    case (Inl e)
    then show ?thesis using assms w by (simp add: make_payment_def Let_def)
  next
    case (Inr n)
    then have "n = ?fee" using w by (auto elim: withdraw_OkE)
    then show ?thesis using assms w Inr that by (simp add: make_payment_def Let_def)
  qed
qed

lemma make_payment_Err: "make_payment who len s = (Err e, s') \<Longrightarrow> s' = s"
  by (auto simp: make_payment_def Let_def dest: withdraw_Err split: prod.splits sum.splits)

lemma make_payment_slack:
  assumes fin: "balances_fin s" and pos: "0 \<le> slack s" and p: "make_payment who len s = (Ok (), s')"
  shows "slack s' = slack s" and "balances_fin s'"
proof -
  let ?fee = "transaction_base_fee s + transaction_byte_fee s * ucast len"
  obtain s1 where w: "withdraw who ?fee TransactionPayment KeepAlive s = (Ok ?fee, s1)"
    and s': "s' = on_fee_withdrawn ?fee (drop_negative ?fee s1)"
    using p by (rule make_payment_OkE)
  have f1: "balances_fin s1" and sl: "slack s1 = slack s + int (unat ?fee)"
    using withdraw_slack [OF fin pos w] by auto
  show "balances_fin s'" using f1 s' by simp
  show "slack s' = slack s"
    using slack_drop_negative_le [OF f1, of ?fee] sl pos s' by simp
qed

lemma min_sub_unat: "unat (a - min a b) + unat (min a b) = unat (a :: 'w::len word)"
proof -
  have "unat (min a b) \<le> unat a" by (simp flip: word_le_nat_alt)
  then show ?thesis by simp
qed

lemma slack_put_reserved_le:
  assumes "balances_fin s" and "int (unat b) \<le> slack s + int (unat (reserved_balance who s))"
  shows "slack (put_reserved who b s) = slack s + int (unat (reserved_balance who s)) - int (unat b)"
proof -
  have "b \<le> total_issuance s"
    using assms reserved_le_held [of s who] by (simp add: slack_def word_le_nat_alt)
  then show ?thesis using slack_put_reserved [OF assms(1)] by blast
qed

lemma slash_slack:
  assumes fin: "balances_fin s" and pos: "0 \<le> slack s" and sl: "slash who v s = ((n, rest), s')"
  shows "slack s' = slack s + int (unat n)" and "unat n + unat rest = unat v" and "balances_fin s'"
proof -
  define f where "f = min (free_balance who s) v"
  define r where "r = v - f"
  define s1 where "s1 = put_free who (free_balance who s - f) s"
  define q where "q = min (reserved_balance who s) r"
  have fin1: "balances_fin s1" using fin by (simp add: s1_def)
  have f: "unat (free_balance who s - f) + unat f = unat (free_balance who s)"
    unfolding f_def by (rule min_sub_unat)
  have vf: "unat r + unat f = unat v"
    unfolding r_def f_def using min_sub_unat [of v "free_balance who s"] by (simp only: min.commute)
  have s1: "slack s1 = slack s + int (unat f)"
    unfolding s1_def using slack_put_free_le [OF fin, of "free_balance who s - f" who] f pos by linarith
  have rq: "unat (r - q) + unat q = unat r"
    unfolding q_def using min_sub_unat [of r "reserved_balance who s"] by (simp only: min.commute)
  have res: "unat (reserved_balance who s - q) + unat q = unat (reserved_balance who s)"
    unfolding q_def by (rule min_sub_unat)
  have def: "slash who v s = (if r \<noteq> 0
      then ((f + q, r - q), put_reserved who (reserved_balance who s - q) s1) else ((v, 0), s1))"
    by (simp add: slash_def Let_def f_def r_def s1_def q_def)
  have "slack s' = slack s + int (unat n) \<and> unat n + unat rest = unat v \<and> balances_fin s'"
  proof (cases "r = 0")
    case True
    then have "n = v" "rest = 0" "s' = s1" using sl by (simp_all add: def)
    with True s1 fin1 vf show ?thesis by simp
  next
    case False
    then have e: "n = f + q" "rest = r - q" "s' = put_reserved who (reserved_balance who s - q) s1"
      using sl by (simp_all add: def)
    have "unat f + unat q < 2 ^ LENGTH(128)"
      using vf rq unsigned_less [of v, where ?'a = nat] by linarith
    then have nq: "unat n = unat f + unat q" unfolding e(1) by (rule unat_plus_no_overflow)
    have rs1: "reserved_balance who s1 = reserved_balance who s" by (simp add: s1_def)
    have "slack s' = slack s1 + int (unat q)"
      unfolding e(3) using slack_put_reserved_le [OF fin1, of "reserved_balance who s - q" who] rs1 res s1 pos
      by simp
    moreover have "balances_fin s'" unfolding e(3) using fin1 by simp
    ultimately show ?thesis using s1 nq rq vf unfolding e(2) by simp
  qed
  then show "slack s' = slack s + int (unat n)" and "unat n + unat rest = unat v" and "balances_fin s'"
    by simp_all
qed

section \<open>Moves between free and reserved balances\<close>

lemma free_reserved_le_held:
  "balances_fin s \<Longrightarrow> unat (free_balance a s) + unat (reserved_balance b s) \<le> held s"
  using msum_ge [of "free_balance_map s" a] msum_ge [of "reserved_balance_map s" b]
  by (simp add: held_def balances_fin_def free_balance_def reserved_balance_def)

lemma no_overflow_move:
  assumes "balances_fin s" and "0 \<le> slack s" and "m \<le> unat (free_balance a s) + unat (reserved_balance b s)"
  shows "m < 2 ^ 128" and "m \<le> unat (total_issuance s)"
proof -
  show le: "m \<le> unat (total_issuance s)"
    using assms free_reserved_le_held [of s a b] by (simp add: slack_def)
  show "m < 2 ^ 128" using le unsigned_less [of "total_issuance s", where ?'a = nat] by simp
qed

lemma slack_move_free_first:
  assumes fin: "balances_fin s" and pos: "0 \<le> slack s"
    and sum: "unat x + unat y = unat (free_balance a s) + unat (reserved_balance b s)"
  shows "slack (put_reserved b y (put_free a x s)) = slack s"
proof -
  have "unat x + unat y \<le> unat (total_issuance s)"
    using no_overflow_move(2) [OF fin pos, of _ a b] sum by simp
  then have "x \<le> total_issuance s" and "y \<le> total_issuance (put_free a x s)"
    by (auto simp: word_le_nat_alt unat_saturating_sub)
  then show ?thesis
    using slack_put_free [OF fin, of x a] slack_put_reserved [of "put_free a x s" y b] fin sum by simp
qed

lemma slack_move_reserved_first:
  assumes fin: "balances_fin s" and pos: "0 \<le> slack s"
    and sum: "unat x + unat y = unat (free_balance a s) + unat (reserved_balance b s)"
  shows "slack (put_free a x (put_reserved b y s)) = slack s"
proof -
  have "unat x + unat y \<le> unat (total_issuance s)"
    using no_overflow_move(2) [OF fin pos, of _ a b] sum by simp
  then have "y \<le> total_issuance s" and "x \<le> total_issuance (put_reserved b y s)"
    by (auto simp: word_le_nat_alt unat_saturating_sub)
  then show ?thesis
    using slack_put_reserved [OF fin, of y b] slack_put_free [of "put_reserved b y s" x a] fin sum by simp
qed

lemma unat_plus_le:
  fixes a b :: u128
  shows "unat a + unat b < 2 ^ 128 \<Longrightarrow> unat (a + b) = unat a + unat b"
  by simp

lemma reserve_slack:
  assumes fin: "balances_fin s" and pos: "0 \<le> slack s" and r: "reserve who v s = (Ok (), s')"
  shows "slack s' = slack s" and "balances_fin s'"
proof -
  have le: "v \<le> free_balance who s"
    and s': "s' = put_free who (free_balance who s - v) (put_reserved who (reserved_balance who s + v) s)"
    using r by (auto simp: reserve_def Let_def not_less split: if_splits sum.splits)
  have "unat (free_balance who s - v) = unat (free_balance who s) - unat v" using le by simp
  moreover have "unat (reserved_balance who s + v) = unat (reserved_balance who s) + unat v"
    using no_overflow_move(1) [OF fin pos, of "unat (reserved_balance who s) + unat v" who who] le
    by (intro unat_plus_le) (simp add: word_le_nat_alt)
  ultimately have "unat (free_balance who s - v) + unat (reserved_balance who s + v)
      = unat (free_balance who s) + unat (reserved_balance who s)"
    using le by (simp add: word_le_nat_alt)
  then show "slack s' = slack s" unfolding s' by (rule slack_move_reserved_first [OF fin pos])
  show "balances_fin s'" using fin s' by simp
qed

lemma move_to_free:
  assumes fin: "balances_fin s" and pos: "0 \<le> slack s"
  defines "m \<equiv> \<lambda>b v. min (reserved_balance b s) v"
  shows "unat (free_balance a s + m b v) + unat (reserved_balance b s - m b v)
    = unat (free_balance a s) + unat (reserved_balance b s)"
proof -
  have m: "unat (reserved_balance b s - m b v) + unat (m b v) = unat (reserved_balance b s)"
    unfolding m_def by (rule min_sub_unat)
  then have "unat (free_balance a s + m b v) = unat (free_balance a s) + unat (m b v)"
    using no_overflow_move(1) [OF fin pos, of "unat (free_balance a s) + unat (m b v)" a b]
    by (intro unat_plus_le) linarith
  with m show ?thesis by linarith
qed

lemma unreserve_slack:
  assumes "balances_fin s" and "0 \<le> slack s" and "unreserve who v s = (rest, s')"
  shows "slack s' = slack s" and "balances_fin s'"
  using assms slack_move_free_first [OF assms(1,2) move_to_free [OF assms(1,2), of who who v]]
  by (auto simp: unreserve_def Let_def)

lemma repatriate_slack:
  assumes "balances_fin s" and "0 \<le> slack s" and "repatriate_reserved a b v s = (r, s')"
  shows "slack s' = slack s" and "balances_fin s'"
  using assms slack_move_free_first [OF assms(1,2) move_to_free [OF assms(1,2), of b a v]]
  by (auto simp: repatriate_reserved_def Let_def split: if_splits)

lemma slash_reserved_slack:
  assumes fin: "balances_fin s" and pos: "0 \<le> slack s" and sl: "slash_reserved who v s = ((n, rest), s')"
  shows "slack s' = slack s + int (unat n)" and "balances_fin s'"
proof -
  have n: "n = min (reserved_balance who s) v" and s': "s' = put_reserved who (reserved_balance who s - n) s"
    using sl by (auto simp: slash_reserved_def Let_def)
  have "unat (reserved_balance who s - n) + unat n = unat (reserved_balance who s)"
    unfolding n by (rule min_sub_unat)
  then show "slack s' = slack s + int (unat n)"
    using slack_put_reserved_le [OF fin, of "reserved_balance who s - n" who] pos s' by simp
  show "balances_fin s'" using fin s' by simp
qed

section \<open>Deposits and relays\<close>

lemma deposit_creating_eq:
  assumes "unat (free_balance who s) + unat v < 2 ^ 128"
  shows "deposit_creating who v s =
    (if free_balance who s + v < existential_deposit s \<and> free_balance who s = 0 then (0, s)
     else (v, put_free who (free_balance who s + v)
       (if existential_deposit s \<le> free_balance who s + v then ensure_account who (free_balance who s + v) s else s)))"
proof -
  have "free_balance who s \<le> free_balance who s + v"
    using assms by (simp add: word_le_nat_alt)
  then show ?thesis
    by (cases "free_balance who s + v < existential_deposit s")
      (simp_all add: deposit_creating_def make_free_balance_be_def Let_def)
qed

lemma deposit_creating_slack:
  assumes fin: "balances_fin s" and pos: "0 \<le> slack s"
    and ov: "unat (total_issuance s) + unat v < 2 ^ 128" and ed: "existential_deposit s \<le> free_balance who s
      \<or> free_balance who s = 0"
    and d: "deposit_creating who v s = (p, s')"
  shows "slack s' = slack s - int (unat p)" and "balances_fin s'"
proof -
  have le: "unat (free_balance who s) + unat v < 2 ^ 128"
    using no_overflow_move(2) [OF fin pos, of "unat (free_balance who s)" who who] ov by simp
  let ?b = "free_balance who s + v"
  have ub: "unat ?b = unat (free_balance who s) + unat v" using le by simp
  have "slack s' = slack s - int (unat p) \<and> balances_fin s'"
  proof (cases "?b < existential_deposit s")
    case True
    then have "free_balance who s = 0"
      using ed ub by (auto simp: word_le_nat_alt word_less_nat_alt)
    with True show ?thesis using d deposit_creating_eq [OF le] fin by auto
  next
    case False
    then have e: "p = v" "s' = put_free who ?b (ensure_account who ?b s)"
      using d deposit_creating_eq [OF le] by auto
    let ?s1 = "ensure_account who ?b s"
    have "slack (put_free who ?b ?s1) = slack ?s1 + int (unat (free_balance who ?s1)) - int (unat ?b)"
      using fin False by (intro slack_put_free) (auto simp: not_less)
    then show ?thesis unfolding e using fin ub by simp
  qed
  then show "slack s' = slack s - int (unat p)" and "balances_fin s'" by simp_all
qed

lemma relay_transfer_Ok_slack:
  assumes fin: "balances_fin s" and r: "relay_transfer decode_origin bytes s = Some (Ok (), s')"
    and d: "decode_origin bytes = Some (a, b, v)"
  shows "slack s - int (unat v) \<le> slack s'" and "balances_fin s'"
proof -
  let ?s1 = "ensure_account b v s" and ?t = "free_balance b s + v"
  have ca: "checked_add (free_balance b s) v = Some ?t"
    and s': "s' = deposit_event (Transfer a b ?t 0) (put_free b ?t ?s1)"
    using r d by (auto simp: relay_transfer_def Let_def checked_add_Some split: option.splits if_splits)
  have "slack ?s1 + int (unat (free_balance b ?s1)) - int (unat ?t) \<le> slack (put_free b ?t ?s1)"
    using fin by (intro slack_put_free_ge) simp
  then show "slack s - int (unat v) \<le> slack s'" using s' by (simp add: unat_checked [OF ca])
  show "balances_fin s'" using fin s' by simp
qed

lemma relay_transfer_Err_slack:
  assumes "relay_transfer decode_origin bytes s = Some (Err e, s')"
  shows "slack s' = slack s" and "balances_fin s' = balances_fin s"
  using assms by (auto simp: relay_transfer_def Let_def split: option.splits if_splits)

end
