(* ===== verification/Balances_Invariant.thy ===== *)
theory Balances_Invariant
  imports Balances_Accounts
begin

text \<open>
  The step relation of the balances module within one shard (every operation other
  modules and users can run, imbalances dropped as the runtime configures) and its
  invariant: finitely many entries, no entry below the existential deposit, and
  holdings covered by the total issuance. Then the claims about single operations.
\<close>

section \<open>The invariant\<close>

definition ed_inv :: "('a, 'z) balances_store_scheme \<Rightarrow> bool" where
  "ed_inv s \<longleftrightarrow>
     (\<forall>a b. free_balance_map s a = Some b \<longrightarrow> existential_deposit s \<le> b) \<and>
     (\<forall>a b. reserved_balance_map s a = Some b \<longrightarrow> existential_deposit s \<le> b)"

lemma ed_inv_put [simp]:
  "ed_inv s \<Longrightarrow> ed_inv (put_free who b s)"
  "ed_inv s \<Longrightarrow> ed_inv (put_reserved who b s)"
  by (auto simp: ed_inv_def not_less split: if_splits)

lemma ed_inv_frame [simp]:
  "ed_inv (deposit_event e s) = ed_inv s"
  "ed_inv (new_account a b s) = ed_inv s"
  "ed_inv (drop_negative v s) = ed_inv s"
  "ed_inv (drop_positive v s) = ed_inv s"
  "ed_inv (on_fee_withdrawn v s) = ed_inv s"
  by (simp_all add: ed_inv_def)

lemma ed_inv_free: "ed_inv s \<Longrightarrow> existential_deposit s \<le> free_balance a s \<or> free_balance a s = 0"
  by (auto simp: ed_inv_def free_balance_def map_get_def split: option.split)

definition balances_inv :: "('a, 'z) balances_store_scheme \<Rightarrow> bool" where
  "balances_inv s \<longleftrightarrow> balances_fin s \<and> 0 \<le> slack s \<and> ed_inv s"

lemma balances_inv_held: "balances_inv s \<Longrightarrow> held s \<le> unat (total_issuance s)"
  by (simp add: balances_inv_def slack_def)

inductive balances_step ::
  "('a \<Rightarrow> u8 list) \<Rightarrow> ('a, 'z) balances_store_scheme \<Rightarrow> ('a, 'z) balances_store_scheme \<Rightarrow> bool"
  for encode where
  transfer: "transfer encode a b v s = Some (r, s') \<Longrightarrow> balances_step encode s s'"
| payment: "make_payment a len s = (r, s') \<Longrightarrow> balances_step encode s s'"
| withdraw: "withdraw a v reason live s = (Ok n, s') \<Longrightarrow> balances_step encode s (drop_negative n s')"
| slash: "slash a v s = ((n, rest), s') \<Longrightarrow> balances_step encode s (drop_negative n s')"
| slash_reserved: "slash_reserved a v s = ((n, rest), s') \<Longrightarrow> balances_step encode s (drop_negative n s')"
| deposit: "deposit_creating a v s = (p, s') \<Longrightarrow> unat (total_issuance s) + unat v < 2 ^ 128
    \<Longrightarrow> balances_step encode s (drop_positive p s')"
| deposit_existing: "deposit_into_existing a v s = (Ok p, s') \<Longrightarrow> unat (total_issuance s) + unat v < 2 ^ 128
    \<Longrightarrow> balances_step encode s (drop_positive p s')"
| reserve: "reserve a v s = (r, s') \<Longrightarrow> balances_step encode s s'"
| unreserve: "unreserve a v s = (rest, s') \<Longrightarrow> balances_step encode s s'"
| repatriate: "repatriate_reserved a b v s = (r', s') \<Longrightarrow> balances_step encode s s'"
| set_lock: "balances_step encode s (set_lock i a v until' reasons s)"
| extend_lock: "balances_step encode s (extend_lock i a v until' reasons s)"
| remove_lock: "balances_step encode s (remove_lock i a s)"

section \<open>Every operation keeps it\<close>

lemma inv_transfer:
  assumes "balances_inv s" and "transfer encode a b v s = Some (r, s')"
  shows "balances_inv s'"
proof (cases r)
  case (Inl e)
  with assms show ?thesis using transfer_Err by metis
next
  case (Inr u)
  then have t: "transfer encode a b v s = Some (Ok (), s')" using assms(2) by simp
  from assms(1) have i: "balances_fin s" "0 \<le> slack s" "ed_inv s" by (simp_all add: balances_inv_def)
  have "ed_inv s'" using t by (rule transfer_OkE) (use i(3) in auto)
  with transfer_slack [OF i(1,2) t] i(2) show ?thesis by (simp add: balances_inv_def)
qed

lemma inv_payment:
  assumes "balances_inv s" and "make_payment a len s = (r, s')"
  shows "balances_inv s'"
proof (cases r)
  case (Inl e)
  with assms show ?thesis using make_payment_Err by metis
next
  case (Inr u)
  then have t: "make_payment a len s = (Ok (), s')" using assms(2) by simp
  from assms(1) have i: "balances_fin s" "0 \<le> slack s" "ed_inv s" by (simp_all add: balances_inv_def)
  have "ed_inv s'" using t by (rule make_payment_OkE) (use i(3) in \<open>auto elim!: withdraw_OkE\<close>)
  with make_payment_slack [OF i(1,2) t] i(2) show ?thesis by (simp add: balances_inv_def)
qed

lemma inv_drop_negative:
  assumes "slack s' = slack s + int (unat n)" "balances_fin s'" "ed_inv s'" "0 \<le> slack s"
  shows "balances_inv (drop_negative n s')"
  using assms slack_drop_negative_le [of s' n] by (simp add: balances_inv_def)

lemma inv_drop_positive:
  assumes "slack s' = slack s - int (unat p)" "balances_fin s'" "ed_inv s'" "0 \<le> slack s"
    and "unat (total_issuance s') + unat p < 2 ^ 128"
  shows "balances_inv (drop_positive p s')"
  using assms slack_drop_positive [of s' p] by (simp add: balances_inv_def)

lemma inv_withdraw:
  assumes i: "balances_inv s" and w: "withdraw a v reason live s = (Ok n, s')"
  shows "balances_inv (drop_negative n s')"
proof (rule inv_drop_negative)
  show "ed_inv s'" using w i by (auto simp: balances_inv_def elim: withdraw_OkE)
qed (use i withdraw_slack [OF _ _ w] in \<open>auto simp: balances_inv_def\<close>)

lemma inv_slash:
  assumes i: "balances_inv s" and w: "slash a v s = ((n, rest), s')"
  shows "balances_inv (drop_negative n s')"
proof (rule inv_drop_negative)
  show "ed_inv s'" using w i by (auto simp: balances_inv_def slash_def Let_def split: if_splits)
qed (use i slash_slack [OF _ _ w] in \<open>auto simp: balances_inv_def\<close>)

lemma inv_slash_reserved:
  assumes i: "balances_inv s" and w: "slash_reserved a v s = ((n, rest), s')"
  shows "balances_inv (drop_negative n s')"
proof (rule inv_drop_negative)
  show "ed_inv s'" using w i by (auto simp: balances_inv_def slash_reserved_def Let_def)
qed (use i slash_reserved_slack [OF _ _ w] in \<open>auto simp: balances_inv_def\<close>)

lemma free_plus_no_overflow:
  assumes "balances_inv s" and "unat (total_issuance s) + unat v < 2 ^ 128"
  shows "unat (free_balance a s) + unat v < 2 ^ 128"
  using assms free_le_held [of s a] balances_inv_held [of s] by (simp add: balances_inv_def)

lemma inv_deposit:
  assumes i: "balances_inv s" and d: "deposit_creating a v s = (p, s')"
    and ov: "unat (total_issuance s) + unat v < 2 ^ 128"
  shows "balances_inv (drop_positive p s')"
proof (rule inv_drop_positive)
  note eq = deposit_creating_eq [OF free_plus_no_overflow [OF i ov, of a]]
  show "ed_inv s'" using d i by (auto simp: eq balances_inv_def split: if_splits)
  have "unat p \<le> unat v \<and> unat (total_issuance s') \<le> unat (total_issuance s)"
    using d by (auto simp: eq unat_saturating_sub split: if_splits)
  with ov show "unat (total_issuance s') + unat p < 2 ^ 128" by linarith
qed (use i deposit_creating_slack [OF _ _ ov ed_inv_free d] in \<open>auto simp: balances_inv_def\<close>)

lemma inv_deposit_existing:
  assumes i: "balances_inv s" and d: "deposit_into_existing a v s = (Ok p, s')"
    and ov: "unat (total_issuance s) + unat v < 2 ^ 128"
  shows "balances_inv (drop_positive p s')"
proof -
  let ?b = "free_balance a s + v"
  have s': "s' = put_free a ?b s" "p = v" using d by (auto simp: deposit_into_existing_def split: if_splits)
  have ub: "unat ?b = unat (free_balance a s) + unat v"
    using free_plus_no_overflow [OF i ov, of a] by simp
  from i have fin: "balances_fin s" and pos: "0 \<le> slack s" and ed: "ed_inv s"
    by (simp_all add: balances_inv_def)
  show ?thesis
  proof (cases "?b < existential_deposit s")
    case False
    then have "slack s' = slack s - int (unat p)"
      using slack_put_free [OF fin, of ?b a] s' ub by (simp add: not_less)
    with fin ed s' pos ov False show ?thesis by (intro inv_drop_positive [of s' s]) auto
  next
    case True
    then have f0: "free_balance a s = 0"
      using ed_inv_free [OF ed, of a] ub by (auto simp: word_le_nat_alt word_less_nat_alt)
    have "0 \<le> slack (drop_positive p s')"
      using held_put_free [OF fin, of a ?b] True pos s' f0 ov
      by (simp add: slack_def drop_positive_def unat_saturating_add unat_saturating_sub held_def)
    with fin ed s' show ?thesis by (simp add: balances_inv_def)
  qed
qed

lemma inv_locks:
  "balances_inv (set_lock i a v until' reasons s) = balances_inv s"
  "balances_inv (extend_lock i a v until' reasons s) = balances_inv s"
  "balances_inv (remove_lock i a s) = balances_inv s"
  by (simp_all add: balances_inv_def balances_fin_def slack_def held_def ed_inv_def
      set_lock_def extend_lock_def remove_lock_def Let_def)

lemma inv_reserve:
  assumes "balances_inv s" and "reserve a v s = (r, s')"
  shows "balances_inv s'"
proof (cases r)
  case (Inl e)
  with assms show ?thesis by (auto simp: reserve_def Let_def split: if_splits sum.splits)
next
  case (Inr u)
  then have "reserve a v s = (Ok (), s')" using assms(2) by simp
  moreover from this assms(1) have "ed_inv s'"
    by (auto simp: balances_inv_def reserve_def Let_def split: if_splits sum.splits)
  ultimately show ?thesis using reserve_slack [of s a v s'] assms(1) by (simp add: balances_inv_def)
qed

lemma inv_unreserve: "balances_inv s \<Longrightarrow> unreserve a v s = (rest, s') \<Longrightarrow> balances_inv s'"
  using unreserve_slack [of s a v rest s'] by (auto simp: balances_inv_def unreserve_def Let_def)

lemma inv_repatriate: "balances_inv s \<Longrightarrow> repatriate_reserved a b v s = (r, s') \<Longrightarrow> balances_inv s'"
  using repatriate_slack [of s a b v r s']
  by (auto simp: balances_inv_def repatriate_reserved_def Let_def split: if_splits)

lemmas inv_operations = inv_transfer inv_payment inv_withdraw inv_slash inv_slash_reserved inv_deposit
  inv_deposit_existing inv_reserve inv_unreserve inv_repatriate

lemma inv_step: "balances_step encode s s' \<Longrightarrow> balances_inv s \<Longrightarrow> balances_inv s'"
  by (induction rule: balances_step.induct)
    (erule (2) inv_deposit inv_deposit_existing | erule (1) inv_operations | simp only: inv_locks)+

section \<open>Claims\<close>

text \<open>A shard with three accounts, the first and the third of which live in it.\<close>

definition demo_balances :: "u8 list balances_store" where
  "demo_balances = \<lparr>block_number = 10, digest = [], events = [], account_nonce = Map.empty,
     genesis_sharding_count = 2, scale_out_observe_blocks = 1,
     current_shard_info = Some \<lparr>si_num = 1, si_count = 2, si_scale_out = None\<rparr>, current_scale_out_phase = None,
     genesis_pow_target = 0, pow_target_adj = 5, target_block_time = 15, block_reward = 64,
     block_reward_latency = 2, reward_plans = [], total_fee = 0, current_pow_info = None,
     total_issuance = 1500, existential_deposit = 10, transfer_fee = 3, creation_fee = 0,
     transaction_base_fee = 1, transaction_byte_fee = 1, vesting = Map.empty,
     free_balance_map = [[0, 1] \<mapsto> 1000, [0, 2] \<mapsto> 400], reserved_balance_map = [[0, 1] \<mapsto> 100],
     locks_map = Map.empty\<rparr>"

lemma demo_balances_inv: "balances_inv demo_balances"
  by (auto simp: balances_inv_def balances_fin_def slack_def held_def msum_def ed_inv_def demo_balances_def
      map_get_def split: if_splits)

lemma demo_shards [simp]:
  "shard_num_for id [0, 1 :: u8] 2 = Some 1" "shard_num_for id [0, 2 :: u8] 2 = Some 0"
  "shard_num_for id [0, 3 :: u8] 2 = Some 1"
  by code_simp+

lemma demo_transfer_local: "\<exists>s'. transfer id [0, 1] [0, 3] 100 demo_balances = Some (Ok (), s')"
  by (simp add: transfer_def demo_balances_def get_curr_shard_def get_shard_count_def free_balance_def
      checked_add_def checked_sub_def ensure_can_withdraw_def locks_def vesting_balance_def Let_def)

lemma demo_transfer_cross: "\<exists>s'. transfer id [0, 1] [0, 2] 100 demo_balances = Some (Ok (), s')"
  by (simp add: transfer_def demo_balances_def get_curr_shard_def get_shard_count_def free_balance_def
      checked_add_def checked_sub_def ensure_can_withdraw_def locks_def vesting_balance_def Let_def)

text \<open>
  C1: transfers account for every unit. A failed transfer changes nothing. After a
  successful one, the difference between the total issuance and the sum of all
  balances is the same if the receiver is in the current shard, and larger by
  exactly the value sent if it is in another one (the fee is destroyed on both
  sides of the difference, dust of reaped accounts included).
\<close>

theorem transfer_conserves:
  assumes "balances_inv s" and "transfer encode a b v s = Some (r, s')"
  shows "(\<forall>e. r = Err e \<longrightarrow> s' = s) \<and>
    (r = Ok () \<longrightarrow> unat (total_issuance s') + held s
       = unat (total_issuance s) + held s' + (if crosses encode b s then unat v else 0))"
proof (cases r)
  case (Inl e)
  then show ?thesis using assms(2) transfer_Err [of encode a b v s e s'] by simp
next
  case (Inr u)
  then have t: "transfer encode a b v s = Some (Ok (), s')" using assms(2) by simp
  have "slack s' = slack s + (if crosses encode b s then int (unat v) else 0)"
    using transfer_slack(1) [OF _ _ t] assms(1) by (simp add: balances_inv_def)
  then show ?thesis using Inr by (simp add: slack_def split: if_splits)
qed

theorem transfer_conserves_witness:
  "\<exists>s'. transfer id [0, 1] [0, 2] 100 demo_balances = Some (Ok (), s') \<and>
     unat (total_issuance s') = held s' + 100"
proof -
  obtain s' where t: "transfer id [0, 1] [0, 2] 100 demo_balances = Some (Ok (), s')"
    using demo_transfer_cross by blast
  have "unat (total_issuance s') + held demo_balances = unat (total_issuance demo_balances) + held s' + 100"
    using transfer_conserves [OF demo_balances_inv t] by (simp add: crosses_def demo_balances_def)
  moreover have "held demo_balances = 1500" "total_issuance demo_balances = 1500"
    by (simp_all add: held_def msum_def demo_balances_def map_get_def)
  ultimately show ?thesis using t by auto
qed



end
