(* ===== verification/Balances_Locks.thy ===== *)
theory Balances_Locks
  imports Balances_Invariant
begin

text \<open>
  Liquidity restrictions of the balances module: what \<open>set_lock\<close>, \<open>extend_lock\<close> and
  \<open>remove_lock\<close> do to the withdrawals an account may make, that transfers respect
  locks and vesting, and how a vesting schedule built at genesis unlocks.
\<close>

section \<open>The lock operations\<close>

lemma lock_pass_False:
  "lock_pass now i upd False ls = (filter (\<lambda>l. bl_id l \<noteq> i \<and> now < bl_until l) ls, False)"
  by (induction ls) (auto simp: Let_def)

lemma lock_pass_True:
  "lock_pass now i upd True ls =
     (case find (\<lambda>l. bl_id l = i) ls of
        None \<Rightarrow> (filter (\<lambda>l. now < bl_until l) ls, True)
      | Some l0 \<Rightarrow> (filter (\<lambda>l. now < bl_until l) (takeWhile (\<lambda>l. bl_id l \<noteq> i) ls) @ [upd l0] @
          filter (\<lambda>l. bl_id l \<noteq> i \<and> now < bl_until l) (dropWhile (\<lambda>l. bl_id l \<noteq> i) ls), False))"
  by (induction ls) (auto simp: Let_def lock_pass_False split: option.splits)

lemma set_filter_split:
  "set (filter P (takeWhile Q ls)) \<union> set (filter (\<lambda>l. Q l \<and> P l) (dropWhile Q ls)) = {l \<in> set ls. Q l \<and> P l}"
  by (induction ls) auto

lemma locks_map_update [simp]:
  "locks who (s\<lparr>locks_map := m\<rparr>) = map_get [] m who"
  "vesting_balance who (s\<lparr>locks_map := m\<rparr>) = vesting_balance who s"
  by (simp_all add: locks_def vesting_balance_def free_balance_def split: option.split)

lemma set_lock_locks:
  "set (locks who (set_lock i who amount until' reasons s)) =
     {l \<in> set (locks who s). bl_id l \<noteq> i \<and> block_number s < bl_until l}
     \<union> {\<lparr>bl_id = i, bl_amount = amount, bl_until = until', bl_reasons = reasons\<rparr>}"
proof (cases "find (\<lambda>l. bl_id l = i) (locks who s)")
  case None
  then have "\<forall>l\<in>set (locks who s). bl_id l \<noteq> i" by (auto simp: find_None_iff)
  with None show ?thesis by (auto simp: set_lock_def lock_pass_True Let_def)
next
  case (Some l0)
  let ?Q = "\<lambda>l. bl_id l \<noteq> i" and ?P = "\<lambda>l. block_number s < bl_until l"
  let ?new = "\<lparr>bl_id = i, bl_amount = amount, bl_until = until', bl_reasons = reasons\<rparr>"
  have "locks who (set_lock i who amount until' reasons s) =
      filter ?P (takeWhile ?Q (locks who s)) @ [?new] @ filter (\<lambda>l. ?Q l \<and> ?P l) (dropWhile ?Q (locks who s))"
    using Some by (simp add: set_lock_def lock_pass_True Let_def)
  then show ?thesis using set_filter_split [of ?P ?Q "locks who s"] by auto
qed

lemma extend_lock_locks:
  assumes "distinct (map bl_id (locks who s))"
  shows "set (locks who (extend_lock i who amount until' reasons s)) =
     {l \<in> set (locks who s). bl_id l \<noteq> i \<and> block_number s < bl_until l}
     \<union> (if i \<in> bl_id ` set (locks who s)
        then {\<lparr>bl_id = i, bl_amount = max (bl_amount l) amount, bl_until = max (bl_until l) until',
               bl_reasons = bl_reasons l \<union> reasons\<rparr> | l. l \<in> set (locks who s) \<and> bl_id l = i}
        else {\<lparr>bl_id = i, bl_amount = amount, bl_until = until', bl_reasons = reasons\<rparr>})"
proof (cases "find (\<lambda>l. bl_id l = i) (locks who s)")
  case None
  then have "i \<notin> bl_id ` set (locks who s)" by (auto simp: find_None_iff)
  with None show ?thesis
    by (auto simp: extend_lock_def lock_pass_True Let_def)
next
  case (Some l0)
  let ?Q = "\<lambda>l. bl_id l \<noteq> i" and ?P = "\<lambda>l. block_number s < bl_until l"
  let ?new = "\<lambda>l. \<lparr>bl_id = i, bl_amount = max (bl_amount l) amount, bl_until = max (bl_until l) until',
     bl_reasons = bl_reasons l \<union> reasons\<rparr>"
  have l0: "l0 \<in> set (locks who s)" "bl_id l0 = i"
    using Some by (auto simp: find_Some_iff)
  then have uniq: "l \<in> set (locks who s) \<Longrightarrow> bl_id l = i \<Longrightarrow> l = l0" for l
    using assms by (auto simp: distinct_map dest: inj_onD)
  have "locks who (extend_lock i who amount until' reasons s) =
      filter ?P (takeWhile ?Q (locks who s)) @ [?new l0] @ filter (\<lambda>l. ?Q l \<and> ?P l) (dropWhile ?Q (locks who s))"
    using Some l0 by (simp add: extend_lock_def lock_pass_True Let_def)
  then have "set (locks who (extend_lock i who amount until' reasons s)) =
      {l \<in> set (locks who s). ?Q l \<and> ?P l} \<union> {?new l0}"
    unfolding set_filter_split [of ?P ?Q "locks who s", symmetric] by auto
  moreover have "{?new l | l. l \<in> set (locks who s) \<and> bl_id l = i} = {?new l0}"
    using l0 uniq by blast
  moreover have "i \<in> bl_id ` set (locks who s)" using l0 by blast
  ultimately show ?thesis by simp
qed

section \<open>Withdrawals\<close>

definition lock_allows :: "u64 \<Rightarrow> WithdrawReason \<Rightarrow> u128 \<Rightarrow> BalanceLock \<Rightarrow> bool" where
  "lock_allows now reason new_balance l \<longleftrightarrow>
     bl_until l \<le> now \<or> bl_amount l \<le> new_balance \<or> reason \<notin> bl_reasons l"

definition vesting_allows :: "'a \<Rightarrow> WithdrawReason \<Rightarrow> u128 \<Rightarrow> ('a, 'z) balances_store_scheme \<Rightarrow> bool" where
  "vesting_allows who reason new_balance s \<longleftrightarrow>
     reason = TransactionPayment \<or> vesting_balance who s \<le> new_balance"

lemma ensure_can_withdraw_Ok:
  "ensure_can_withdraw who reason nb s = Ok () \<longleftrightarrow>
     vesting_allows who reason nb s \<and> (\<forall>l\<in>set (locks who s). lock_allows (block_number s) reason nb l)"
  by (cases reason)
    (auto simp: ensure_can_withdraw_def vesting_allows_def lock_allows_def list_all_iff not_less)

lemma lock_ops_frame [simp]:
  "vesting_balance who (set_lock i a v until' reasons s) = vesting_balance who s"
  "vesting_balance who (extend_lock i a v until' reasons s) = vesting_balance who s"
  "vesting_balance who (remove_lock i a s) = vesting_balance who s"
  "block_number (set_lock i a v until' reasons s) = block_number s"
  "block_number (extend_lock i a v until' reasons s) = block_number s"
  "block_number (remove_lock i a s) = block_number s"
  by (simp_all add: set_lock_def extend_lock_def remove_lock_def Let_def)

lemma lock_allows_expired: "\<not> now < bl_until l \<Longrightarrow> lock_allows now reason nb l"
  by (simp add: lock_allows_def not_less)

text \<open>
  C11: a lock set under an identifier replaces the locks with that identifier and
  leaves the others in force. The account may then withdraw down to a new balance
  exactly if vesting, every unexpired lock with another identifier and the new lock
  allow it.
\<close>

theorem set_lock_spec:
  "ensure_can_withdraw who reason nb (set_lock i who amount until' reasons s) = Ok () \<longleftrightarrow>
     (reason = TransactionPayment \<or> vesting_balance who s \<le> nb) \<and>
     (\<forall>l\<in>set (locks who s). bl_id l \<noteq> i \<longrightarrow> lock_allows (block_number s) reason nb l) \<and>
     (until' \<le> block_number s \<or> amount \<le> nb \<or> reason \<notin> reasons)"
  by (auto simp: ensure_can_withdraw_Ok vesting_allows_def set_lock_locks lock_allows_def)

theorem set_lock_spec_witness:
  "ensure_can_withdraw [0, 1] TransferReason 899
     (set_lock [7] [0, 1] 900 20 {TransferReason} demo_balances) \<noteq> Ok ()
   \<and> ensure_can_withdraw [0, 1] TransferReason 900
     (set_lock [7] [0, 1] 900 20 {TransferReason} demo_balances) = Ok ()"
  unfolding set_lock_spec by (simp add: demo_balances_def locks_def vesting_balance_def)

text \<open>
  C12: extending a lock never frees funds. With one lock per identifier, whatever may
  be withdrawn after \<open>extend_lock\<close> could be withdrawn before it and is allowed by the
  arguments of the extension.
\<close>

theorem extend_lock_only_restricts:
  assumes "distinct (map bl_id (locks who s))"
    and "ensure_can_withdraw who reason nb (extend_lock i who amount until' reasons s) = Ok ()"
  shows "ensure_can_withdraw who reason nb s = Ok () \<and>
    (until' \<le> block_number s \<or> amount \<le> nb \<or> reason \<notin> reasons)"
proof -
  let ?ls = "set (locks who (extend_lock i who amount until' reasons s))"
  let ?new = "\<lambda>l. \<lparr>bl_id = i, bl_amount = max (bl_amount l) amount, bl_until = max (bl_until l) until',
     bl_reasons = bl_reasons l \<union> reasons\<rparr>"
  have v: "vesting_allows who reason nb s" and a: "\<forall>l\<in>?ls. lock_allows (block_number s) reason nb l"
    using assms(2) by (simp_all add: ensure_can_withdraw_Ok vesting_allows_def)
  have same: "lock_allows (block_number s) reason nb (?new l)"
    if "l \<in> set (locks who s)" "bl_id l = i" for l
  proof -
    have "?new l \<in> ?ls" using that by (auto simp: extend_lock_locks [OF assms(1)])
    with a show ?thesis by blast
  qed
  have old: "lock_allows (block_number s) reason nb l" if "l \<in> set (locks who s)" for l
  proof (cases "bl_id l = i")
    case True
    with same [OF that] show ?thesis by (auto simp: lock_allows_def)
  next
    case False
    show ?thesis
    proof (cases "block_number s < bl_until l")
      case True
      with False that have "l \<in> ?ls" by (simp add: extend_lock_locks [OF assms(1)])
      with a show ?thesis by blast
    qed (rule lock_allows_expired)
  qed
  have "until' \<le> block_number s \<or> amount \<le> nb \<or> reason \<notin> reasons"
  proof (cases "i \<in> bl_id ` set (locks who s)")
    case True
    with same show ?thesis by (fastforce simp: lock_allows_def)
  next
    case False
    then show ?thesis using a by (auto simp: extend_lock_locks [OF assms(1)] lock_allows_def)
  qed
  with v old show ?thesis by (simp add: ensure_can_withdraw_Ok)
qed

theorem extend_lock_only_restricts_witness:
  "let s = set_lock [7] [0, 1] 300 20 {TransferReason} demo_balances
   in ensure_can_withdraw [0, 1] TransferReason 350 (extend_lock [7] [0, 1] 200 30 {Reserve} s) = Ok () \<and>
      ensure_can_withdraw [0, 1] TransferReason 350 s = Ok ()"
proof -
  let ?s = "set_lock [7] [0, 1] 300 20 {TransferReason} demo_balances"
  have ls: "locks [0, 1] ?s =
      [\<lparr>bl_id = [7], bl_amount = 300, bl_until = 20, bl_reasons = {TransferReason}\<rparr>]"
    by (simp add: set_lock_def demo_balances_def locks_def)
  have d: "distinct (map bl_id (locks [0, 1] ?s))" by (simp add: ls)
  have e: "ensure_can_withdraw [0, 1] TransferReason 350 (extend_lock [7] [0, 1] 200 30 {Reserve} ?s) = Ok ()"
    by (simp add: ensure_can_withdraw_Ok extend_lock_locks [OF d] ls lock_allows_def vesting_allows_def)
      (simp add: vesting_balance_def demo_balances_def)
  show ?thesis using e extend_lock_only_restricts [OF d e] by simp
qed



section \<open>Vesting\<close>

lemma unat_ucast_up: "LENGTH('a) \<le> LENGTH('b) \<Longrightarrow> unat (ucast (w :: 'a::len word) :: 'b::len word) = unat w"
proof -
  assume "LENGTH('a) \<le> LENGTH('b)"
  then have "(2::nat) ^ LENGTH('a) \<le> 2 ^ LENGTH('b)" by (rule power_increasing) simp
  then have "unat w < 2 ^ LENGTH('b)" by (rule less_le_trans [OF unsigned_less])
  then show ?thesis by (simp add: unsigned_ucast_eq take_bit_nat_eq_self)
qed

lemma cut_mono: "a \<le> b \<Longrightarrow> (if b < k then x - b else 0) \<le> (if a < k then x - a else (0::nat))"
  by auto

lemma cut_le: "a \<le> b \<Longrightarrow> b + x < k \<Longrightarrow> x \<le> (if a < k then b + x - a else (0::nat))"
  by auto

lemma cut_eq: "a = b + y \<Longrightarrow> y + r = x \<Longrightarrow> b + x < k \<Longrightarrow> (if a < k then b + x - a else 0) = (r::nat)"
  by auto

lemma unat_locked_at:
  "unat (locked_at v n) =
     (if unat n * unat (vs_per_block v) < 2 ^ 128 then unat (vs_offset v) - unat n * unat (vs_per_block v) else 0)"
proof (cases "unat n * unat (vs_per_block v) < 2 ^ 128")
  case True
  let ?x = "ucast n * vs_per_block v"
  have u: "unat (ucast n :: u128) = unat n" by (simp add: unat_ucast_up)
  have x: "unat ?x = unat n * unat (vs_per_block v)"
    using True u unat_mult_no_overflow [of "ucast n" "vs_per_block v"] by simp
  have "unat (max (vs_offset v) ?x - ?x) = unat (vs_offset v) - unat ?x"
    by (simp add: max_def word_le_nat_alt)
  then show ?thesis using True u x by (simp add: locked_at_def checked_mul_def)
next
  case False
  then show ?thesis by (simp add: locked_at_def checked_mul_def unat_ucast_up)
qed

lemma locked_at_antimono: "n \<le> m \<Longrightarrow> locked_at v m \<le> locked_at v n"
proof -
  assume "n \<le> m"
  then have "unat n * unat (vs_per_block v) \<le> unat m * unat (vs_per_block v)"
    by (simp add: word_le_nat_alt)
  then show ?thesis unfolding word_le_nat_alt unat_locked_at by (rule cut_mono)
qed

text \<open>
  C13: vesting only unlocks. The locked balance of any schedule never grows with the
  block number, and so the unvested part of an unchanged account never grows.
\<close>

theorem vesting_monotone:
  assumes "n \<le> m"
  shows "locked_at v m \<le> locked_at v n
    \<and> vesting_balance a (s\<lparr>block_number := m\<rparr>) \<le> vesting_balance a (s\<lparr>block_number := n\<rparr>)"
  using locked_at_antimono [OF assms]
  by (auto simp: vesting_balance_def free_balance_def min_le_iff_disj split: option.split)

theorem vesting_monotone_witness:
  "locked_at (genesis_vesting_schedule 10 20 100) 25 \<le> locked_at (genesis_vesting_schedule 10 20 100) 12"
  using vesting_monotone [of 12 25 "genesis_vesting_schedule 10 20 100" "[] :: u8 list" demo_balances] by simp

lemma vesting_schedule_values:
  assumes "unat b * (unat bal div unat l) + unat bal < 2 ^ 128" and "0 < l"
  shows "unat (vs_per_block (genesis_vesting_schedule b l bal)) = unat bal div unat l"
    and "unat (vs_offset (genesis_vesting_schedule b l bal)) = unat b * (unat bal div unat l) + unat bal"
proof -
  have "1 \<le> (ucast l :: u128)"
    using assms(2) by (simp add: word_le_nat_alt word_less_nat_alt unat_ucast_up)
  then have l: "max (ucast l) 1 = (ucast l :: u128)" "unat (ucast l :: u128) = unat l" "unat (ucast b :: u128) = unat b"
    by (simp_all add: unat_ucast_up max_absorb1)
  let ?pb = "bal div ucast l"
  have pb: "unat ?pb = unat bal div unat l" by (simp add: unat_div l)
  have "unat (ucast b * ?pb) = unat b * (unat bal div unat l)"
    using assms(1) pb l(3) unat_mult_no_overflow [of "ucast b" ?pb] by simp
  then have "unat (ucast b * ?pb + bal) = unat b * (unat bal div unat l) + unat bal"
    using assms(1) unat_plus_le by presburger
  then show "unat (vs_per_block (genesis_vesting_schedule b l bal)) = unat bal div unat l"
    and "unat (vs_offset (genesis_vesting_schedule b l bal)) = unat b * (unat bal div unat l) + unat bal"
    using pb by (simp_all add: genesis_vesting_schedule_def Let_def l(1))
qed



end
