(* ===== verification/Pow_Reward.thy ===== *)
theory Pow_Reward
  imports Balances_Locks
begin

text \<open>
  The payment of block rewards, \<open>on_finalize\<close> and \<open>reward\<close> of
  \<open>srml/yee-pow/src/lib.rs\<close>. The module is generic in its currency; what it calls is
  one operation that deposits an amount and settles the imbalance. The locale
  \<open>reward_currency\<close> states what the module relies on, its lemmas are proved once in
  it, and it is interpreted on the balances module.
\<close>

section \<open>Operations\<close>

definition reward ::
  "('a \<Rightarrow> u128 \<Rightarrow> ('a, 'z) pow_store_scheme \<Rightarrow> ('a, 'z) pow_store_scheme) \<Rightarrow> ('a \<Rightarrow> u8 list)
     \<Rightarrow> 'a \<Rightarrow> RewardCondition \<Rightarrow> 'a reward_plan \<Rightarrow> ('a, 'z) pow_store_scheme
     \<Rightarrow> ('a, 'z) pow_store_scheme option" where
  "reward deposit encode current_coinbase reward_condition plan s =
     (case get_curr_shard s of None \<Rightarrow> None | Some shard_num \<Rightarrow>
     (case get_shard_count s of None \<Rightarrow> None | Some shard_count \<Rightarrow>
     (case shard_num_for encode (rp_coinbase plan) shard_count of None \<Rightarrow> None | Some coinbase_shard_num \<Rightarrow>
        if coinbase_shard_num = shard_num
        then (let reward_target = (case reward_condition of Normal \<Rightarrow> rp_coinbase plan | Slash \<Rightarrow> current_coinbase);
                  reward_amount = rp_block_reward plan + rp_fee_reward plan;
                  s = deposit reward_target reward_amount s
              in Some (deposit_event (Reward (plan\<lparr>rp_coinbase := reward_target\<rparr>)) s))
        else Some s)))"

text \<open>\<open>retain\<close> with a closure that pays the plans it removes, in order.\<close>

fun retain_unpaid ::
  "('a reward_plan \<Rightarrow> 's \<Rightarrow> 's option) \<Rightarrow> u64 \<Rightarrow> 'a reward_plan list \<Rightarrow> 's \<Rightarrow> ('a reward_plan list \<times> 's) option" where
  "retain_unpaid pay reward_block_number [] s = Some ([], s)"
| "retain_unpaid pay reward_block_number (x # xs) s =
     (if rp_block_number x \<le> reward_block_number
      then (case pay x s of None \<Rightarrow> None | Some s' \<Rightarrow> retain_unpaid pay reward_block_number xs s')
      else (case retain_unpaid pay reward_block_number xs s of None \<Rightarrow> None
            | Some (ys, s') \<Rightarrow> Some (x # ys, s')))"

definition reward_block :: "u64 \<Rightarrow> u64 \<Rightarrow> u64" where
  "reward_block bn latency = (if latency < bn then bn - latency else 0)"

definition pow_on_finalize ::
  "('a \<Rightarrow> u128 \<Rightarrow> ('a, 'z) pow_store_scheme \<Rightarrow> ('a, 'z) pow_store_scheme) \<Rightarrow> ('a \<Rightarrow> u8 list)
     \<Rightarrow> u64 \<Rightarrow> ('a, 'z) pow_store_scheme \<Rightarrow> ('a, 'z) pow_store_scheme option" where
  "pow_on_finalize deposit encode bn s =
     (case current_pow_info s of None \<Rightarrow> Some s
      | Some info \<Rightarrow>
        (case get_shard_count s of None \<Rightarrow> None | Some count \<Rightarrow>
          if count = 0 then None
          else (let new_reward_plan =
                      \<lparr>rp_block_number = bn, rp_coinbase = pi_coinbase info,
                       rp_block_reward = block_reward s div ucast count, rp_fee_reward = total_fee s\<rparr>
                in case retain_unpaid (reward deposit encode (pi_coinbase info) (pi_reward_condition info))
                          (reward_block bn (block_reward_latency s)) (reward_plans s @ [new_reward_plan]) s of
                     None \<Rightarrow> None
                   | Some (plans, s') \<Rightarrow> Some (s'\<lparr>reward_plans := plans\<rparr>))))"

text \<open>The deposit of the runtime: the balances module, with the imbalance dropped.\<close>

definition credit :: "'a \<Rightarrow> u128 \<Rightarrow> ('a, 'z) balances_store_scheme \<Rightarrow> ('a, 'z) balances_store_scheme" where
  "credit who amount s = (case deposit_creating who amount s of (p, s') \<Rightarrow> drop_positive p s')"

section \<open>The interface\<close>

fun is_reward :: "'a event \<Rightarrow> bool" where
  "is_reward (Reward _) = True"
| "is_reward _ = False"

text \<open>The plans this shard pays.\<close>

definition own_plan :: "('a \<Rightarrow> u8 list) \<Rightarrow> ('a, 'z) pow_store_scheme \<Rightarrow> 'a reward_plan \<Rightarrow> bool" where
  "own_plan encode s p \<longleftrightarrow>
     (case current_shard_info s of None \<Rightarrow> False
      | Some info \<Rightarrow> shard_num_for encode (rp_coinbase p) (si_count info) = Some (si_num info))"

lemma own_plan_cong: "current_shard_info s' = current_shard_info s \<Longrightarrow> own_plan encode s' p = own_plan encode s p"
  by (simp add: own_plan_def)

definition reward_event :: "'a \<Rightarrow> RewardCondition \<Rightarrow> 'a reward_plan \<Rightarrow> 'a event" where
  "reward_event cb cond p = Reward (p\<lparr>rp_coinbase := (case cond of Normal \<Rightarrow> rp_coinbase p | Slash \<Rightarrow> cb)\<rparr>)"

definition new_plan :: "u64 \<Rightarrow> 'a PowInfo \<Rightarrow> ('a, 'z) pow_store_scheme \<Rightarrow> 'a reward_plan" where
  "new_plan bn info s = \<lparr>rp_block_number = bn, rp_coinbase = pi_coinbase info,
     rp_block_reward = block_reward s div ucast (case get_shard_count s of None \<Rightarrow> 0 | Some c \<Rightarrow> c),
     rp_fee_reward = total_fee s\<rparr>"

text \<open>
  A currency for rewards leaves the storage of the sharding and proof-of-work modules
  alone, deposits no reward events itself, and credits the amount to the account and
  to nobody else when the amount is at least the minimum balance and fits.
\<close>

locale reward_currency =
  fixes deposit :: "'a \<Rightarrow> u128 \<Rightarrow> ('a, 'z) pow_store_scheme \<Rightarrow> ('a, 'z) pow_store_scheme"
    and balance :: "'a \<Rightarrow> ('a, 'z) pow_store_scheme \<Rightarrow> u128"
    and minimum :: "('a, 'z) pow_store_scheme \<Rightarrow> u128"
  assumes shard_kept: "current_shard_info (deposit a v s) = current_shard_info s"
    and rewards_kept: "filter is_reward (events (deposit a v s)) = filter is_reward (events s)"
    and credited: "minimum s \<le> v \<Longrightarrow> unat (balance a s) + unat v < 2 ^ 128 \<Longrightarrow>
      unat (balance a (deposit a v s)) = unat (balance a s) + unat v"
    and others_kept: "x \<noteq> a \<Longrightarrow> balance x (deposit a v s) = balance x s"
    and event_kept: "balance x (deposit_event e s) = balance x s"
begin

lemma reward_cases:
  assumes "reward deposit encode cb cond p s = Some s'"
  shows "if own_plan encode s p
    then s' = deposit_event (reward_event cb cond p)
      (deposit (case cond of Normal \<Rightarrow> rp_coinbase p | Slash \<Rightarrow> cb) (rp_block_reward p + rp_fee_reward p) s)
    else s' = s"
  using assms
  by (auto simp: reward_def get_curr_shard_def get_shard_count_def own_plan_def reward_event_def Let_def
      split: option.splits if_splits)

lemma reward_shard: "reward deposit encode cb cond p s = Some s' \<Longrightarrow> current_shard_info s' = current_shard_info s"
  using reward_cases [of encode cb cond p s s']
  by (auto simp: shard_kept store_defs split: if_splits)

lemma reward_events:
  assumes "reward deposit encode cb cond p s = Some s'"
  shows "filter is_reward (events s') = filter is_reward (events s)
    @ (if own_plan encode s p then [reward_event cb cond p] else [])"
  using reward_cases [OF assms]
  by (auto simp: rewards_kept store_defs reward_event_def split: if_splits)

lemma retain_spec:
  assumes "retain_unpaid (reward deposit encode cb cond) n xs s = Some (ys, s')"
  shows "ys = filter (\<lambda>p. n < rp_block_number p) xs"
    and "current_shard_info s' = current_shard_info s"
    and "filter is_reward (events s') = filter is_reward (events s)
      @ map (reward_event cb cond) (filter (\<lambda>p. rp_block_number p \<le> n \<and> own_plan encode s p) xs)"
proof -
  have "ys = filter (\<lambda>p. n < rp_block_number p) xs \<and> current_shard_info s' = current_shard_info s \<and>
    filter is_reward (events s') = filter is_reward (events s)
      @ map (reward_event cb cond) (filter (\<lambda>p. rp_block_number p \<le> n \<and> own_plan encode s p) xs)"
    using assms
  proof (induction xs arbitrary: s ys)
    case (Cons x xs)
    show ?case
    proof (cases "rp_block_number x \<le> n")
      case True
      then obtain s1 where r: "reward deposit encode cb cond x s = Some s1"
        and t: "retain_unpaid (reward deposit encode cb cond) n xs s1 = Some (ys, s')"
        using Cons.prems by (auto split: option.splits)
      have o: "own_plan encode s1 p = own_plan encode s p" for p
        using reward_shard [OF r] by (rule own_plan_cong)
      show ?thesis using Cons.IH [OF t] True reward_shard [OF r] reward_events [OF r] by (simp add: o)
    next
      case False
      then obtain zs where "retain_unpaid (reward deposit encode cb cond) n xs s = Some (zs, s')"
        and "ys = x # zs"
        using Cons.prems by (auto split: option.splits)
      with Cons.IH [of s zs] False show ?thesis by (simp add: not_le)
    qed
  qed simp
  then show "ys = filter (\<lambda>p. n < rp_block_number p) xs"
    and "current_shard_info s' = current_shard_info s"
    and "filter is_reward (events s') = filter is_reward (events s)
      @ map (reward_event cb cond) (filter (\<lambda>p. rp_block_number p \<le> n \<and> own_plan encode s p) xs)"
    by simp_all
qed

lemma on_finalize_spec:
  assumes "pow_on_finalize deposit encode bn s = Some s'" and "current_pow_info s = Some info"
  shows "reward_plans s' =
      filter (\<lambda>p. reward_block bn (block_reward_latency s) < rp_block_number p) (reward_plans s @ [new_plan bn info s])"
    and "filter is_reward (events s') = filter is_reward (events s)
      @ map (reward_event (pi_coinbase info) (pi_reward_condition info))
          (filter (\<lambda>p. rp_block_number p \<le> reward_block bn (block_reward_latency s) \<and> own_plan encode s p)
            (reward_plans s @ [new_plan bn info s]))"
proof -
  obtain ys t where r: "retain_unpaid (reward deposit encode (pi_coinbase info) (pi_reward_condition info))
      (reward_block bn (block_reward_latency s)) (reward_plans s @ [new_plan bn info s]) s = Some (ys, t)"
    and s': "s' = t\<lparr>reward_plans := ys\<rparr>"
    using assms by (auto simp: pow_on_finalize_def new_plan_def Let_def split: option.splits if_splits)
  show "reward_plans s' =
      filter (\<lambda>p. reward_block bn (block_reward_latency s) < rp_block_number p) (reward_plans s @ [new_plan bn info s])"
    using retain_spec(1) [OF r] by (simp add: s')
  show "filter is_reward (events s') = filter is_reward (events s)
      @ map (reward_event (pi_coinbase info) (pi_reward_condition info))
          (filter (\<lambda>p. rp_block_number p \<le> reward_block bn (block_reward_latency s) \<and> own_plan encode s p)
            (reward_plans s @ [new_plan bn info s]))"
    using retain_spec(3) [OF r] by (simp add: s')
qed

lemma reward_credits:
  assumes "reward deposit encode cb cond p s = Some s'" and "own_plan encode s p"
    and "minimum s \<le> rp_block_reward p + rp_fee_reward p"
    and "unat (balance (case cond of Normal \<Rightarrow> rp_coinbase p | Slash \<Rightarrow> cb) s)
      + unat (rp_block_reward p + rp_fee_reward p) < 2 ^ 128"
  shows "unat (balance x s') = unat (balance x s)
    + (if x = (case cond of Normal \<Rightarrow> rp_coinbase p | Slash \<Rightarrow> cb)
       then unat (rp_block_reward p + rp_fee_reward p) else 0)"
  using reward_cases [OF assms(1)] assms(2-)
  by (simp add: event_kept credited others_kept)

end

section \<open>The balances module as the currency\<close>

lemma credit_eq:
  "unat (free_balance a s) + unat v < 2 ^ 128 \<Longrightarrow>
   credit a v s = (if free_balance a s + v < existential_deposit s \<and> free_balance a s = 0 then drop_positive 0 s
     else drop_positive v (put_free a (free_balance a s + v)
       (if existential_deposit s \<le> free_balance a s + v then ensure_account a (free_balance a s + v) s else s)))"
  by (cases "free_balance a s + v < existential_deposit s") (simp_all add: credit_def deposit_creating_eq)

lemma events_mutators [simp]:
  "filter is_reward (events (put_free a v s)) = filter is_reward (events s)"
  "events (drop_negative v s) = events s" "events (drop_positive v s) = events s"
  "filter is_reward (events (new_account a v s)) = filter is_reward (events s)"
  "current_shard_info (drop_negative v s) = current_shard_info s"
  "current_shard_info (drop_positive v s) = current_shard_info s"
  "current_shard_info (new_account a v s) = current_shard_info s"
  by (simp_all add: balance_defs store_defs Let_def)

interpretation balances_currency: reward_currency credit free_balance existential_deposit
proof unfold_locales
  fix a x :: 'a and v :: u128 and s :: "('a, 'y) balances_store_scheme" and e
  show "current_shard_info (credit a v s) = current_shard_info s"
    by (simp add: credit_def deposit_creating_def make_free_balance_be_def Let_def)
  show "filter is_reward (events (credit a v s)) = filter is_reward (events s)"
    by (simp add: credit_def deposit_creating_def make_free_balance_be_def Let_def)
  show "free_balance x (credit a v s) = free_balance x s" if "x \<noteq> a"
    using that by (simp add: credit_def deposit_creating_def make_free_balance_be_def Let_def)
  show "free_balance x (deposit_event e s) = free_balance x s" by simp
  show "unat (free_balance a (credit a v s)) = unat (free_balance a s) + unat v"
    if "existential_deposit s \<le> v" "unat (free_balance a s) + unat v < 2 ^ 128"
  proof -
    have "unat (free_balance a s + v) = unat (free_balance a s) + unat v" using that(2) by simp
    then have "\<not> free_balance a s + v < existential_deposit s"
      using that(1) by (simp add: word_le_nat_alt word_less_nat_alt)
    with that(2) show ?thesis by (simp add: credit_eq)
  qed
qed

section \<open>Claims\<close>

text \<open>
  The plans that wait for payment after block \<open>bn\<close> with a latency of \<open>l\<close> blocks: one for
  each of the last \<open>l\<close> blocks, in order.
\<close>

definition plans_waiting :: "nat \<Rightarrow> nat \<Rightarrow> 'a reward_plan list \<Rightarrow> bool" where
  "plans_waiting bn l plans \<longleftrightarrow> map (\<lambda>p. unat (rp_block_number p)) plans = [Suc (bn - l)..<Suc bn]"

lemma unat_reward_block: "unat (reward_block bn l) = unat bn - unat l"
  by (auto simp: reward_block_def not_less word_le_nat_alt word_less_nat_alt unat_sub)

lemma filter_upt_greater: "filter (\<lambda>i. k < i) [a..<b] = [max a (Suc k)..<b]"
  by (induction b) (auto simp: max_def)

lemma map_filter_num: "map f (filter (\<lambda>p. P (f p)) xs) = filter P (map f xs)"
  by (induction xs) auto

text \<open>
  C4: rewards are paid exactly once and exactly when they are due. If after block \<open>bn\<close>
  one plan waits for each of the last \<open>l\<close> blocks, then after block \<open>bn + 1\<close> the same
  holds for \<open>bn + 1\<close>, and the reward events of that block are those of a single plan,
  that of block \<open>bn + 1 - l\<close>, if its coinbase belongs to this shard, and none otherwise
  or while the chain is not longer than \<open>l\<close>.
\<close>

theorem reward_paid_once_when_due:
  assumes "pow_on_finalize credit encode (bn + 1) s = Some s'" and "current_pow_info s = Some info"
    and "unat bn + 1 < 2 ^ 64" and "plans_waiting (unat bn) (unat (block_reward_latency s)) (reward_plans s)"
    and "0 < block_reward_latency s"
  shows "plans_waiting (unat bn + 1) (unat (block_reward_latency s)) (reward_plans s') \<and>
    (if block_reward_latency s < bn + 1
     then \<exists>p\<in>set (reward_plans s). rp_block_number p = bn + 1 - block_reward_latency s \<and>
       filter is_reward (events s') = filter is_reward (events s)
         @ (if own_plan encode s p then [reward_event (pi_coinbase info) (pi_reward_condition info) p] else [])
     else filter is_reward (events s') = filter is_reward (events s))"
proof -
  let ?k = "unat bn" and ?l = "unat (block_reward_latency s)"
  let ?num = "\<lambda>p :: 'a reward_plan. unat (rp_block_number p)" and ?new = "new_plan (bn + 1) info s"
  let ?r = "reward_block (bn + 1) (block_reward_latency s)"
  have bn1: "unat (bn + 1) = Suc ?k" using assms(3) by simp
  have r: "unat ?r = Suc ?k - ?l" by (simp add: unat_reward_block bn1)
  have lpos: "0 < ?l" using assms(5) by (simp add: word_less_nat_alt)
  have num_new: "?num ?new = Suc ?k" by (simp add: new_plan_def bn1)
  have nums: "map ?num (reward_plans s @ [?new]) = [Suc (?k - ?l)..<Suc (Suc ?k)]"
    using assms(4) num_new by (simp add: plans_waiting_def)
  note spec = balances_currency.on_finalize_spec [OF assms(1,2)]
  have "map ?num (reward_plans s') = filter (\<lambda>i. unat ?r < i) (map ?num (reward_plans s @ [?new]))"
    unfolding spec(1) word_less_nat_alt by (rule map_filter_num)
  moreover have "max (Suc (?k - ?l)) (Suc (Suc ?k - ?l)) = Suc (Suc ?k - ?l)" by simp
  ultimately have w: "plans_waiting (?k + 1) ?l (reward_plans s')"
    unfolding nums filter_upt_greater plans_waiting_def r by (simp only: Suc_eq_plus1 [symmetric])
  show ?thesis
  proof (cases "?l \<le> ?k")
    case True
    then have "map ?num (reward_plans s) = Suc (?k - ?l) # [Suc (Suc (?k - ?l))..<Suc ?k]"
      using assms(4) lpos unfolding plans_waiting_def by (subst upt_conv_Cons [symmetric]) simp_all
    then obtain p ps where ps: "reward_plans s = p # ps" "?num p = Suc (?k - ?l)"
      "map ?num ps = [Suc (Suc (?k - ?l))..<Suc ?k]"
      by auto
    have late: "?r < rp_block_number q" if "q \<in> set (ps @ [?new])" for q
    proof -
      have "?num q \<in> set (map ?num ps @ [Suc ?k])" using that num_new by auto
      then have "Suc (?k - ?l) < ?num q" using ps(3) lpos True by auto
      then show ?thesis using r True by (simp add: word_less_nat_alt)
    qed
    have due: "filter (\<lambda>q. rp_block_number q \<le> ?r \<and> own_plan encode s q) (reward_plans s @ [?new])
        = (if own_plan encode s p then [p] else [])"
    proof -
      have "filter (\<lambda>q. rp_block_number q \<le> ?r \<and> own_plan encode s q) (ps @ [?new]) = []"
        using late by (intro filter_False) (auto simp: not_le)
      moreover have "rp_block_number p \<le> ?r" using ps(2) r True by (simp add: word_le_nat_alt)
      ultimately show ?thesis by (simp add: ps(1))
    qed
    have "rp_block_number p = bn + 1 - block_reward_latency s"
      using ps(2) True bn1 by (simp add: word_unat_eq_iff unat_sub word_le_nat_alt)
    moreover have "block_reward_latency s < bn + 1" using True bn1 by (simp add: word_less_nat_alt)
    moreover have "filter is_reward (events s') = filter is_reward (events s)
        @ (if own_plan encode s p then [reward_event (pi_coinbase info) (pi_reward_condition info) p] else [])"
      using spec(2) unfolding due by (cases "own_plan encode s p") simp_all
    moreover have "p \<in> set (reward_plans s)" by (simp add: ps(1))
    ultimately show ?thesis using w by auto
  next
    case False
    have "filter (\<lambda>q. rp_block_number q \<le> ?r \<and> own_plan encode s q) (reward_plans s @ [?new]) = []"
    proof (rule filter_False, rule ballI)
      fix q assume "q \<in> set (reward_plans s @ [?new])"
      then have "?num q \<in> set [Suc (?k - ?l)..<Suc (Suc ?k)]" unfolding nums [symmetric] set_map by (rule imageI)
      then have "0 < ?num q" by auto
      then show "\<not> (rp_block_number q \<le> ?r \<and> own_plan encode s q)"
        using r False by (simp add: word_le_nat_alt)
    qed
    moreover have "\<not> block_reward_latency s < bn + 1" using False bn1 by (simp add: word_less_nat_alt)
    ultimately show ?thesis using w spec(2) by simp
  qed
qed

definition demo_reward_store :: "u8 list balances_store" where
  "demo_reward_store = demo_balances
     \<lparr>block_reward_latency := 1, current_pow_info := Some \<lparr>pi_coinbase = [0, 3], pi_reward_condition = Normal\<rparr>,
      reward_plans := [\<lparr>rp_block_number = 9, rp_coinbase = [0, 1], rp_block_reward = 32, rp_fee_reward = 5\<rparr>]\<rparr>"

lemma demo_reward_runs: "\<exists>s'. pow_on_finalize credit id 10 demo_reward_store = Some s'"
  by (simp add: demo_reward_store_def demo_balances_def pow_on_finalize_def get_shard_count_def get_curr_shard_def
      reward_block_def reward_def Let_def)

theorem reward_paid_once_when_due_witness:
  "\<exists>s'. pow_on_finalize credit id 10 demo_reward_store = Some s' \<and> plans_waiting 10 1 (reward_plans s')"
proof -
  obtain s' where f: "pow_on_finalize credit id (9 + 1) demo_reward_store = Some s'"
    using demo_reward_runs by auto
  show ?thesis
    using f reward_paid_once_when_due [OF f]
    by (simp add: demo_reward_store_def demo_balances_def plans_waiting_def)
qed





end
