(* ===== verification/Voter_Set.thy ===== *)
theory Voter_Set
  imports Yee_Base "HOL-Library.Monad_Syntax"
begin

text \<open>
  The data of the finality gadget, \<open>core/finality-grandpa/src/lib.rs\<close>: votes, commits
  and their compact form, voter sets and the threshold. The lemmas show that the
  compact form loses nothing, and that two sets of voters of threshold weight share
  more weight than the protocol assumes faulty.
\<close>

section \<open>Votes and commits\<close>

text \<open>Block numbers are a parameter of the source; the chain uses \<open>u64\<close>.\<close>

record 'h Prevote =
  pv_target_hash :: 'h
  pv_target_number :: u64

record 'h Precommit =
  pc_target_hash :: 'h
  pc_target_number :: u64

datatype 'h Message = PrevoteMsg "'h Prevote" | PrecommitMsg "'h Precommit"

fun message_target :: "'h Message \<Rightarrow> 'h \<times> u64" where
  "message_target (PrevoteMsg v) = (pv_target_hash v, pv_target_number v)"
| "message_target (PrecommitMsg v) = (pc_target_hash v, pc_target_number v)"

record ('i, 'v, 's) Equivocation =
  eq_round_number :: u64
  eq_identity :: 'i
  eq_first :: "'v \<times> 's"
  eq_second :: "'v \<times> 's"

record ('h, 's, 'i) SignedPrecommit =
  sp_precommit :: "'h Precommit"
  sp_signature :: 's
  sp_id :: 'i

record ('h, 's, 'i) Commit =
  cm_target_hash :: 'h
  cm_target_number :: u64
  cm_precommits :: "('h, 's, 'i) SignedPrecommit list"

record ('h, 's, 'i) CompactCommit =
  cc_target_hash :: 'h
  cc_target_number :: u64
  cc_precommits :: "'h Precommit list"
  cc_auth_data :: "('s \<times> 'i) list"

definition commit_of_compact :: "('h, 's, 'i) CompactCommit \<Rightarrow> ('h, 's, 'i) Commit" where
  "commit_of_compact commit = \<lparr>cm_target_hash = cc_target_hash commit, cm_target_number = cc_target_number commit,
     cm_precommits = map (\<lambda>(precommit, (signature, id')). \<lparr>sp_precommit = precommit, sp_signature = signature, sp_id = id'\<rparr>)
       (zip (cc_precommits commit) (cc_auth_data commit))\<rparr>"

definition compact_of_commit :: "('h, 's, 'i) Commit \<Rightarrow> ('h, 's, 'i) CompactCommit" where
  "compact_of_commit commit = \<lparr>cc_target_hash = cm_target_hash commit, cc_target_number = cm_target_number commit,
     cc_precommits = map sp_precommit (cm_precommits commit),
     cc_auth_data = map (\<lambda>signed. (sp_signature signed, sp_id signed)) (cm_precommits commit)\<rparr>"

section \<open>Voter sets\<close>

record VoterInfo =
  canon_idx :: nat
  vi_weight :: u64

record 'i VoterSet =
  vs_weights :: "'i \<rightharpoonup> VoterInfo"
  vs_voters :: "('i \<times> u64) list"
  vs_threshold :: u64

definition threshold :: "u64 \<Rightarrow> u64" where
  "threshold total_weight = (let faulty = saturating_sub total_weight 1 div 3 in total_weight - faulty)"

definition voter_info :: "'i VoterSet \<Rightarrow> 'i \<Rightarrow> VoterInfo option" where
  "voter_info vs i = vs_weights vs i"

definition voters_len :: "'i VoterSet \<Rightarrow> nat" where
  "voters_len vs = length (vs_voters vs)"

definition contains_key :: "'i VoterSet \<Rightarrow> 'i \<Rightarrow> bool" where
  "contains_key vs i \<longleftrightarrow> vs_weights vs i \<noteq> None"

definition weight_by_index :: "'i VoterSet \<Rightarrow> nat \<Rightarrow> u64 option" where
  "weight_by_index vs idx = (if idx < length (vs_voters vs) then Some (snd (vs_voters vs ! idx)) else None)"

definition voters_total_weight :: "'i VoterSet \<Rightarrow> u64" where
  "voters_total_weight vs = sum_list (map snd (vs_voters vs))"

text \<open>The loop of \<open>from_iter\<close> from index \<open>idx\<close> on, with what has been collected so far.\<close>

fun from_iter_loop ::
  "nat \<Rightarrow> ('i \<times> u64) list \<Rightarrow> ('i \<times> u64) list \<Rightarrow> ('i \<rightharpoonup> VoterInfo) \<Rightarrow> u64 \<Rightarrow> 'i VoterSet" where
  "from_iter_loop idx [] voters weights total_weight =
     \<lparr>vs_weights = weights, vs_voters = voters, vs_threshold = threshold total_weight\<rparr>"
| "from_iter_loop idx ((i, weight) # rest) voters weights total_weight =
     from_iter_loop (Suc idx) rest (voters @ [(i, weight)])
       (weights(i \<mapsto> \<lparr>canon_idx = idx, vi_weight = weight\<rparr>)) (total_weight + weight)"

definition voter_set_from_iter :: "('i \<times> u64) list \<Rightarrow> 'i VoterSet" where
  "voter_set_from_iter iterable = from_iter_loop 0 iterable [] Map.empty 0"

section \<open>Lemmas\<close>

lemma compact_commit_roundtrip: "commit_of_compact (compact_of_commit c) = c"
proof -
  have "map (\<lambda>(p, s, i). \<lparr>sp_precommit = p, sp_signature = s, sp_id = i\<rparr>)
      (zip (map sp_precommit ps) (map (\<lambda>q. (sp_signature q, sp_id q)) ps)) = ps" for ps :: "('a, 'b, 'c) SignedPrecommit list"
    by (induction ps) simp_all
  then show ?thesis by (simp add: commit_of_compact_def compact_of_commit_def)
qed

lemma unat_threshold: "unat (threshold t) = unat t - (unat t - 1) div 3"
proof -
  have f: "unat (saturating_sub t 1 div 3) = (unat t - 1) div 3"
    by (simp add: unat_div unat_saturating_sub)
  then have "saturating_sub t 1 div 3 \<le> t" by (simp add: word_le_nat_alt)
  then show ?thesis unfolding threshold_def Let_def by (simp add: f)
qed

lemma from_iter_voters: "vs_voters (from_iter_loop idx xs voters weights t) = voters @ xs"
  by (induction idx xs voters weights t rule: from_iter_loop.induct) (simp_all del: fun_upd_apply)

lemma from_iter_threshold:
  "vs_threshold (from_iter_loop idx xs voters weights t) = threshold (t + sum_list (map snd xs))"
  by (induction idx xs voters weights t rule: from_iter_loop.induct) (simp_all add: add.assoc del: fun_upd_apply)

lemma from_iter_absent:
  "i \<notin> fst ` set xs \<Longrightarrow> vs_weights (from_iter_loop idx xs voters weights t) i = weights i"
  by (induction idx xs voters weights t rule: from_iter_loop.induct) auto

lemma from_iter_present:
  "distinct (map fst xs) \<Longrightarrow> j < length xs \<Longrightarrow>
    vs_weights (from_iter_loop idx xs voters weights t) (fst (xs ! j))
      = Some \<lparr>canon_idx = idx + j, vi_weight = snd (xs ! j)\<rparr>"
proof (induction idx xs voters weights t arbitrary: j rule: from_iter_loop.induct)
  case (2 idx i w rest voters weights t)
  show ?case
  proof (cases j)
    case 0
    with 2 show ?thesis by (simp add: from_iter_absent)
  next
    case (Suc k)
    with 2 show ?thesis by (simp del: fun_upd_apply)
  qed
qed simp

lemma from_iter_spec:
  "vs_voters (voter_set_from_iter xs) = xs"
  "vs_threshold (voter_set_from_iter xs) = threshold (sum_list (map snd xs))"
  "distinct (map fst xs) \<Longrightarrow> j < length xs \<Longrightarrow>
     voter_info (voter_set_from_iter xs) (fst (xs ! j)) = Some \<lparr>canon_idx = j, vi_weight = snd (xs ! j)\<rparr>"
  "i \<notin> fst ` set xs \<Longrightarrow> voter_info (voter_set_from_iter xs) i = None"
  by (simp_all add: voter_set_from_iter_def voter_info_def from_iter_voters from_iter_threshold
      from_iter_present from_iter_absent)

section \<open>Quorums\<close>

text \<open>
  A rule for the size of a quorum: what may be missing from it is less than a third
  of the total.
\<close>

locale quorum_rule =
  fixes total thr :: nat
  assumes thr_le: "thr \<le> total"
    and faulty_third: "0 < total \<Longrightarrow> 3 * (total - thr) < total"
begin

lemma intersection_weight:
  assumes "finite V" and "sum w V = total" and "0 < total"
    and "A \<subseteq> V" "B \<subseteq> V" and "thr \<le> sum w A" "thr \<le> sum w B"
  shows "total - thr < sum w (A \<inter> B)"
proof -
  have f: "finite A" "finite B" using assms by (auto intro: finite_subset)
  have "sum w A + sum w B = sum w (A \<union> B) + sum w (A \<inter> B)"
    using f by (simp add: sum.union_inter)
  moreover have "sum w (A \<union> B) \<le> total"
    using assms by (auto simp flip: assms(2) intro: sum_mono2)
  ultimately show ?thesis using assms(6,7) faulty_third [OF assms(3)] thr_le by linarith
qed

lemma intersection_honest:
  assumes "finite V" and "sum w V = total" and "0 < total"
    and "A \<subseteq> V" "B \<subseteq> V" and "thr \<le> sum w A" "thr \<le> sum w B"
    and "F \<subseteq> V" and "sum w F \<le> total - thr"
  shows "\<exists>i\<in>A \<inter> B. i \<notin> F"
proof (rule ccontr)
  assume "\<not> (\<exists>i\<in>A \<inter> B. i \<notin> F)"
  then have "A \<inter> B \<subseteq> F" by blast
  then have "sum w (A \<inter> B) \<le> sum w F"
    using assms(1,8) by (intro sum_mono2) (auto intro: finite_subset)
  with intersection_weight [OF assms(1-7)] assms(9) show False by simp
qed

end

interpretation grandpa_quorum: quorum_rule "unat t" "unat (threshold t)" for t :: u64
  by unfold_locales (auto simp: unat_threshold)

text \<open>The weight of an identity as a natural number, 0 for strangers.\<close>

definition voter_weight :: "'i VoterSet \<Rightarrow> 'i \<Rightarrow> nat" where
  "voter_weight vs i = (case voter_info vs i of None \<Rightarrow> 0 | Some info \<Rightarrow> unat (vi_weight info))"

lemma unat_sum_list:
  "sum_list (map unat ws) < 2 ^ LENGTH('w) \<Longrightarrow> unat (sum_list ws :: 'w::len word) = sum_list (map unat ws)"
proof (induction ws)
  case (Cons a ws)
  then have "unat (sum_list ws) = sum_list (map unat ws)" by simp
  moreover from this Cons.prems have "unat a + unat (sum_list ws) < 2 ^ LENGTH('w)" by simp
  ultimately show ?case by simp
qed simp

lemma sum_voter_weight:
  assumes d: "distinct (map fst xs)"
  shows "sum (voter_weight (voter_set_from_iter xs)) (fst ` set xs) = sum_list (map (unat \<circ> snd) xs)"
proof -
  have "voter_weight (voter_set_from_iter xs) (fst p) = unat (snd p)" if "p \<in> set xs" for p
    using that from_iter_spec(3) [OF d] by (auto simp: in_set_conv_nth voter_weight_def)
  then have "map (voter_weight (voter_set_from_iter xs)) (map fst xs) = map (unat \<circ> snd) xs" by simp
  moreover have "sum (voter_weight (voter_set_from_iter xs)) (set (map fst xs))
      = sum_list (map (voter_weight (voter_set_from_iter xs)) (map fst xs))"
    using d by (simp only: sum_list_distinct_conv_sum_set)
  ultimately show ?thesis by (simp only: list.set_map)
qed



text \<open>
  C18: the compact form of a commit loses nothing: expanding the compact form of any
  commit gives the commit back, and compacting an expanded compact commit whose
  signatures are as many as its precommits gives the compact commit back.
\<close>

theorem compact_commit_lossless:
  "commit_of_compact (compact_of_commit c) = c
   \<and> (length (cc_precommits d) = length (cc_auth_data d) \<longrightarrow> compact_of_commit (commit_of_compact d) = d)"
proof -
  have "map sp_precommit (map (\<lambda>(p, s, i). \<lparr>sp_precommit = p, sp_signature = s, sp_id = i\<rparr>) (zip ps as)) = ps
    \<and> map (\<lambda>q. (sp_signature q, sp_id q))
        (map (\<lambda>(p, s, i). \<lparr>sp_precommit = p, sp_signature = s, sp_id = i\<rparr>) (zip ps as)) = as"
    if "length ps = length as" for ps :: "'d Precommit list" and as :: "('e \<times> 'f) list"
    using that by (induction ps as rule: list_induct2) auto
  then show ?thesis
    by (simp add: compact_commit_roundtrip) (simp add: commit_of_compact_def compact_of_commit_def)
qed

theorem compact_commit_lossless_witness:
  "compact_of_commit (commit_of_compact \<lparr>cc_target_hash = 7::nat, cc_target_number = 1,
     cc_precommits = [\<lparr>pc_target_hash = 8, pc_target_number = 2\<rparr>], cc_auth_data = [(1::nat, 2::nat)]\<rparr>)
   = \<lparr>cc_target_hash = 7, cc_target_number = 1,
     cc_precommits = [\<lparr>pc_target_hash = 8, pc_target_number = 2\<rparr>], cc_auth_data = [(1, 2)]\<rparr>"
proof -
  let ?d = "\<lparr>cc_target_hash = 7::nat, cc_target_number = 1,
     cc_precommits = [\<lparr>pc_target_hash = 8, pc_target_number = 2\<rparr>], cc_auth_data = [(1::nat, 2::nat)]\<rparr>"
  show ?thesis using compact_commit_lossless [of "commit_of_compact ?d" ?d] by simp
qed

end
