(* ===== verification/Bitfields.thy ===== *)
theory Bitfields
  imports Voter_Set
begin

unbundle bit_operations_syntax

text \<open>
  The bitfields that record which voters voted for a block or equivocated,
  \<open>core/finality-grandpa/src/bitfield.rs\<close>: two bits per voter, from the most
  significant bit of the first word on. The abstraction of a bitfield is the set of
  bits set; merging is union, overlap is intersection, setting a bit adds it, and
  the weight computed by the shift loop is the sum of the weights of the voters in
  the set.
\<close>

section \<open>Operations\<close>

datatype bitfield_error = IndexOutOfBounds nat nat | LengthMismatch nat nat

datatype Bitfield = Blank | Live "u64 list"

fun bitfield_merge :: "Bitfield \<Rightarrow> Bitfield \<Rightarrow> bitfield_error + Bitfield" where
  "bitfield_merge Blank Blank = Inr Blank"
| "bitfield_merge (Live live) Blank = Inr (Live live)"
| "bitfield_merge Blank (Live live) = Inr (Live live)"
| "bitfield_merge (Live a) (Live b) =
     (if length a \<noteq> length b then Inl (LengthMismatch (length a) (length b))
      else Inr (Live (map (\<lambda>(a, b). a OR b) (zip a b))))"

fun overlap :: "Bitfield \<Rightarrow> Bitfield \<Rightarrow> bitfield_error + Bitfield" where
  "overlap (Live a) (Live b) =
     (if length a \<noteq> length b then Inl (LengthMismatch (length a) (length b))
      else Inr (Live (map (\<lambda>(a, b). a AND b) (zip a b))))"
| "overlap _ _ = Inr Blank"

definition with_voters :: "nat \<Rightarrow> u64 list" where
  "with_voters n_voters = (let n_bits = n_voters * 2; n_words = (n_bits + 63) div 64 in replicate n_words 0)"

definition live_set_bit :: "nat \<Rightarrow> nat \<Rightarrow> u64 list \<Rightarrow> bitfield_error + u64 list" where
  "live_set_bit bit_idx n_voters bits =
     (let word_off = bit_idx div 64; bit_off = bit_idx mod 64
      in if word_off < length bits
         then Inr (bits[word_off := bits ! word_off OR push_bit (63 - bit_off) 1])
         else Inl (IndexOutOfBounds (bit_idx div 2) n_voters))"

text \<open>\<open>bitfield_set_bit\<close> takes the bitfield out before setting the bit: after an error it is blank.\<close>

definition bitfield_set_bit :: "nat \<Rightarrow> nat \<Rightarrow> Bitfield \<Rightarrow> (bitfield_error + unit) \<times> Bitfield" where
  "bitfield_set_bit bit' n_voters self =
     (let live = (case self of Blank \<Rightarrow> with_voters n_voters | Live live \<Rightarrow> live)
      in case live_set_bit bit' n_voters live of
           Inl e \<Rightarrow> (Inl e, Blank)
         | Inr live \<Rightarrow> (Inr (), Live live))"

text \<open>The inner loop over a word from voter \<open>i\<close>, with \<open>k\<close> iterations left, and the fold over the words.\<close>

fun word_loop :: "(nat \<Rightarrow> u64) \<Rightarrow> nat \<Rightarrow> nat \<Rightarrow> nat \<Rightarrow> u64 \<Rightarrow> u64 \<times> u64 \<Rightarrow> u64 \<times> u64" where
  "word_loop lookup val_idx i 0 word acc = acc"
| "word_loop lookup val_idx i (Suc k) word (prevote, precommit) =
     (if word = 0 then (prevote, precommit)
      else word_loop lookup val_idx (Suc i) k (push_bit 2 word)
        (if word AND push_bit 63 1 = push_bit 63 1 then prevote + lookup (val_idx + i) else prevote,
         if word AND push_bit 62 1 = push_bit 62 1 then precommit + lookup (val_idx + i) else precommit))"

fun bits_fold :: "(nat \<Rightarrow> u64) \<Rightarrow> nat \<Rightarrow> u64 list \<Rightarrow> u64 \<times> u64 \<Rightarrow> u64 \<times> u64" where
  "bits_fold lookup val_idx [] acc = acc"
| "bits_fold lookup val_idx (word # words) acc =
     bits_fold lookup (val_idx + 32) words (word_loop lookup val_idx 0 32 word acc)"

fun bitfield_total_weight :: "(nat \<Rightarrow> u64) \<Rightarrow> Bitfield \<Rightarrow> u64 \<times> u64" where
  "bitfield_total_weight lookup Blank = (0, 0)"
| "bitfield_total_weight lookup (Live live) = bits_fold lookup 0 live (0, 0)"

text \<open>The data shared between the bitfields of a round.\<close>

record Shared =
  sh_n_voters :: nat
  sh_equivocators :: Bitfield

definition shared_new :: "nat \<Rightarrow> Shared" where
  "shared_new n_voters = \<lparr>sh_n_voters = n_voters, sh_equivocators = Blank\<rparr>"

definition prevote_bitfield :: "Shared \<Rightarrow> VoterInfo \<Rightarrow> bitfield_error + Bitfield" where
  "prevote_bitfield sh info =
     map_sum id Live (live_set_bit (canon_idx info * 2) (sh_n_voters sh) (with_voters (sh_n_voters sh)))"

definition precommit_bitfield :: "Shared \<Rightarrow> VoterInfo \<Rightarrow> bitfield_error + Bitfield" where
  "precommit_bitfield sh info =
     map_sum id Live (live_set_bit (canon_idx info * 2 + 1) (sh_n_voters sh) (with_voters (sh_n_voters sh)))"

definition equivocated_prevote :: "Shared \<Rightarrow> VoterInfo \<Rightarrow> (bitfield_error + unit) \<times> Shared" where
  "equivocated_prevote sh info =
     (case bitfield_set_bit (canon_idx info * 2) (sh_n_voters sh) (sh_equivocators sh) of
        (r, b) \<Rightarrow> (r, sh\<lparr>sh_equivocators := b\<rparr>))"

definition equivocated_precommit :: "Shared \<Rightarrow> VoterInfo \<Rightarrow> (bitfield_error + unit) \<times> Shared" where
  "equivocated_precommit sh info =
     (case bitfield_set_bit (canon_idx info * 2 + 1) (sh_n_voters sh) (sh_equivocators sh) of
        (r, b) \<Rightarrow> (r, sh\<lparr>sh_equivocators := b\<rparr>))"

section \<open>The set a bitfield stands for\<close>

fun bf_set :: "Bitfield \<Rightarrow> nat set" where
  "bf_set Blank = {}"
| "bf_set (Live bits) = {p. p < 64 * length bits \<and> bit (bits ! (p div 64)) (63 - p mod 64)}"

definition prevoters :: "Bitfield \<Rightarrow> nat set" where "prevoters b = {i. 2 * i \<in> bf_set b}"
definition precommitters :: "Bitfield \<Rightarrow> nat set" where "precommitters b = {i. 2 * i + 1 \<in> bf_set b}"

lemma finite_bf_set [simp]: "finite (bf_set b)"
  by (cases b) simp_all

lemma finite_voters [simp]: "finite (prevoters b)" "finite (precommitters b)"
  using finite_vimageI [OF finite_bf_set, of "\<lambda>i. 2 * i" b] finite_vimageI [OF finite_bf_set, of "\<lambda>i. 2 * i + 1" b]
  by (simp_all add: prevoters_def precommitters_def vimage_def inj_def)

lemma bf_set_merge: "bitfield_merge a b = Inr c \<Longrightarrow> bf_set c = bf_set a \<union> bf_set b"
  by (induction a b rule: bitfield_merge.induct)
    (auto simp: bit_or_iff less_mult_imp_div_less mult.commute split: if_splits)

lemma bf_set_overlap: "overlap a b = Inr c \<Longrightarrow> bf_set c = bf_set a \<inter> bf_set b"
  by (induction a b rule: overlap.induct)
    (auto simp: bit_and_iff less_mult_imp_div_less mult.commute split: if_splits)

lemma bf_set_with_voters [simp]: "bf_set (Live (with_voters n)) = {}"
  by (auto simp: with_voters_def Let_def less_mult_imp_div_less mult.commute)

lemma length_with_voters: "2 * n \<le> 64 * length (with_voters n)"
  by (simp add: with_voters_def Let_def)

lemma bf_set_live_set_bit:
  assumes "live_set_bit i n bits = Inr bits'"
  shows "bf_set (Live bits') = insert i (bf_set (Live bits))" and "length bits' = length bits"
proof -
  have l: "i div 64 < length bits" and b: "bits' = bits[i div 64 := bits ! (i div 64) OR push_bit (63 - i mod 64) 1]"
    using assms by (auto simp: live_set_bit_def Let_def split: if_splits)
  show "length bits' = length bits" by (simp add: b)
  have i: "i < 64 * length bits" using l by (simp add: div_less_iff_less_mult mult.commute)
  have "p < 64 * length bits \<Longrightarrow> bit (bits' ! (p div 64)) (63 - p mod 64) \<longleftrightarrow>
      p = i \<or> bit (bits ! (p div 64)) (63 - p mod 64)" for p
  proof (cases "p div 64 = i div 64")
    case True
    have "63 - p mod 64 = 63 - i mod 64 \<longleftrightarrow> p mod 64 = i mod 64"
      using mod_less_divisor [of 64 p] mod_less_divisor [of 64 i] by linarith
    also have "\<dots> \<longleftrightarrow> p = i" using True by (metis div_mult_mod_eq)
    finally have e: "63 - p mod 64 = 63 - i mod 64 \<longleftrightarrow> p = i" .
    show ?thesis using True l by (auto simp: b bit_simps simp flip: e)
  next
    case False
    then show ?thesis by (auto simp: b)
  qed
  with i show "bf_set (Live bits') = insert i (bf_set (Live bits))" by (auto simp: \<open>length bits' = length bits\<close>)
qed

section \<open>The weight loop\<close>

lemma and_exp_iff_bit: "w AND push_bit n 1 = push_bit n (1 :: u64) \<longleftrightarrow> bit w n" if "n < 64"
proof -
  have "bit (push_bit n (1 :: u64)) n" using that by (simp add: bit_simps)
  moreover have "w AND push_bit n 1 = push_bit n (1 :: u64)" if "bit w n"
    using that by (intro bit_word_eqI) (auto simp: bit_simps)
  ultimately show ?thesis by (metis bit_and_iff)
qed

lemma word_sum_shift:
  fixes lookup :: "nat \<Rightarrow> u64" and word :: u64
  assumes "k \<le> 31" and "b = 62 \<or> b = 63"
  shows "(\<Sum>j<Suc k. if bit word (b - 2 * j) then lookup (v + i + j) else 0) =
    (if bit word b then lookup (v + i) else 0)
      + (\<Sum>j<k. if bit (push_bit 2 word) (b - 2 * j) then lookup (v + Suc i + j) else 0)"
proof -
  have "bit (push_bit 2 word) (b - 2 * j) \<longleftrightarrow> bit word (b - 2 * Suc j)" if "j < k" for j
  proof -
    have "b - 2 * j - 2 = b - 2 * Suc j" "2 \<le> b - 2 * j" "b - 2 * j < 64" using that assms by auto
    then show ?thesis by (simp add: bit_simps)
  qed
  then have "(\<Sum>j<k. if bit word (b - 2 * Suc j) then lookup (v + i + Suc j) else 0)
      = (\<Sum>j<k. if bit (push_bit 2 word) (b - 2 * j) then lookup (v + Suc i + j) else 0)"
    by (intro sum.cong) simp_all
  then show ?thesis unfolding sum.lessThan_Suc_shift by simp
qed

lemma word_loop_sum:
  assumes "k \<le> 32"
  shows "word_loop lookup v i k word (p, q) =
    (p + (\<Sum>j<k. if bit word (63 - 2 * j) then lookup (v + i + j) else 0),
     q + (\<Sum>j<k. if bit word (62 - 2 * j) then lookup (v + i + j) else 0))"
  using assms
proof (induction k arbitrary: i word p q)
  case (Suc k)
  show ?case
  proof (cases "word = 0")
    case False
    then have "word_loop lookup v i (Suc k) word (p, q) = word_loop lookup v (Suc i) k (push_bit 2 word)
        (if bit word 63 then p + lookup (v + i) else p, if bit word 62 then q + lookup (v + i) else q)"
      using and_exp_iff_bit [of 63 word] and_exp_iff_bit [of 62 word] by simp
    also have "\<dots> = (p + (\<Sum>j<Suc k. if bit word (63 - 2 * j) then lookup (v + i + j) else 0),
        q + (\<Sum>j<Suc k. if bit word (62 - 2 * j) then lookup (v + i + j) else 0))"
      using Suc.prems by (subst Suc.IH) (simp_all add: word_sum_shift del: sum.lessThan_Suc)
    finally show ?thesis .
  qed simp
qed simp

lemma sum_split_block:
  "(\<Sum>j<32 * Suc n. f j) = (\<Sum>j<32. f j) + (\<Sum>j<32 * n. f (32 + j :: nat) :: u64)"
proof -
  have "(\<Sum>j<32 + 32 * n. f j) = (\<Sum>j<32. f j) + (\<Sum>j=32..<32 + 32 * n. f j)"
    by (simp add: sum.lessThan_Suc atLeast0LessThan [symmetric] sum.atLeastLessThan_concat)
  moreover have "(\<Sum>j=32..<32 + 32 * n. f j) = (\<Sum>j<32 * n. f (32 + j))"
    using sum.shift_bounds_nat_ivl [of f 0 32 "32 * n"] by (simp add: add.commute atLeast0LessThan)
  ultimately show ?thesis by simp
qed

lemma bits_fold_sum:
  "bits_fold lookup v words (p, q) =
    (p + (\<Sum>j<32 * length words. if bit (words ! (j div 32)) (63 - 2 * (j mod 32)) then lookup (v + j) else 0),
     q + (\<Sum>j<32 * length words. if bit (words ! (j div 32)) (62 - 2 * (j mod 32)) then lookup (v + j) else 0))"
proof (induction words arbitrary: v p q)
  case (Cons w ws)
  have div: "(32 + j) div 32 = Suc (j div 32)" for j :: nat by simp
  have block: "(\<Sum>j<32 * length (w # ws). if bit ((w # ws) ! (j div 32)) (b - 2 * (j mod 32)) then lookup (v + j) else 0)
      = (\<Sum>j<32. if bit w (b - 2 * j) then lookup (v + 0 + j) else 0)
        + (\<Sum>j<32 * length ws. if bit (ws ! (j div 32)) (b - 2 * (j mod 32)) then lookup (v + 32 + j) else 0)" for b
    unfolding list.size(4) add_Suc_right add_0_right sum_split_block by (simp add: div add.assoc cong: if_cong)
  show ?case unfolding block by (simp add: word_loop_sum Cons.IH add.assoc)
qed simp

lemma bit_position:
  "2 * j \<in> bf_set (Live bits) \<longleftrightarrow> j < 32 * length bits \<and> bit (bits ! (j div 32)) (63 - 2 * (j mod 32))"
  "2 * j + 1 \<in> bf_set (Live bits) \<longleftrightarrow> j < 32 * length bits \<and> bit (bits ! (j div 32)) (62 - 2 * (j mod 32))"
proof -
  have d: "2 * j div 64 = j div 32" "2 * j mod 64 = 2 * (j mod 32)"
    "(2 * j + 1) div 64 = j div 32" "(2 * j + 1) mod 64 = 2 * (j mod 32) + 1"
    using div_mult2_eq [of "2 * j + 1" 2 32] mod_mult2_eq [of "2 * j + 1" 2 32]
    by (simp_all add: div_mult_mult1 [of 2 j 32, simplified] mod_mult_mult1 [of 2 j 32, simplified])
  have l: "2 * j < 64 * n \<longleftrightarrow> j < 32 * n" "2 * j + 1 < 64 * n \<longleftrightarrow> j < 32 * n" for n by auto
  show "2 * j \<in> bf_set (Live bits) \<longleftrightarrow> j < 32 * length bits \<and> bit (bits ! (j div 32)) (63 - 2 * (j mod 32))"
    unfolding bf_set.simps mem_Collect_eq d l by simp
  show "2 * j + 1 \<in> bf_set (Live bits) \<longleftrightarrow> j < 32 * length bits \<and> bit (bits ! (j div 32)) (62 - 2 * (j mod 32))"
    unfolding bf_set.simps mem_Collect_eq d l by simp
qed

lemma sum_if_set: "(\<Sum>j<n. if P j then f j else 0) = sum f {j. j < n \<and> P j}" for f :: "nat \<Rightarrow> u64"
proof -
  have "{j \<in> {..<n}. P j} = {j. j < n \<and> P j}" by auto
  then show ?thesis using sum.inter_filter [of "{..<n}" f P] by simp
qed

lemma total_weight_sets: "bitfield_total_weight lookup b = (sum lookup (prevoters b), sum lookup (precommitters b))"
proof (cases b)
  case (Live bits)
  then show ?thesis
    unfolding prevoters_def precommitters_def Live bit_position
    by (simp only: bitfield_total_weight.simps bits_fold_sum sum_if_set add_0)
qed (simp add: prevoters_def precommitters_def)

section \<open>The bits of the voters\<close>

text \<open>The bits of \<open>n\<close> voters fit into the fields made for \<open>n\<close> voters.\<close>

lemma live_set_bit_voter:
  assumes "p < 2 * n" "length bits = length (with_voters n)"
  obtains bits' where "live_set_bit p n bits = Inr bits'" "length bits' = length (with_voters n)"
    "bf_set (Live bits') = insert p (bf_set (Live bits))"
proof -
  have "p div 64 < length bits"
    using assms length_with_voters [of n] by (simp add: div_less_iff_less_mult mult.commute)
  then obtain bits' where b: "live_set_bit p n bits = Inr bits'" by (auto simp: live_set_bit_def Let_def)
  then show thesis using that bf_set_live_set_bit [OF b] assms(2) by simp
qed

lemma bitfield_set_bit_voter:
  assumes "p < 2 * n" and "\<forall>x. a = Live x \<longrightarrow> length x = length (with_voters n)"
  obtains bits where "bitfield_set_bit p n a = (Inr (), Live bits)" "length bits = length (with_voters n)"
    "bf_set (Live bits) = insert p (bf_set a)"
proof -
  define live where "live = (case a of Blank \<Rightarrow> with_voters n | Live x \<Rightarrow> x)"
  have len: "length live = length (with_voters n)" using assms(2) by (cases a) (simp_all add: live_def)
  have bf: "bf_set (Live live) = bf_set a"
    by (cases a) (simp_all only: live_def Bitfield.case bf_set_with_voters bf_set.simps(1))
  obtain bits where "live_set_bit p n live = Inr bits" "length bits = length (with_voters n)"
    "bf_set (Live bits) = insert p (bf_set (Live live))" using live_set_bit_voter [OF assms(1) len] .
  then show thesis using that bf by (simp add: bitfield_set_bit_def live_def)
qed

section \<open>Claims\<close>

text \<open>
  C17: the shift loop computes the equivocation-aware weights. For every bitfield and
  every weight function the pair it returns is the sum of the weights of the voters
  whose prevote bit is set and of those whose precommit bit is set (in \<open>u64\<close> arithmetic).
\<close>

theorem bitfield_total_weight_correct:
  "bitfield_total_weight lookup b
     = (\<Sum>i | 2 * i \<in> bf_set b. lookup i, \<Sum>i | 2 * i + 1 \<in> bf_set b. lookup i)"
  by (simp add: total_weight_sets prevoters_def precommitters_def)



end
