(* ===== verification/Vote_Graph.thy ===== *)
theory Vote_Graph
  imports Bitfields
begin

text \<open>
  The graph of blocks that carry votes, \<open>core/finality-grandpa/src/vote_graph.rs\<close>. A
  vote-node stores the path of block hashes back to the next vote-node below it and
  the sum of all votes on itself and on the nodes above it. Vote values are a
  parameter: \<open>add\<close> is their addition, whose \<open>None\<close> is a panic, and \<open>zero\<close> their default.
  The set of heads is a list, in the order the hash set is iterated. \<open>ancestry\<close> is the
  chain's operation, \<open>None\<close> standing for its error. The value of an operation that
  panics or does not return is \<open>None\<close>; so is the value of a condition that panics.
\<close>

section \<open>Entries and subchains\<close>

record ('h, 'v) Entry =
  en_number :: u64
  en_ancestors :: "'h list"
  en_descendents :: "'h list"
  en_cumulative_vote :: 'v

definition ancestor_block :: "('h, 'v) Entry \<Rightarrow> u64 \<Rightarrow> 'h option" where
  "ancestor_block e number =
     (if en_number e \<le> number then None
      else (let offset = unat (en_number e - number - 1)
            in if offset < length (en_ancestors e) then Some (en_ancestors e ! offset) else None))"

definition in_direct_ancestry :: "('h, 'v) Entry \<Rightarrow> 'h \<Rightarrow> u64 \<Rightarrow> bool option" where
  "in_direct_ancestry e hash number = map_option (\<lambda>h. h = hash) (ancestor_block e number)"

definition ancestor_node :: "('h, 'v) Entry \<Rightarrow> 'h option" where
  "ancestor_node e = (if en_ancestors e = [] then None else Some (last (en_ancestors e)))"

record 'h Subchain =
  sc_hashes :: "'h list"
  sc_best_number :: u64

fun number_blocks :: "u64 \<Rightarrow> 'h list \<Rightarrow> ('h \<times> u64) list" where
  "number_blocks n [] = []"
| "number_blocks n (x # xs) = (x, n) # number_blocks (n - 1) xs"

definition blocks_reverse :: "'h Subchain \<Rightarrow> ('h \<times> u64) list" where
  "blocks_reverse sc = number_blocks (sc_best_number sc) (rev (sc_hashes sc))"

definition subchain_best :: "'h Subchain \<Rightarrow> ('h \<times> u64) option" where
  "subchain_best sc = (if sc_hashes sc = [] then None else Some (last (sc_hashes sc), sc_best_number sc))"

section \<open>The graph\<close>

record ('h, 'v) VoteGraph =
  vg_entries :: "'h \<rightharpoonup> ('h, 'v) Entry"
  vg_heads :: "'h list"
  vg_base :: 'h
  vg_base_number :: u64

definition graph_new :: "'v \<Rightarrow> 'h \<Rightarrow> u64 \<Rightarrow> ('h, 'v) VoteGraph" where
  "graph_new zero base_hash base_number =
     \<lparr>vg_entries = [base_hash \<mapsto> \<lparr>en_number = base_number, en_ancestors = [], en_descendents = [],
        en_cumulative_vote = zero\<rparr>],
      vg_heads = [base_hash], vg_base = base_hash, vg_base_number = base_number\<rparr>"

definition graph_base :: "('h, 'v) VoteGraph \<Rightarrow> 'h \<times> u64" where
  "graph_base g = (vg_base g, vg_base_number g)"

definition adjust_base :: "'h list \<Rightarrow> ('h, 'v) VoteGraph \<Rightarrow> ('h, 'v) VoteGraph option" where
  "adjust_base ancestry_proof g =
     (if ancestry_proof = [] then Some g
      else if unat (vg_base_number g) < length ancestry_proof then Some g
      else (let new_hash = last ancestry_proof;
                new_number = ((\<lambda>n. n - 1) ^^ length ancestry_proof) (vg_base_number g)
            in case vg_entries g (vg_base g) of
                 None \<Rightarrow> None
               | Some old_entry \<Rightarrow>
                   (let old_entry' = old_entry\<lparr>en_ancestors := en_ancestors old_entry @ ancestry_proof\<rparr>;
                        entry = \<lparr>en_number = new_number, en_ancestors = [], en_descendents = [vg_base g],
                                 en_cumulative_vote = en_cumulative_vote old_entry'\<rparr>
                    in Some (g\<lparr>vg_entries := (vg_entries g)(vg_base g \<mapsto> old_entry', new_hash \<mapsto> entry),
                               vg_base := new_hash, vg_base_number := new_number\<rparr>))))"

text \<open>
  The inner loop of \<open>find_containing_nodes\<close>, walking back from one head; it returns the
  nodes visited and the keys found so far.
\<close>

partial_function (option) containing_loop ::
  "('h \<rightharpoonup> ('h, 'v) Entry) \<Rightarrow> 'h \<Rightarrow> u64 \<Rightarrow> 'h \<Rightarrow> 'h list \<Rightarrow> 'h list \<Rightarrow> ('h list \<times> 'h list) option" where
  "containing_loop entries hash number head visited keys =
     (case entries head of
        None \<Rightarrow> Some (visited, keys)
      | Some active_entry \<Rightarrow>
          if head \<in> set visited then Some (visited, keys)
          else (case in_direct_ancestry active_entry hash number of
                  Some True \<Rightarrow> Some (head # visited, keys @ [head])
                | Some False \<Rightarrow> Some (head # visited, keys)
                | None \<Rightarrow> (case ancestor_node active_entry of
                             Some prev \<Rightarrow> containing_loop entries hash number prev (head # visited) keys
                           | None \<Rightarrow> Some (head # visited, keys))))"

fun containing_heads ::
  "('h \<rightharpoonup> ('h, 'v) Entry) \<Rightarrow> 'h \<Rightarrow> u64 \<Rightarrow> 'h list \<Rightarrow> 'h list \<Rightarrow> 'h list \<Rightarrow> 'h list option" where
  "containing_heads entries hash number [] visited keys = Some keys"
| "containing_heads entries hash number (head # heads) visited keys =
     (case containing_loop entries hash number head visited keys of None \<Rightarrow> None
      | Some (visited, keys) \<Rightarrow> containing_heads entries hash number heads visited keys)"

text \<open>The inner option is the function's result, \<open>None\<close> for a hash that is a node already.\<close>

definition find_containing_nodes :: "('h, 'v) VoteGraph \<Rightarrow> 'h \<Rightarrow> u64 \<Rightarrow> 'h list option option" where
  "find_containing_nodes g hash number =
     (if vg_entries g hash \<noteq> None then Some None
      else map_option Some (containing_heads (vg_entries g) hash number (vg_heads g) [] []))"

text \<open>
  \<open>introduce_branch\<close>: the fold splits the edge of each descendent at the new ancestor;
  the accumulator is the new entry and the previous ancestor node.
\<close>

fun branch_fold ::
  "('v \<Rightarrow> 'v \<Rightarrow> 'v option) \<Rightarrow> 'v \<Rightarrow> u64 \<Rightarrow> 'h list \<Rightarrow> ('h \<rightharpoonup> ('h, 'v) Entry) \<Rightarrow> (('h, 'v) Entry \<times> 'h option) option
     \<Rightarrow> (('h \<rightharpoonup> ('h, 'v) Entry) \<times> (('h, 'v) Entry \<times> 'h option) option) option" where
  "branch_fold add zero ancestor_number [] entries acc = Some (entries, acc)"
| "branch_fold add zero ancestor_number (descendent # rest) entries acc =
     (case entries descendent of
        None \<Rightarrow> None
      | Some entry \<Rightarrow>
          if en_number entry < ancestor_number then None
          else (let prev_ancestor = ancestor_node entry;
                    offset = unat (en_number entry - ancestor_number)
                in if length (en_ancestors entry) < offset then None
                   else (let new_ancestors = drop offset (en_ancestors entry);
                             entry' = entry\<lparr>en_ancestors := take offset (en_ancestors entry)\<rparr>;
                             (new_entry, prev) = (case acc of
                                Some a \<Rightarrow> a
                              | None \<Rightarrow> (\<lparr>en_number = ancestor_number, en_ancestors = new_ancestors,
                                          en_descendents = [], en_cumulative_vote = zero\<rparr>, prev_ancestor))
                         in case add (en_cumulative_vote new_entry) (en_cumulative_vote entry) of
                              None \<Rightarrow> None
                            | Some cv \<Rightarrow>
                                branch_fold add zero ancestor_number rest (entries(descendent \<mapsto> entry'))
                                  (Some (new_entry\<lparr>en_descendents := en_descendents new_entry @ [descendent],
                                                   en_cumulative_vote := cv\<rparr>, prev)))))"

definition introduce_branch ::
  "('v \<Rightarrow> 'v \<Rightarrow> 'v option) \<Rightarrow> 'v \<Rightarrow> 'h list \<Rightarrow> 'h \<Rightarrow> u64 \<Rightarrow> ('h, 'v) VoteGraph \<Rightarrow> ('h, 'v) VoteGraph option" where
  "introduce_branch add zero descendents ancestor_hash ancestor_number g =
     (case branch_fold add zero ancestor_number descendents (vg_entries g) None of
        None \<Rightarrow> None
      | Some (entries, None) \<Rightarrow> Some (g\<lparr>vg_entries := entries\<rparr>)
      | Some (entries, Some (new_entry, prev)) \<Rightarrow>
          (case (case prev of
                   None \<Rightarrow> Some entries
                 | Some p \<Rightarrow> (case entries p of None \<Rightarrow> None
                     | Some pe \<Rightarrow> Some (entries(p \<mapsto> pe\<lparr>en_descendents :=
                         filter (\<lambda>h. h \<notin> set (en_descendents new_entry)) (en_descendents pe) @ [ancestor_hash]\<rparr>)))) of
             None \<Rightarrow> None
           | Some entries \<Rightarrow>
               if entries ancestor_hash \<noteq> None then None
               else Some (g\<lparr>vg_entries := entries(ancestor_hash \<mapsto> new_entry)\<rparr>)))"

text \<open>\<open>append\<close>: \<open>Inl ()\<close> is the error of the chain's \<open>ancestry\<close>.\<close>

definition find_index :: "('x \<Rightarrow> bool) \<Rightarrow> 'x list \<Rightarrow> nat option" where
  "find_index P xs = (if \<exists>x\<in>set xs. P x then Some (length (takeWhile (\<lambda>x. \<not> P x) xs)) else None)"

definition append_node ::
  "('h \<Rightarrow> 'h \<Rightarrow> 'h list option) \<Rightarrow> 'v \<Rightarrow> 'h \<Rightarrow> u64 \<Rightarrow> ('h, 'v) VoteGraph
     \<Rightarrow> (unit + ('h, 'v) VoteGraph) option" where
  "append_node ancestry zero hash number g =
     (case ancestry (vg_base g) hash of
        None \<Rightarrow> Some (Inl ())
      | Some anc \<Rightarrow>
          (let anc = anc @ [vg_base g]
           in case find_index (\<lambda>a. vg_entries g a \<noteq> None) (anc @ [vg_base g]) of
                None \<Rightarrow> None
              | Some ancestor_index \<Rightarrow>
                  if length anc \<le> ancestor_index then None
                  else (let ancestor_hash = anc ! ancestor_index
                        in case vg_entries g ancestor_hash of
                             None \<Rightarrow> None
                           | Some entry \<Rightarrow>
                               (let entries = (vg_entries g)(ancestor_hash \<mapsto>
                                      entry\<lparr>en_descendents := en_descendents entry @ [hash]\<rparr>)
                                in Some (Inr (g\<lparr>vg_entries := entries(hash \<mapsto>
                                     \<lparr>en_number = number, en_ancestors = take (ancestor_index + 1) anc,
                                      en_descendents = [], en_cumulative_vote = zero\<rparr>),
                                   vg_heads := List.insert hash (removeAll ancestor_hash (vg_heads g))\<rparr>))))))"

text \<open>The loop of \<open>insert\<close> that adds the vote to a node and to all nodes below it.\<close>

partial_function (option) add_vote_loop ::
  "('v \<Rightarrow> 'v \<Rightarrow> 'v option) \<Rightarrow> 'v \<Rightarrow> 'h \<Rightarrow> ('h \<rightharpoonup> ('h, 'v) Entry) \<Rightarrow> ('h \<rightharpoonup> ('h, 'v) Entry) option" where
  "add_vote_loop add vote inspecting entries =
     (case entries inspecting of
        None \<Rightarrow> None
      | Some active_entry \<Rightarrow>
          (case add (en_cumulative_vote active_entry) vote of
             None \<Rightarrow> None
           | Some cv \<Rightarrow>
               (case ancestor_node active_entry of
                  Some parent \<Rightarrow> add_vote_loop add vote parent
                    (entries(inspecting \<mapsto> active_entry\<lparr>en_cumulative_vote := cv\<rparr>))
                | None \<Rightarrow> Some (entries(inspecting \<mapsto> active_entry\<lparr>en_cumulative_vote := cv\<rparr>)))))"

definition graph_insert ::
  "('v \<Rightarrow> 'v \<Rightarrow> 'v option) \<Rightarrow> 'v \<Rightarrow> ('h \<Rightarrow> 'h \<Rightarrow> 'h list option) \<Rightarrow> 'h \<Rightarrow> u64 \<Rightarrow> 'v
     \<Rightarrow> ('h, 'v) VoteGraph \<Rightarrow> (unit + ('h, 'v) VoteGraph) option" where
  "graph_insert add zero ancestry hash number vote g =
     (case find_containing_nodes g hash number of
        None \<Rightarrow> None
      | Some containing \<Rightarrow>
          (case (case containing of
                   None \<Rightarrow> Some (Inr g)
                 | Some [] \<Rightarrow> append_node ancestry zero hash number g
                 | Some (x # xs) \<Rightarrow> map_option Inr (introduce_branch add zero (x # xs) hash number g)) of
             None \<Rightarrow> None
           | Some (Inl e) \<Rightarrow> Some (Inl e)
           | Some (Inr g) \<Rightarrow>
               map_option (\<lambda>entries. Inr (g\<lparr>vg_entries := entries\<rparr>)) (add_vote_loop add vote hash (vg_entries g))))"

section \<open>Searching the graph\<close>

text \<open>
  \<open>binary_search_by_key\<close> on the blocks seen at one height, which are kept sorted by hash:
  \<open>Inr\<close> the index of the key, or \<open>Inl\<close> the index at which to insert it.
\<close>

definition block_search :: "'h::linorder \<Rightarrow> ('h \<times> 'v) list \<Rightarrow> nat + nat" where
  "block_search key blocks =
     (let i = length (takeWhile (\<lambda>b. fst b < key) blocks)
      in if i < length blocks \<and> fst (blocks ! i) = key then Inr i else Inl i)"

text \<open>
  One pass over the descendent nodes at block number \<open>number\<close>: the first block whose votes
  fulfill the condition, if any.
\<close>

fun merge_scan ::
  "('v \<Rightarrow> 'v \<Rightarrow> 'v option) \<Rightarrow> ('v \<Rightarrow> bool option) \<Rightarrow> u64 \<Rightarrow> ('h::linorder, 'v) Entry list \<Rightarrow> ('h \<times> 'v) list
     \<Rightarrow> 'h option option" where
  "merge_scan add condition number [] blocks = Some None"
| "merge_scan add condition number (d_node # rest) blocks =
     (case ancestor_block d_node number of
        None \<Rightarrow> merge_scan add condition number rest blocks
      | Some d_block \<Rightarrow>
          (case block_search d_block blocks of
             Inr idx \<Rightarrow>
               (case add (snd (blocks ! idx)) (en_cumulative_vote d_node) of
                  None \<Rightarrow> None
                | Some v \<Rightarrow>
                    (case condition v of
                       None \<Rightarrow> None
                     | Some True \<Rightarrow> Some (Some d_block)
                     | Some False \<Rightarrow> merge_scan add condition number rest (blocks[idx := (fst (blocks ! idx), v)])))
           | Inl idx \<Rightarrow> merge_scan add condition number rest
               (take idx blocks @ (d_block, en_cumulative_vote d_node) # drop idx blocks)))"

definition has_block :: "'h \<Rightarrow> u64 \<Rightarrow> ('h, 'v) Entry \<Rightarrow> bool" where
  "has_block h n e = (in_direct_ancestry e h n = Some True)"

lemma ancestor_block_less: "ancestor_block e n = Some h \<Longrightarrow> n < en_number e"
  by (auto simp: ancestor_block_def split: if_splits)

lemma merge_scan_found:
  "merge_scan add condition number nodes blocks = Some (Some b) \<Longrightarrow>
     \<exists>d\<in>set nodes. ancestor_block d number = Some b"
  by (induction nodes arbitrary: blocks)
    (auto split: option.splits sum.splits bool.splits)

text \<open>
  The loop of \<open>ghost_find_merge_point\<close>, entered with the offset already advanced: the block
  numbers looked at grow and stay below the number of a descendent node.
\<close>

function merge_loop ::
  "('v \<Rightarrow> 'v \<Rightarrow> 'v option) \<Rightarrow> ('v \<Rightarrow> bool option) \<Rightarrow> u64 \<Rightarrow> u64 \<Rightarrow> ('h::linorder, 'v) Entry list \<Rightarrow> u64 \<Rightarrow> 'h list
     \<Rightarrow> 'h Subchain option" where
  "merge_loop add condition base_number offset nodes best_number hashes =
     (case merge_scan add condition (base_number + offset) nodes [] of
        None \<Rightarrow> None
      | Some None \<Rightarrow> Some \<lparr>sc_hashes = hashes, sc_best_number = best_number\<rparr>
      | Some (Some new_best) \<Rightarrow>
          merge_loop add condition base_number (offset + 1) (filter (has_block new_best (best_number + 1)) nodes)
            (best_number + 1) (hashes @ [new_best]))"
  by pat_completeness auto

lemma word_succ_decreases:
  fixes n m :: u64
  assumes "n < m"
  shows "2 ^ 64 - unat (n + 1) < (2 ^ 64 - unat n :: nat)"
proof -
  have "unat n < unat m" using assms by (simp add: word_less_nat_alt)
  moreover have "unat m < 2 ^ 64" using unsigned_less [of m, where ?'a = nat] by simp
  ultimately have "unat (n + 1) = unat n + 1" by (simp add: unat_word_ariths(1))
  then show ?thesis using \<open>unat n < unat m\<close> \<open>unat m < 2 ^ 64\<close> by linarith
qed

termination merge_loop
proof (relation "measure (\<lambda>(add, condition, b, offset, nodes, best, hashes). 2 ^ 64 - unat (b + offset))")
  fix add :: "'v \<Rightarrow> 'v \<Rightarrow> 'v option" and condition and b offset :: u64
    and nodes :: "('h::linorder, 'v) Entry list" and best :: u64 and hashes :: "'h list" and r new_best
  assume "merge_scan add condition (b + offset) nodes [] = Some r" "r = Some new_best"
  then obtain d :: "('h, 'v) Entry" where "ancestor_block d (b + offset) = Some new_best"
    by (auto dest: merge_scan_found)
  from word_succ_decreases [OF ancestor_block_less [OF this]]
  show "((add, condition, b, offset + 1, filter (has_block new_best (best + 1)) nodes, best + 1, hashes @ [new_best]),
         (add, condition, b, offset, nodes, best, hashes))
        \<in> measure (\<lambda>(add, condition, b, offset, nodes, best, hashes). 2 ^ 64 - unat (b + offset))"
    by (simp add: add.assoc)
qed simp

declare merge_loop.simps [simp del]

definition constrained :: "('h \<times> u64) option \<Rightarrow> ('h, 'v) Entry \<Rightarrow> bool" where
  "constrained c e = (case c of None \<Rightarrow> True | Some (h, n) \<Rightarrow> has_block h n e)"

definition ghost_find_merge_point ::
  "('v \<Rightarrow> 'v \<Rightarrow> 'v option) \<Rightarrow> ('h::linorder, 'v) VoteGraph \<Rightarrow> 'h \<Rightarrow> ('h, 'v) Entry \<Rightarrow> ('h \<times> u64) option
     \<Rightarrow> ('v \<Rightarrow> bool option) \<Rightarrow> 'h Subchain option" where
  "ghost_find_merge_point add g node_key active_node force_constrain condition =
     (case those (map (vg_entries g) (en_descendents active_node)) of
        None \<Rightarrow> None
      | Some nodes \<Rightarrow>
          merge_loop add condition (en_number active_node) 1 (filter (constrained force_constrain) nodes)
            (en_number active_node) [node_key])"

text \<open>The backwards search of \<open>find_ancestor\<close>: the first node meeting the condition and the node above it.\<close>

partial_function (option) back_loop ::
  "('h \<rightharpoonup> ('h, 'v) Entry) \<Rightarrow> ('v \<Rightarrow> bool option) \<Rightarrow> 'h \<Rightarrow> ('h, 'v) Entry
     \<Rightarrow> ('h \<times> ('h, 'v) Entry \<times> ('h, 'v) Entry) option option" where
  "back_loop entries condition node_key canonical_node =
     (case entries node_key of
        None \<Rightarrow> None
      | Some active_node \<Rightarrow>
          (case condition (en_cumulative_vote active_node) of
             None \<Rightarrow> None
           | Some met \<Rightarrow>
               if met then Some (Some (node_key, active_node, canonical_node))
               else (case ancestor_node active_node of
                       None \<Rightarrow> Some None
                     | Some n \<Rightarrow> back_loop entries condition n active_node)))"

definition find_ancestor ::
  "('v \<Rightarrow> 'v \<Rightarrow> 'v option) \<Rightarrow> ('h::linorder, 'v) VoteGraph \<Rightarrow> 'h \<Rightarrow> u64 \<Rightarrow> ('v \<Rightarrow> bool option)
     \<Rightarrow> ('h \<times> u64) option option" where
  "find_ancestor add g hash number condition =
     (let search = (\<lambda>key node.
        (case back_loop (vg_entries g) condition key node of
           None \<Rightarrow> None
         | Some None \<Rightarrow> Some None
         | Some (Some (node_key, active_node, canonical_node)) \<Rightarrow>
             map_option (\<lambda>sc. find (\<lambda>(h, n). has_block h n canonical_node) (blocks_reverse sc))
               (ghost_find_merge_point add g node_key active_node None condition)))
      in case find_containing_nodes g hash number of
           None \<Rightarrow> None
         | Some None \<Rightarrow>
             (case vg_entries g hash of
                None \<Rightarrow> None
              | Some node \<Rightarrow>
                  (case condition (en_cumulative_vote node) of
                     None \<Rightarrow> None
                   | Some True \<Rightarrow> Some (Some (hash, number))
                   | Some False \<Rightarrow>
                       (case ancestor_node node of None \<Rightarrow> Some None | Some key \<Rightarrow> search key node)))
         | Some (Some []) \<Rightarrow> Some None
         | Some (Some (x # xs)) \<Rightarrow>
             (case vg_entries g x of
                None \<Rightarrow> None
              | Some node \<Rightarrow> (case ancestor_node node of None \<Rightarrow> None | Some key \<Rightarrow> search key node)))"

text \<open>
  The search of \<open>find_ghost\<close> towards the heads. The filters are lazy, so nodes after the
  first that fits are not looked up.
\<close>

fun next_descendent ::
  "('h \<rightharpoonup> ('h, 'v) Entry) \<Rightarrow> (('h, 'v) Entry \<Rightarrow> bool option) \<Rightarrow> 'h list \<Rightarrow> ('h \<times> ('h, 'v) Entry) option option" where
  "next_descendent entries ok [] = Some None"
| "next_descendent entries ok (d # ds) =
     (case entries d of
        None \<Rightarrow> None
      | Some node \<Rightarrow>
          (case ok node of
             None \<Rightarrow> None
           | Some True \<Rightarrow> Some (Some (d, node))
           | Some False \<Rightarrow> next_descendent entries ok ds))"

partial_function (option) ghost_loop ::
  "('h \<rightharpoonup> ('h, 'v) Entry) \<Rightarrow> ('v \<Rightarrow> bool option) \<Rightarrow> ('h \<times> u64) option \<Rightarrow> bool \<Rightarrow> 'h \<Rightarrow> ('h, 'v) Entry
     \<Rightarrow> (bool \<times> 'h \<times> ('h, 'v) Entry) option" where
  "ghost_loop entries condition current_best force_constrain node_key active_node =
     (case next_descendent entries
             (\<lambda>node. if force_constrain \<and> \<not> constrained current_best node then Some False
                     else condition (en_cumulative_vote node))
             (en_descendents active_node) of
        None \<Rightarrow> None
      | Some (Some (key, node)) \<Rightarrow> ghost_loop entries condition current_best False key node
      | Some None \<Rightarrow> Some (force_constrain, node_key, active_node))"

definition ghost_start :: "('h, 'v) VoteGraph \<Rightarrow> ('h \<times> u64) option \<Rightarrow> ('h \<times> bool) option" where
  "ghost_start g current_best =
     (case current_best of
        None \<Rightarrow> Some (vg_base g, False)
      | Some (hash, number) \<Rightarrow>
          (case find_containing_nodes g hash number of
             None \<Rightarrow> None
           | Some None \<Rightarrow> Some (hash, False)
           | Some (Some []) \<Rightarrow> Some (vg_base g, False)
           | Some (Some (x # xs)) \<Rightarrow>
               (case vg_entries g x of
                  None \<Rightarrow> None
                | Some e \<Rightarrow> (case ancestor_node e of None \<Rightarrow> None | Some a \<Rightarrow> Some (a, True)))))"

definition find_ghost ::
  "('v \<Rightarrow> 'v \<Rightarrow> 'v option) \<Rightarrow> ('h::linorder, 'v) VoteGraph \<Rightarrow> ('h \<times> u64) option \<Rightarrow> ('v \<Rightarrow> bool option)
     \<Rightarrow> ('h \<times> u64) option option" where
  "find_ghost add g current_best condition =
     (case ghost_start g current_best of
        None \<Rightarrow> None
      | Some (key, force_constrain) \<Rightarrow>
          (case vg_entries g key of
             None \<Rightarrow> None
           | Some node \<Rightarrow>
               (case condition (en_cumulative_vote node) of
                  None \<Rightarrow> None
                | Some False \<Rightarrow> Some None
                | Some True \<Rightarrow>
                    (case ghost_loop (vg_entries g) condition current_best force_constrain key node of
                       None \<Rightarrow> None
                     | Some (force_constrain, node_key, active_node) \<Rightarrow>
                         map_option subchain_best
                           (ghost_find_merge_point add g node_key active_node
                             (if force_constrain then current_best else None) condition)))))"

end
