(* ===== verification/Grandpa_Round.thy ===== *)
theory Grandpa_Round
  imports Vote_Graph "HOL-Library.AList"
begin

text \<open>
  A round of the finality gadget, \<open>core/finality-grandpa/src/round.rs\<close>, and the validation of
  commits built on it (\<open>validate_commit\<close> in \<open>lib.rs\<close>): the trackers that keep each voter's
  votes, the import of prevotes and precommits, and the computation of the GHOST
  blocks, the finalized block, the estimate and completability. The votes of a tracker
  are an association list in the order its hash map is iterated.
\<close>

section \<open>Vote weights\<close>

record TotalWeight =
  tw_prevote :: u64
  tw_precommit :: u64

record VoteWeight =
  vw_bitfield :: Bitfield

definition vote_weight_default :: VoteWeight where
  "vote_weight_default = \<lparr>vw_bitfield = Blank\<rparr>"

definition lookup_weight :: "'i VoterSet \<Rightarrow> nat \<Rightarrow> u64" where
  "lookup_weight voters idx = (case weight_by_index voters idx of Some w \<Rightarrow> w | None \<Rightarrow> 0)"

definition vote_total_weight :: "VoteWeight \<Rightarrow> Bitfield \<Rightarrow> 'i VoterSet \<Rightarrow> TotalWeight option" where
  "vote_total_weight self equivocators voter_set =
     (case bitfield_merge (vw_bitfield self) equivocators of
        Inl e \<Rightarrow> None
      | Inr with_equivocators \<Rightarrow>
          (let (prevote, precommit) = bitfield_total_weight (lookup_weight voter_set) with_equivocators
           in Some \<lparr>tw_prevote = prevote, tw_precommit = precommit\<rparr>))"

definition vote_weight_add :: "VoteWeight \<Rightarrow> VoteWeight \<Rightarrow> VoteWeight option" where
  "vote_weight_add self rhs =
     (case bitfield_merge (vw_bitfield self) (vw_bitfield rhs) of
        Inl e \<Rightarrow> None
      | Inr b \<Rightarrow> Some (self\<lparr>vw_bitfield := b\<rparr>))"

section \<open>Vote trackers\<close>

datatype ('v, 's) VoteMultiplicity =
  Single 'v 's
| Equivocated "'v \<times> 's" "'v \<times> 's"

fun multiplicity_contains :: "('v, 's) VoteMultiplicity \<Rightarrow> 'v \<Rightarrow> 's \<Rightarrow> bool" where
  "multiplicity_contains (Single v s) vote signature \<longleftrightarrow> v = vote \<and> s = signature"
| "multiplicity_contains (Equivocated (v1, s1) (v2, s2)) vote signature \<longleftrightarrow>
     v1 = vote \<and> s1 = signature \<or> v2 = vote \<and> s2 = signature"

record ('i, 'v, 's) VoteTracker =
  vt_votes :: "('i \<times> ('v, 's) VoteMultiplicity) list"
  vt_current_weight :: u64

definition tracker_new :: "('i, 'v, 's) VoteTracker" where
  "tracker_new = \<lparr>vt_votes = [], vt_current_weight = 0\<rparr>"

definition add_vote ::
  "'i \<Rightarrow> 'v \<Rightarrow> 's \<Rightarrow> u64 \<Rightarrow> ('i, 'v, 's) VoteTracker
     \<Rightarrow> ('v, 's) VoteMultiplicity option \<times> ('i, 'v, 's) VoteTracker" where
  "add_vote i vote signature weight t =
     (case map_of (vt_votes t) i of
        None \<Rightarrow>
          (Some (Single vote signature),
           t\<lparr>vt_current_weight := vt_current_weight t + weight,
             vt_votes := vt_votes t @ [(i, Single vote signature)]\<rparr>)
      | Some occupied \<Rightarrow>
          if multiplicity_contains occupied vote signature then (None, t)
          else (case occupied of
                  Single v s \<Rightarrow>
                    (let new_val = Equivocated (v, s) (vote, signature)
                     in (Some new_val, t\<lparr>vt_votes := AList.update i new_val (vt_votes t)\<rparr>))
                | Equivocated _ _ \<Rightarrow> (None, t)))"

fun multiplicity_votes :: "('v, 's) VoteMultiplicity \<Rightarrow> ('v \<times> 's) list" where
  "multiplicity_votes (Single v s) = [(v, s)]"
| "multiplicity_votes (Equivocated a b) = [a, b]"

definition tracker_votes :: "('i, 'v, 's) VoteTracker \<Rightarrow> ('i \<times> 'v \<times> 's) list" where
  "tracker_votes t = concat (map (\<lambda>(i, m). map (\<lambda>(v, s). (i, v, s)) (multiplicity_votes m)) (vt_votes t))"

section \<open>Rounds\<close>

record 'h RoundState =
  st_prevote_ghost :: "('h \<times> u64) option"
  st_finalized :: "('h \<times> u64) option"
  st_estimate :: "('h \<times> u64) option"
  st_completable :: bool

definition state_genesis :: "'h \<times> u64 \<Rightarrow> 'h RoundState" where
  "state_genesis genesis = \<lparr>st_prevote_ghost = Some genesis, st_finalized = Some genesis,
     st_estimate = Some genesis, st_completable = True\<rparr>"

record ('i, 'h) RoundParams =
  rp_round_number :: u64
  rp_voters :: "'i VoterSet"
  rp_base :: "'h \<times> u64"

record ('i, 'h, 's) Round =
  rd_graph :: "('h, VoteWeight) VoteGraph"
  rd_prevote :: "('i, 'h Prevote, 's) VoteTracker"
  rd_precommit :: "('i, 'h Precommit, 's) VoteTracker"
  rd_round_number :: u64
  rd_voters :: "'i VoterSet"
  rd_total_weight :: u64
  rd_bitfield_context :: Shared
  rd_prevote_ghost :: "('h \<times> u64) option"
  rd_precommit_ghost :: "('h \<times> u64) option"
  rd_finalized :: "('h \<times> u64) option"
  rd_estimate :: "('h \<times> u64) option"
  rd_completable :: bool

definition round_new :: "('i, 'h) RoundParams \<Rightarrow> ('i, 'h, 's) Round" where
  "round_new params =
     (let (base_hash, base_number) = rp_base params;
          total_weight = voters_total_weight (rp_voters params);
          n_validators = voters_len (rp_voters params)
      in \<lparr>rd_graph = graph_new vote_weight_default base_hash base_number,
          rd_prevote = tracker_new, rd_precommit = tracker_new,
          rd_round_number = rp_round_number params, rd_voters = rp_voters params,
          rd_total_weight = total_weight, rd_bitfield_context = shared_new n_validators,
          rd_prevote_ghost = None, rd_precommit_ghost = None, rd_finalized = None,
          rd_estimate = None, rd_completable = False\<rparr>)"

definition round_threshold :: "('i, 'h, 's) Round \<Rightarrow> u64" where
  "round_threshold r = vs_threshold (rd_voters r)"

definition round_state :: "('i, 'h, 's) Round \<Rightarrow> 'h RoundState" where
  "round_state r = \<lparr>st_prevote_ghost = rd_prevote_ghost r, st_finalized = rd_finalized r,
     st_estimate = rd_estimate r, st_completable = rd_completable r\<rparr>"

text \<open>The closures handed to the graph: supermajority of prevotes or of precommits.\<close>

definition prevote_supermajority :: "('i, 'h, 's) Round \<Rightarrow> VoteWeight \<Rightarrow> bool option" where
  "prevote_supermajority r v =
     map_option (\<lambda>w. round_threshold r \<le> tw_prevote w)
       (vote_total_weight v (sh_equivocators (rd_bitfield_context r)) (rd_voters r))"

definition precommit_supermajority :: "('i, 'h, 's) Round \<Rightarrow> VoteWeight \<Rightarrow> bool option" where
  "precommit_supermajority r v =
     map_option (\<lambda>w. round_threshold r \<le> tw_precommit w)
       (vote_total_weight v (sh_equivocators (rd_bitfield_context r)) (rd_voters r))"

text \<open>The closure of \<open>update\<close> that decides whether a block can still get a supermajority of precommits.\<close>

definition possible_to_precommit :: "('i, 'h, 's) Round \<Rightarrow> VoteWeight \<Rightarrow> bool option" where
  "possible_to_precommit r weight =
     (let threshold = round_threshold r;
          current_precommits = vt_current_weight (rd_precommit r);
          remaining_commit_votes = rd_total_weight r - current_precommits;
          equivocators = sh_equivocators (rd_bitfield_context r);
          tolerated_equivocations = rd_total_weight r - threshold;
          current_equivocations = snd (bitfield_total_weight (lookup_weight (rd_voters r)) equivocators);
          additional_equiv = saturating_sub tolerated_equivocations current_equivocations
      in case vote_total_weight weight equivocators (rd_voters r) of
           None \<Rightarrow> None
         | Some w \<Rightarrow>
             (let precommitted_for = tw_precommit w;
                  possible_equivocations =
                    min (saturating_sub current_precommits precommitted_for) additional_equiv;
                  full_possible_weight =
                    saturating_add (saturating_add precommitted_for remaining_commit_votes) possible_equivocations
              in Some (threshold \<le> full_possible_weight)))"

text \<open>\<open>update\<close>, in the three steps of its body: the finalized block, the estimate, completability.\<close>

definition update_finalized :: "'h::linorder \<times> u64 \<Rightarrow> ('i, 'h, 's) Round \<Rightarrow> ('i, 'h, 's) Round option" where
  "update_finalized g r =
     (if round_threshold r \<le> vt_current_weight (rd_precommit r)
      then map_option (\<lambda>f. r\<lparr>rd_finalized := f\<rparr>)
             (find_ancestor vote_weight_add (rd_graph r) (fst g) (snd g) (precommit_supermajority r))
      else Some r)"

definition update_completable :: "'h::linorder \<times> u64 \<Rightarrow> ('i, 'h, 's) Round \<Rightarrow> ('i, 'h, 's) Round option" where
  "update_completable g r =
     (case rd_estimate r of
        None \<Rightarrow> Some (r\<lparr>rd_completable := False\<rparr>)
      | Some b \<Rightarrow>
          if fst b \<noteq> fst g then Some (r\<lparr>rd_completable := True\<rparr>)
          else map_option (\<lambda>ghost. r\<lparr>rd_completable := (case ghost of None \<Rightarrow> True | Some x \<Rightarrow> x = g)\<rparr>)
                 (find_ghost vote_weight_add (rd_graph r) (Some b) (possible_to_precommit r)))"

definition update_estimate :: "'h::linorder \<times> u64 \<Rightarrow> ('i, 'h, 's) Round \<Rightarrow> ('i, 'h, 's) Round option" where
  "update_estimate g r =
     (if round_threshold r \<le> vt_current_weight (rd_precommit r)
      then (case find_ancestor vote_weight_add (rd_graph r) (fst g) (snd g) (possible_to_precommit r) of
              None \<Rightarrow> None
            | Some e \<Rightarrow> update_completable g (r\<lparr>rd_estimate := e\<rparr>))
      else Some (r\<lparr>rd_estimate := Some g\<rparr>))"

definition round_update :: "('i, 'h::linorder, 's) Round \<Rightarrow> ('i, 'h, 's) Round option" where
  "round_update r =
     (if vt_current_weight (rd_prevote r) < round_threshold r then Some r
      else (case rd_prevote_ghost r of
              None \<Rightarrow> Some r
            | Some g \<Rightarrow> (case update_finalized g r of None \<Rightarrow> None | Some r \<Rightarrow> update_estimate g r)))"

definition update_prevote_ghost :: "('i, 'h::linorder, 's) Round \<Rightarrow> ('i, 'h, 's) Round option" where
  "update_prevote_ghost r =
     (if round_threshold r \<le> vt_current_weight (rd_prevote r)
      then map_option (\<lambda>g. r\<lparr>rd_prevote_ghost := g\<rparr>)
             (find_ghost vote_weight_add (rd_graph r) (rd_prevote_ghost r) (prevote_supermajority r))
      else Some r)"

text \<open>
  The imports return the result and the round, which has changed also when the chain
  reports an error (\<open>Inl\<close>).
\<close>

type_synonym ('i, 'h, 's, 'v) import_result =
  "((unit + ('i, 'v, 's) Equivocation option) \<times> ('i, 'h, 's) Round) option"

definition import_prevote ::
  "('h \<Rightarrow> 'h \<Rightarrow> 'h list option) \<Rightarrow> 'h::linorder Prevote \<Rightarrow> 'i \<Rightarrow> 's \<Rightarrow> ('i, 'h, 's) Round
     \<Rightarrow> ('i, 'h, 's, 'h Prevote) import_result" where
  "import_prevote ancestry vote signer signature r =
     (let finish = (\<lambda>equivocation r.
        (case update_prevote_ghost r of None \<Rightarrow> None
         | Some r \<Rightarrow> map_option (\<lambda>r. (Inr equivocation, r)) (round_update r)))
      in case voter_info (rd_voters r) signer of
           None \<Rightarrow> Some (Inr None, r)
         | Some info \<Rightarrow>
             (case add_vote signer vote signature (vi_weight info) (rd_prevote r) of
                (None, t) \<Rightarrow> Some (Inr None, r\<lparr>rd_prevote := t\<rparr>)
              | (Some (Single v s), t) \<Rightarrow>
                  (let r = r\<lparr>rd_prevote := t\<rparr>
                   in case prevote_bitfield (rd_bitfield_context r) info of
                        Inl e \<Rightarrow> None
                      | Inr b \<Rightarrow>
                          (case graph_insert vote_weight_add vote_weight_default ancestry
                                  (pv_target_hash v) (pv_target_number v) \<lparr>vw_bitfield = b\<rparr> (rd_graph r) of
                             None \<Rightarrow> None
                           | Some (Inl e) \<Rightarrow> Some (Inl e, r)
                           | Some (Inr g) \<Rightarrow> finish None (r\<lparr>rd_graph := g\<rparr>)))
              | (Some (Equivocated first second), t) \<Rightarrow>
                  (case equivocated_prevote (rd_bitfield_context r) info of
                     (Inl e, sh) \<Rightarrow> None
                   | (Inr _, sh) \<Rightarrow>
                       finish (Some \<lparr>eq_round_number = rd_round_number r, eq_identity = signer,
                                     eq_first = first, eq_second = second\<rparr>)
                         (r\<lparr>rd_prevote := t, rd_bitfield_context := sh\<rparr>))))"

definition import_precommit ::
  "('h \<Rightarrow> 'h \<Rightarrow> 'h list option) \<Rightarrow> 'h::linorder Precommit \<Rightarrow> 'i \<Rightarrow> 's \<Rightarrow> ('i, 'h, 's) Round
     \<Rightarrow> ('i, 'h, 's, 'h Precommit) import_result" where
  "import_precommit ancestry vote signer signature r =
     (let finish = (\<lambda>equivocation r. map_option (\<lambda>r. (Inr equivocation, r)) (round_update r))
      in case voter_info (rd_voters r) signer of
           None \<Rightarrow> Some (Inr None, r)
         | Some info \<Rightarrow>
             (case add_vote signer vote signature (vi_weight info) (rd_precommit r) of
                (None, t) \<Rightarrow> Some (Inr None, r\<lparr>rd_precommit := t\<rparr>)
              | (Some (Single v s), t) \<Rightarrow>
                  (let r = r\<lparr>rd_precommit := t\<rparr>
                   in case precommit_bitfield (rd_bitfield_context r) info of
                        Inl e \<Rightarrow> None
                      | Inr b \<Rightarrow>
                          (case graph_insert vote_weight_add vote_weight_default ancestry
                                  (pc_target_hash v) (pc_target_number v) \<lparr>vw_bitfield = b\<rparr> (rd_graph r) of
                             None \<Rightarrow> None
                           | Some (Inl e) \<Rightarrow> Some (Inl e, r)
                           | Some (Inr g) \<Rightarrow> finish None (r\<lparr>rd_graph := g\<rparr>)))
              | (Some (Equivocated first second), t) \<Rightarrow>
                  (case equivocated_precommit (rd_bitfield_context r) info of
                     (Inl e, sh) \<Rightarrow> None
                   | (Inr _, sh) \<Rightarrow>
                       finish (Some \<lparr>eq_round_number = rd_round_number r, eq_identity = signer,
                                     eq_first = first, eq_second = second\<rparr>)
                         (r\<lparr>rd_precommit := t, rd_bitfield_context := sh\<rparr>))))"

definition precommit_ghost ::
  "('i, 'h::linorder, 's) Round \<Rightarrow> (('h \<times> u64) option \<times> ('i, 'h, 's) Round) option" where
  "precommit_ghost r =
     (if round_threshold r \<le> vt_current_weight (rd_precommit r)
      then map_option (\<lambda>g. (g, r\<lparr>rd_precommit_ghost := g\<rparr>))
             (find_ghost vote_weight_add (rd_graph r) (rd_precommit_ghost r) (precommit_supermajority r))
      else Some (rd_precommit_ghost r, r))"

definition is_equal_or_descendent_of :: "('h \<Rightarrow> 'h \<Rightarrow> 'h list option) \<Rightarrow> 'h \<Rightarrow> 'h \<Rightarrow> bool" where
  "is_equal_or_descendent_of ancestry base block \<longleftrightarrow> base = block \<or> ancestry base block \<noteq> None"

definition finalizing_precommits ::
  "('h \<Rightarrow> 'h \<Rightarrow> 'h list option) \<Rightarrow> ('i, 'h, 's) Round \<Rightarrow> ('h, 's, 'i) SignedPrecommit list option" where
  "finalizing_precommits ancestry r =
     (case rd_finalized r of
        None \<Rightarrow> None
      | Some (f_hash, f_num) \<Rightarrow>
          Some (concat (map (\<lambda>(i, multiplicity).
                 map (\<lambda>(v, s). \<lparr>sp_precommit = v, sp_signature = s, sp_id = i\<rparr>) (multiplicity_votes multiplicity))
             (filter (\<lambda>(i, multiplicity). case multiplicity of
                  Single v s \<Rightarrow> is_equal_or_descendent_of ancestry f_hash (pc_target_hash v)
                | Equivocated _ _ \<Rightarrow> True)
               (vt_votes (rd_precommit r))))))"

section \<open>Validation of commits\<close>

text \<open>The loop of \<open>validate_commit\<close>; \<open>Inr None\<close> is the early return of an invalid commit.\<close>

fun import_commit ::
  "('h \<Rightarrow> 'h \<Rightarrow> 'h list option) \<Rightarrow> ('h::linorder, 's, 'i) SignedPrecommit list \<Rightarrow> 'i list \<Rightarrow> ('i, 'h, 's) Round
     \<Rightarrow> (unit + ('i, 'h, 's) Round option) option" where
  "import_commit ancestry [] equivocated r = Some (Inr (Some r))"
| "import_commit ancestry (sp # rest) equivocated r =
     (case import_precommit ancestry (sp_precommit sp) (sp_id sp) (sp_signature sp) r of
        None \<Rightarrow> None
      | Some (Inl e, r) \<Rightarrow> Some (Inl e)
      | Some (Inr None, r) \<Rightarrow> import_commit ancestry rest equivocated r
      | Some (Inr (Some eq), r) \<Rightarrow>
          if sp_id sp \<in> set equivocated then Some (Inr None)
          else import_commit ancestry rest (sp_id sp # equivocated) r)"

definition validate_commit ::
  "('h \<Rightarrow> 'h \<Rightarrow> 'h list option) \<Rightarrow> ('h::linorder, 's, 'i) Commit \<Rightarrow> 'i VoterSet
     \<Rightarrow> (unit + ('h \<times> u64) option) option" where
  "validate_commit ancestry commit voters =
     (if \<not> list_all (\<lambda>signed. cm_target_number commit \<le> pc_target_number (sp_precommit signed)
             \<and> is_equal_or_descendent_of ancestry (cm_target_hash commit) (pc_target_hash (sp_precommit signed)))
           (cm_precommits commit)
      then Some (Inr None)
      else (case import_commit ancestry (cm_precommits commit) []
                   (round_new \<lparr>rp_round_number = 0, rp_voters = voters,
                               rp_base = (cm_target_hash commit, cm_target_number commit)\<rparr>) of
              None \<Rightarrow> None
            | Some (Inl e) \<Rightarrow> Some (Inl e)
            | Some (Inr None) \<Rightarrow> Some (Inr None)
            | Some (Inr (Some r)) \<Rightarrow> map_option (\<lambda>(g, r). Inr g) (precommit_ghost r)))"

end
