(* ===== verification/Block_Tree.thy ===== *)
theory Block_Tree
  imports Yee_Base
begin

text \<open>
  The tree of blocks as the finality gadget sees it. A chain gives each block its parent
  and its number; \<open>path\<close> follows parents and \<open>descends\<close> is the ancestry relation that all
  of the gadget's routines compute with lists of hashes. The locale \<open>block_chain\<close> is what the
  gadget relies on of \<open>Chain::ancestry\<close> (\<open>core/finality-grandpa/src/lib.rs\<close>); the provider
  is \<open>ancestry\<close> of \<open>core/crfg/src/environment.rs\<close>, on top of the client's \<open>tree_route\<close>.
\<close>

section \<open>Paths\<close>

fun path :: "('h \<rightharpoonup> 'h) \<Rightarrow> 'h \<Rightarrow> 'h list \<Rightarrow> bool" where
  "path par h [] \<longleftrightarrow> True"
| "path par h (x # xs) \<longleftrightarrow> par h = Some x \<and> path par x xs"

definition descends :: "('h \<rightharpoonup> 'h) \<Rightarrow> 'h \<Rightarrow> 'h \<Rightarrow> bool" where
  "descends par a b \<longleftrightarrow> (\<exists>xs. path par b xs \<and> last (b # xs) = a)"

lemma path_append: "path par h (xs @ ys) \<longleftrightarrow> path par h xs \<and> path par (last (h # xs)) ys"
  by (induction xs arbitrary: h) auto

lemma path_take: "path par h xs \<Longrightarrow> path par h (take n xs)"
  using path_append [of par h "take n xs" "drop n xs"] by simp

lemma path_prefix:
  "path par h xs \<Longrightarrow> path par h ys \<Longrightarrow> length xs \<le> length ys \<Longrightarrow> xs = take (length xs) ys"
  by (induction xs arbitrary: h ys) (auto simp: Suc_le_length_iff)

text \<open>A chain written upwards, extended below.\<close>

lemma path_up:
  assumes "path par (last (y # ups)) (tl (rev (y # ups)))" and "par y = Some h"
  shows "path par (last (y # ups)) (tl (rev (h # y # ups)))"
proof -
  obtain t r where r: "rev (y # ups) = t # r" by (cases "rev (y # ups)") auto
  then have e: "y # ups = rev (t # r)" by (metis rev_rev_ident)
  have t: "last (y # ups) = t" unfolding e by simp
  have y: "last (t # r) = y" using arg_cong [OF e, of hd] by (simp only: list.sel hd_rev)
  have "tl (rev (h # y # ups)) = r @ [h]" using r by simp
  then show ?thesis using assms r t y by (simp add: path_append)
qed

lemma descends_refl [simp, intro]: "descends par h h"
  unfolding descends_def by (rule exI [of _ "[]"]) simp

lemma descends_path: "path par h xs \<Longrightarrow> x \<in> set xs \<Longrightarrow> descends par x h"
proof -
  assume p: "path par h xs" and "x \<in> set xs"
  then obtain ys zs where "xs = (ys @ [x]) @ zs" by (auto simp: in_set_conv_decomp)
  then have "path par h (ys @ [x])" using p path_append by metis
  then show "descends par x h" unfolding descends_def by (intro exI [of _ "ys @ [x]"]) simp
qed

lemma descends_path_last:
  assumes "path par h xs" and "x \<in> set xs"
  shows "descends par (last xs) x"
proof -
  obtain ys zs where xs: "xs = (ys @ [x]) @ zs" using assms(2) by (auto simp: in_set_conv_decomp)
  then have "path par x zs" using assms(1) by (metis last_ConsR last_snoc path_append snoc_eq_iff_butlast)
  then show ?thesis unfolding descends_def by (intro exI [of _ zs]) (auto simp: xs)
qed

lemma path_last_descends:
  assumes "path par t r" and "x \<in> set (t # r)"
  shows "descends par (last (t # r)) x"
proof (cases "x \<in> set r")
  case True
  then show ?thesis using descends_path_last [OF assms(1)] by (auto split: if_splits)
next
  case False
  then show ?thesis using assms by (auto simp: descends_def simp del: last.simps)
qed

lemma path_up_descends:
  assumes p: "path par (last (y # ups)) (tl (rev (y # ups)))" and x: "x \<in> set (y # ups)"
  shows "descends par y x"
proof -
  obtain t r where r: "rev (y # ups) = t # r" by (cases "rev (y # ups)") auto
  then have e: "y # ups = rev (t # r)" by (metis rev_rev_ident)
  have y: "last (t # r) = y" using arg_cong [OF e, of hd] by (simp only: list.sel hd_rev)
  have "last (y # ups) = t" unfolding e by simp
  then have "path par t r" using p r by simp
  moreover have "x \<in> set (t # r)" using x unfolding e set_rev .
  ultimately show ?thesis using path_last_descends y by metis
qed

lemma descends_parent: "par b = Some p \<Longrightarrow> descends par p b"
  by (rule descends_path [of par b "[p]"]) simp_all

lemma descends_trans:
  assumes "descends par a b" and "descends par b c"
  shows "descends par a c"
proof -
  obtain xs ys where "path par b xs" "last (b # xs) = a" "path par c ys" "last (c # ys) = b"
    using assms by (auto simp: descends_def)
  then have "path par c (ys @ xs)" "last (c # ys @ xs) = a"
    by (auto simp: path_append split: if_splits)
  then show ?thesis unfolding descends_def by blast
qed

lemma descends_linear:
  assumes "descends par a t" and "descends par b t"
  shows "descends par a b \<or> descends par b a"
proof -
  have prefix: "descends par (last (t # ys)) (last (t # xs))"
    if p: "path par t xs" "path par t ys" and l: "length xs \<le> length ys" for xs ys
  proof -
    have ys: "ys = xs @ drop (length xs) ys" using path_prefix [OF p l] by (metis append_take_drop_id)
    have "path par (last (t # xs)) (drop (length xs) ys)" using p(2) ys by (metis path_append)
    moreover have "last (last (t # xs) # drop (length xs) ys) = last (t # ys)"
      by (subst (2) ys) auto
    ultimately show ?thesis unfolding descends_def by blast
  qed
  obtain xs ys where "path par t xs" "last (t # xs) = a" "path par t ys" "last (t # ys) = b"
    using assms by (auto simp: descends_def)
  then show ?thesis using prefix [of xs ys] prefix [of ys xs] by (cases "length xs \<le> length ys") auto
qed

lemma descends_step: "descends par a b \<longleftrightarrow> a = b \<or> (\<exists>p. par b = Some p \<and> descends par a p)"
proof
  assume "descends par a b"
  then obtain xs where "path par b xs" "last (b # xs) = a" by (auto simp: descends_def)
  then show "a = b \<or> (\<exists>p. par b = Some p \<and> descends par a p)"
    by (cases xs) (auto simp: descends_def split: if_splits)
qed (auto intro: descends_trans descends_parent)

text \<open>The child of \<open>a\<close> on the way to a strict descendent.\<close>

lemma descends_child:
  assumes "descends par a b" and "a \<noteq> b"
  shows "\<exists>c. par c = Some a \<and> descends par c b"
proof -
  obtain xs where xs: "path par b xs" "last (b # xs) = a" using assms(1) by (auto simp: descends_def)
  with \<open>a \<noteq> b\<close> have "xs \<noteq> []" by auto
  then have x: "xs = butlast xs @ [a]" using xs(2) by (metis append_butlast_last_id last_ConsR)
  then have "path par b (butlast xs)" "par (last (b # butlast xs)) = Some a"
    using xs(1) by (metis path_append path.simps(2))+
  then show ?thesis unfolding descends_def by blast
qed

section \<open>Numbered chains\<close>

locale numbered_chain =
  fixes par :: "'h \<rightharpoonup> 'h" and number :: "'h \<Rightarrow> u64"
  assumes number_parent: "par h = Some p \<Longrightarrow> unat (number h) = Suc (unat (number p))"
begin

lemma path_number: "path par h xs \<Longrightarrow> i < length xs \<Longrightarrow> unat (number h) = unat (number (xs ! i)) + Suc i"
proof (induction xs arbitrary: h i)
  case (Cons x xs)
  show ?case
  proof (cases i)
    case 0
    then show ?thesis using Cons.prems number_parent by simp
  next
    case (Suc j)
    then have "unat (number x) = unat (number (xs ! j)) + Suc j" using Cons by simp
    then show ?thesis using Suc Cons.prems number_parent [of h x] by simp
  qed
qed simp

lemma path_number_less: "path par h xs \<Longrightarrow> x \<in> set xs \<Longrightarrow> number x < number h"
  using path_number by (force simp: in_set_conv_nth word_less_nat_alt)

lemma descends_number:
  assumes "descends par a b"
  shows "a = b \<or> number a < number b"
proof -
  obtain xs where xs: "path par b xs" "last (b # xs) = a" using assms by (auto simp: descends_def)
  then show ?thesis using path_number_less [OF xs(1), of a] by (cases xs rule: rev_cases) auto
qed

lemma descends_antisym: "descends par a b \<Longrightarrow> descends par b a \<Longrightarrow> a = b"
  using descends_number [of a b] descends_number [of b a] by auto

lemma descends_same_number: "descends par a t \<Longrightarrow> descends par b t \<Longrightarrow> number a = number b \<Longrightarrow> a = b"
  using descends_linear [of par a t b] descends_number [of a b] descends_number [of b a] by auto

lemma path_not_self: "path par h xs \<Longrightarrow> h \<notin> set xs"
  using path_number_less by blast

lemma path_distinct: "path par h xs \<Longrightarrow> distinct xs"
  by (induction xs arbitrary: h) (auto dest: path_not_self)

text \<open>A block below \<open>h\<close> is on a path from \<open>h\<close> or below its last block.\<close>

lemma descends_path_cases:
  assumes "path par h xs" and "xs \<noteq> []" and "descends par a h"
  shows "a = h \<or> a \<in> set (butlast xs) \<or> descends par a (last xs)"
  using assms
proof (induction xs arbitrary: h)
  case (Cons x xs)
  then consider "a = h" | "descends par a x" using descends_step [of par a h] by auto
  then show ?case
    using Cons.IH [of x] Cons.prems by cases (auto split: if_splits)
qed simp

end

section \<open>The contract of ancestry\<close>

locale block_chain = numbered_chain par number for par :: "'h \<rightharpoonup> 'h" and number :: "'h \<Rightarrow> u64" +
  fixes ancestry :: "'h \<Rightarrow> 'h \<Rightarrow> 'h list option"
  assumes ancestry_Some: "ancestry base block = Some xs \<Longrightarrow> base \<noteq> block \<Longrightarrow> path par block (xs @ [base])"
    and ancestry_None: "ancestry base block = None \<Longrightarrow> base \<noteq> block \<Longrightarrow> \<not> descends par base block"
begin

lemma ancestry_iff: "base \<noteq> block \<Longrightarrow> ancestry base block \<noteq> None \<longleftrightarrow> descends par base block"
  using ancestry_Some [of base block] ancestry_None [of base block] descends_path [of par block] by fastforce

end

section \<open>Ancestry over the client's tree routes\<close>

text \<open>
  \<open>tree_route from to\<close> is the client's: the blocks retracted from \<open>from\<close> on, down to but
  not including the common block, and the common block, the highest common ancestor; \<open>None\<close>
  is its error, for a block that is not known.
\<close>

type_synonym 'h tree_route = "'h \<Rightarrow> 'h \<Rightarrow> ('h list \<times> 'h) option"

definition ancestry :: "'h tree_route \<Rightarrow> 'h \<Rightarrow> 'h \<Rightarrow> 'h list option" where
  "ancestry tree_route base block =
     (if base = block then None
      else (case tree_route block base of
              None \<Rightarrow> None
            | Some (retracted, common_block) \<Rightarrow>
                if common_block \<noteq> base then None else Some (drop 1 retracted)))"

text \<open>\<open>is_descendent_of\<close>: \<open>current\<close> is a block that is not imported yet, and its parent.\<close>

definition is_descendent_of :: "'h tree_route \<Rightarrow> ('h \<times> 'h) option \<Rightarrow> 'h \<Rightarrow> 'h \<Rightarrow> bool option" where
  "is_descendent_of tree_route current base hash =
     (let via_db = (\<lambda>hash. map_option (\<lambda>(retracted, common_block). common_block = base) (tree_route hash base))
      in if base = hash then Some False
         else (case current of
                 None \<Rightarrow> via_db hash
               | Some (current_hash, current_parent_hash) \<Rightarrow>
                   if base = current_hash then Some False
                   else if hash = current_hash
                   then (if base = current_parent_hash then Some True else via_db current_parent_hash)
                   else via_db hash))"

locale tree_routes = numbered_chain par number for par :: "'h \<rightharpoonup> 'h" and number :: "'h \<Rightarrow> u64" +
  fixes tree_route :: "'h tree_route" and known :: "'h \<Rightarrow> bool"
  assumes known_parent: "known b \<Longrightarrow> par b = Some p \<Longrightarrow> known p"
    and unknown_parent: "\<not> known b \<Longrightarrow> par b = None"
    and route_None: "tree_route b a = None \<Longrightarrow> \<not> known b \<or> \<not> known a"
    and route_path: "tree_route b a = Some (retracted, c) \<Longrightarrow>
      (b = c \<and> retracted = []) \<or> (\<exists>xs. retracted = b # xs \<and> path par b (xs @ [c]))"
    and route_common: "tree_route b a = Some (retracted, c) \<Longrightarrow> descends par c a"
    and route_highest: "tree_route b a = Some (retracted, c) \<Longrightarrow> descends par x b \<Longrightarrow> descends par x a
      \<Longrightarrow> descends par x c"
begin

lemma known_descends: "known b \<Longrightarrow> descends par a b \<Longrightarrow> known a"
proof (induction "unat (number b)" arbitrary: b rule: less_induct)
  case less
  from less.prems(2) consider "a = b" | p where "par b = Some p" "descends par a p"
    using descends_step [of par a b] by auto
  then show ?case
  proof cases
    case 2
    then show ?thesis
      using less.hyps [of p] less.prems(1) number_parent [OF 2(1)] known_parent [OF less.prems(1) 2(1)] by simp
  qed (use less in simp)
qed

lemma unknown_descends: "\<not> known b \<Longrightarrow> descends par a b \<Longrightarrow> a = b"
  using descends_step [of par a b] unknown_parent by auto

lemma route_below: "tree_route b a = Some (retracted, c) \<Longrightarrow> descends par c b"
  using route_path [of b a retracted c] descends_path [of par b] by fastforce

lemma common_iff: "tree_route b a = Some (retracted, c) \<Longrightarrow> c = a \<longleftrightarrow> descends par a b"
  using route_below route_common route_highest [of b a retracted c a] descends_antisym by blast

lemma is_descendent_of_imported:
  assumes "known base" and "known hash"
  shows "is_descendent_of tree_route None base hash = Some (base \<noteq> hash \<and> descends par base hash)"
proof -
  obtain retracted c where "tree_route hash base = Some (retracted, c)"
    using assms route_None [of hash base] by (cases "tree_route hash base") auto
  then show ?thesis using common_iff [of hash base] by (simp add: is_descendent_of_def)
qed

end

sublocale tree_routes \<subseteq> block_chain par number "ancestry tree_route"
proof
  fix base block xs
  assume a: "ancestry tree_route base block = Some xs"
  then obtain retracted where r: "tree_route block base = Some (retracted, base)" "base \<noteq> block" "xs = drop 1 retracted"
    by (auto simp: ancestry_def split: if_splits option.splits)
  then show "path par block (xs @ [base])" using route_path [OF r(1)] by auto
next
  fix base block
  assume a: "ancestry tree_route base block = None" "base \<noteq> block"
  show "\<not> descends par base block"
  proof
    assume d: "descends par base block"
    show False
    proof (cases "tree_route block base")
      case None
      then show ?thesis using route_None d a(2) known_descends unknown_descends by blast
    next
      case (Some rc)
      then obtain retracted c where rc: "tree_route block base = Some (retracted, c)" by (cases rc) simp
      then show ?thesis using a d common_iff [OF rc] by (simp add: ancestry_def)
    qed
  qed
qed

end
