(* ===== verification/Vote_Graph_Links.thy ===== *)
theory Vote_Graph_Links
  imports Vote_Graph Block_Tree
begin

text \<open>
  The shape of a vote graph over a numbered chain: every entry's ancestor list is the path
  of parents down to the next entry below it (\<open>linked\<close>), its descendent list is the set of
  entries whose edge ends there (\<open>threaded\<close>), and every entry is below a head (\<open>headed\<close>).
  On such a graph the backwards walk of \<open>find_containing_nodes\<close> terminates and finds exactly
  the nodes whose edge contains the block.
\<close>

section \<open>The shape\<close>

definition linked :: "('h \<rightharpoonup> 'h) \<Rightarrow> ('h \<Rightarrow> u64) \<Rightarrow> 'h \<Rightarrow> ('h \<rightharpoonup> ('h, 'v) Entry) \<Rightarrow> bool" where
  "linked par number base entries \<longleftrightarrow> entries base \<noteq> None \<and>
     (\<forall>h e. entries h = Some e \<longrightarrow>
        en_number e = number h \<and> path par h (en_ancestors e)
        \<and> (\<forall>x\<in>set (butlast (en_ancestors e)). entries x = None)
        \<and> (if h = base then en_ancestors e = []
           else en_ancestors e \<noteq> [] \<and> entries (last (en_ancestors e)) \<noteq> None))"

definition threaded :: "('h \<rightharpoonup> ('h, 'v) Entry) \<Rightarrow> bool" where
  "threaded entries \<longleftrightarrow> (\<forall>h e. entries h = Some e \<longrightarrow> distinct (en_descendents e) \<and>
     (\<forall>d. d \<in> set (en_descendents e) \<longleftrightarrow> (\<exists>e'. entries d = Some e' \<and> ancestor_node e' = Some h)))"

definition headed :: "('h \<rightharpoonup> 'h) \<Rightarrow> ('h \<rightharpoonup> ('h, 'v) Entry) \<Rightarrow> 'h list \<Rightarrow> bool" where
  "headed par entries heads \<longleftrightarrow>
     (\<forall>h. entries h \<noteq> None \<longrightarrow> (\<exists>hd\<in>set heads. entries hd \<noteq> None \<and> descends par h hd))"

definition containing :: "('h \<rightharpoonup> ('h, 'v) Entry) \<Rightarrow> 'h \<Rightarrow> 'h set" where
  "containing entries x = {d. \<exists>e. entries d = Some e \<and> x \<in> set (en_ancestors e)}"

lemma linkedD:
  assumes "linked par number base entries" and "entries h = Some e"
  shows "en_number e = number h" "path par h (en_ancestors e)"
    "x \<in> set (butlast (en_ancestors e)) \<Longrightarrow> entries x = None"
    "h = base \<Longrightarrow> en_ancestors e = []"
    "h \<noteq> base \<Longrightarrow> en_ancestors e \<noteq> []"
    "en_ancestors e \<noteq> [] \<Longrightarrow> entries (last (en_ancestors e)) \<noteq> None"
    "en_ancestors e \<noteq> [] \<Longrightarrow> h \<noteq> base"
  using assms unfolding linked_def by (metis)+

lemma linked_base: "linked par number base entries \<Longrightarrow> entries base \<noteq> None"
  by (simp add: linked_def)

lemma ancestor_node_Some: "ancestor_node e = Some p \<longleftrightarrow> en_ancestors e \<noteq> [] \<and> p = last (en_ancestors e)"
  by (auto simp: ancestor_node_def)

lemma ancestor_node_None: "ancestor_node e = None \<longleftrightarrow> en_ancestors e = []"
  by (simp add: ancestor_node_def)

lemma mem_butlast_or_last: "x \<in> set xs \<Longrightarrow> x \<in> set (butlast xs) \<or> x = last xs"
  by (cases xs rule: rev_cases) auto

lemma unat_offset:
  fixes a n :: u64
  assumes "n < a"
  shows "unat (a - n - 1) = unat a - unat n - 1"
proof -
  have "unat (a - n) = unat a - unat n" using assms by (simp add: unat_sub)
  moreover have "unat n < unat a" using assms by (simp add: word_less_nat_alt)
  ultimately have "1 \<le> a - n" by (simp add: word_le_nat_alt)
  then have "unat (a - n - 1) = unat (a - n) - 1" by (simp add: unat_sub)
  then show ?thesis using \<open>unat (a - n) = unat a - unat n\<close> by simp
qed

context numbered_chain
begin

lemma ancestor_block_iff:
  assumes "en_number e = number h" and p: "path par h (en_ancestors e)"
  shows "ancestor_block e n = Some y \<longleftrightarrow> y \<in> set (en_ancestors e) \<and> number y = n"
proof
  assume "ancestor_block e n = Some y"
  then have n: "n < number h" and i: "unat (number h - n - 1) < length (en_ancestors e)"
    and y: "y = en_ancestors e ! unat (number h - n - 1)"
    using assms(1) by (auto simp: ancestor_block_def Let_def split: if_splits)
  have "unat (number h) = unat (number y) + Suc (unat (number h - n - 1))"
    using path_number [OF p i] y by simp
  then have "unat (number y) = unat n" using n unat_offset [OF n] by (simp add: word_less_nat_alt)
  then show "y \<in> set (en_ancestors e) \<and> number y = n" using y i by (simp add: word_unat_eq_iff)
next
  assume y: "y \<in> set (en_ancestors e) \<and> number y = n"
  then obtain i where i: "i < length (en_ancestors e)" "y = en_ancestors e ! i" by (auto simp: in_set_conv_nth)
  have "unat (number h) = unat n + Suc i" using path_number [OF p i(1)] y i(2) by simp
  moreover from this have n: "n < number h" by (simp add: word_less_nat_alt)
  ultimately have "unat (number h - n - 1) = i" using unat_offset [OF n] by simp
  then show "ancestor_block e n = Some y" using n i assms(1) by (auto simp: ancestor_block_def Let_def)
qed

lemma in_direct_ancestry_cases:
  assumes "en_number e = number h" "path par h (en_ancestors e)"
  shows "in_direct_ancestry e x n = Some True \<longleftrightarrow> x \<in> set (en_ancestors e) \<and> number x = n"
    and "in_direct_ancestry e x n = None \<longleftrightarrow> (\<forall>y\<in>set (en_ancestors e). number y \<noteq> n)"
  using ancestor_block_iff [OF assms, of n]
  by (auto simp: in_direct_ancestry_def) (metis not_None_eq)+

lemma linked_has_block:
  assumes "linked par number base entries" "entries h = Some e"
  shows "has_block x n e \<longleftrightarrow> x \<in> set (en_ancestors e) \<and> number x = n"
  using in_direct_ancestry_cases(1) [OF linkedD(1,2) [OF assms]] by (simp add: has_block_def)

lemma prev_number:
  assumes "linked par number base entries" "entries h = Some e" "ancestor_node e = Some p"
  shows "number p < number h"
  using path_number_less [OF linkedD(2) [OF assms(1,2)], of p] assms(3)
  by (simp add: ancestor_node_Some)

lemma prev_entry:
  assumes "linked par number base entries" "entries h = Some e" "ancestor_node e = Some p"
  obtains e' where "entries p = Some e'" "descends par p h"
  using linkedD(6) [OF assms(1,2)] assms(3) descends_path [OF linkedD(2) [OF assms(1,2)], of p]
  by (auto simp: ancestor_node_Some)

text \<open>Entries are at or above the base, by induction on the number.\<close>

lemma entry_above_base:
  assumes l: "linked par number base entries"
  shows "entries h = Some e \<Longrightarrow> descends par base h"
proof (induction "unat (number h)" arbitrary: h e rule: less_induct)
  case less
  show ?case
  proof (cases "ancestor_node e")
    case None
    then have "h = base" using linkedD(5) [OF l less.prems] by (auto simp: ancestor_node_None)
    then show ?thesis by simp
  next
    case (Some p)
    then obtain e' where "entries p = Some e'" "descends par p h" using prev_entry [OF l less.prems] by blast
    moreover have "number p < number h" using prev_number [OF l less.prems Some] .
    ultimately show ?thesis using less.hyps [of p e'] descends_trans by (auto simp: word_less_nat_alt)
  qed
qed

lemma entry_below:
  assumes l: "linked par number base entries" and h: "entries h = Some e"
    and a: "entries a \<noteq> None" "descends par a h" "a \<noteq> h"
  obtains p where "ancestor_node e = Some p" "descends par a p"
proof -
  have "h \<noteq> base"
    using a entry_above_base [OF l] descends_antisym by fastforce
  then have n: "en_ancestors e \<noteq> []" using linkedD(5) [OF l h] by blast
  then show thesis
    using that [of "last (en_ancestors e)"] descends_path_cases [OF linkedD(2) [OF l h] n a(2)]
      linkedD(3) [OF l h, of a] a by (auto simp: ancestor_node_Some)
qed

lemma containing_number:
  assumes "linked par number base entries" "d \<in> containing entries x"
  shows "number x < number d"
  using assms linkedD(2) [OF assms(1)] path_number_less by (fastforce simp: containing_def)

text \<open>A block that is not an entry but has an entry above it is on the edge of exactly one node on the way.\<close>

lemma containing_node:
  assumes l: "linked par number base entries" and x: "entries x = None" "descends par base x"
  shows "entries t = Some e \<Longrightarrow> descends par x t \<Longrightarrow> \<exists>d\<in>containing entries x. descends par d t"
proof (induction "unat (number t)" arbitrary: t e rule: less_induct)
  case less
  have "t \<noteq> base"
    using less.prems x linked_base [OF l] descends_antisym by fastforce
  then have n: "en_ancestors e \<noteq> []" using linkedD(5) [OF l less.prems(1)] by blast
  note p = linkedD(2) [OF l less.prems(1)]
  consider "x \<in> set (butlast (en_ancestors e))" | "descends par x (last (en_ancestors e))"
    using descends_path_cases [OF p n less.prems(2)] x less.prems(1) by auto
  then show ?case
  proof cases
    case 1
    then have "t \<in> containing entries x" using less.prems(1) by (auto simp: containing_def dest: in_set_butlastD)
    then show ?thesis by blast
  next
    case 2
    obtain e' where e': "entries (last (en_ancestors e)) = Some e'" using linkedD(6) [OF l less.prems(1) n] by blast
    have "number (last (en_ancestors e)) < number t" using path_number_less [OF p] n by simp
    then obtain d where d: "d \<in> containing entries x" "descends par d (last (en_ancestors e))"
      using less.hyps [OF _ e' 2] by (auto simp: word_less_nat_alt)
    have "descends par (last (en_ancestors e)) t" using descends_path [OF p] n by simp
    then show ?thesis using descends_trans [OF d(2)] d(1) by blast
  qed
qed

end

section \<open>The search for containing nodes\<close>

text \<open>
  What the walk keeps: the keys are the visited nodes that contain the block, and from a visited
  node the walk has gone on, or is about to go on, to the node below.
\<close>

definition closed :: "('h \<Rightarrow> u64) \<Rightarrow> ('h \<rightharpoonup> ('h, 'v) Entry) \<Rightarrow> 'h \<Rightarrow> 'h list \<Rightarrow> 'h list \<Rightarrow> 'h set \<Rightarrow> bool" where
  "closed number entries x visited keys pending \<longleftrightarrow>
     distinct keys \<and> set keys = set visited \<inter> containing entries x
     \<and> (\<forall>v\<in>set visited. \<forall>e p. entries v = Some e \<and> (\<forall>y\<in>set (en_ancestors e). number y \<noteq> number x)
          \<and> ancestor_node e = Some p \<longrightarrow> p \<in> set visited \<union> pending)"

context numbered_chain
begin

lemma containing_loop_closed:
  assumes l: "linked par number base entries"
  shows "entries head = Some e \<Longrightarrow> closed number entries x visited keys {head} \<Longrightarrow>
    \<exists>visited' keys'. containing_loop entries x (number x) head visited keys = Some (visited', keys')
      \<and> closed number entries x visited' keys' {} \<and> insert head (set visited) \<subseteq> set visited'"
proof (induction "unat (number head)" arbitrary: head e visited rule: less_induct)
  case less
  note h = less.prems(1) and c = less.prems(2)
  note dir = in_direct_ancestry_cases [OF linkedD(1,2) [OF l h], of x "number x"]
  show ?case
  proof (cases "head \<in> set visited")
    case True
    then have "containing_loop entries x (number x) head visited keys = Some (visited, keys)"
      using h by (simp add: containing_loop.simps)
    moreover have "closed number entries x visited keys {}" using c True by (auto simp: closed_def)
    ultimately show ?thesis using True by auto
  next
    case new: False
    show ?thesis
    proof (cases "in_direct_ancestry e x (number x)")
      case (Some direct)
      then have "\<exists>y\<in>set (en_ancestors e). number y = number x" using dir(2) by auto
      moreover have "direct \<longleftrightarrow> head \<in> containing entries x" using Some dir(1) h by (auto simp: containing_def)
      ultimately show ?thesis
        using h c new Some by (subst containing_loop.simps) (cases direct; auto simp: closed_def)
    next
      case None
      then have out: "head \<notin> containing entries x" using dir h by (auto simp: containing_def)
      show ?thesis
      proof (cases "ancestor_node e")
        case None
        then show ?thesis
          using h c new out \<open>in_direct_ancestry e x (number x) = None\<close>
          by (subst containing_loop.simps) (auto simp: closed_def)
      next
        case (Some p)
        obtain e' where p: "entries p = Some e'" using prev_entry [OF l h Some] by blast
        have "closed number entries x (head # visited) keys {p}"
          using c out Some h by (auto simp: closed_def)
        from less.hyps [OF _ p this] prev_number [OF l h Some] show ?thesis
          using h new Some \<open>in_direct_ancestry e x (number x) = None\<close>
          by (subst containing_loop.simps) (auto simp: word_less_nat_alt)
      qed
    qed
  qed
qed

lemma containing_heads_closed:
  assumes l: "linked par number base entries"
  shows "closed number entries x visited keys {} \<Longrightarrow>
    \<exists>visited' keys'. containing_heads entries x (number x) heads visited keys = Some keys'
      \<and> closed number entries x visited' keys' {} \<and> set visited \<union> {h \<in> set heads. entries h \<noteq> None} \<subseteq> set visited'"
proof (induction heads arbitrary: visited keys)
  case (Cons h heads)
  show ?case
  proof (cases "entries h")
    case None
    then have "{h' \<in> set (h # heads). entries h' \<noteq> None} = {h' \<in> set heads. entries h' \<noteq> None}" by auto
    then show ?thesis
      unfolding containing_heads.simps using None Cons.IH [OF Cons.prems]
      by (simp add: containing_loop.simps [of entries x "number x" h])
  next
    case (Some e)
    have "closed number entries x visited keys {h}" using Cons.prems by (auto simp: closed_def)
    from containing_loop_closed [OF l Some this] obtain visited1 keys1
      where *: "containing_loop entries x (number x) h visited keys = Some (visited1, keys1)"
        "closed number entries x visited1 keys1 {}" "insert h (set visited) \<subseteq> set visited1" by blast
    from Cons.IH [OF *(2)] obtain visited' keys'
      where "containing_heads entries x (number x) heads visited1 keys1 = Some keys'"
        "closed number entries x visited' keys' {}" "set visited1 \<union> {h \<in> set heads. entries h \<noteq> None} \<subseteq> set visited'"
      by blast
    with * show ?thesis by (intro exI [of _ visited'] exI [of _ keys']) auto
  qed
qed auto

lemma closed_reaches:
  assumes l: "linked par number base entries" and c: "closed number entries x visited keys {}"
    and d: "d \<in> containing entries x"
  shows "entries h = Some e \<Longrightarrow> h \<in> set visited \<Longrightarrow> descends par d h \<Longrightarrow> d \<in> set visited"
proof (induction "unat (number h)" arbitrary: h e rule: less_induct)
  case less
  show ?case
  proof (cases "d = h")
    case False
    have "entries d \<noteq> None" using d by (auto simp: containing_def)
    from entry_below [OF l less.prems(1) this less.prems(3) False]
    obtain p where p: "ancestor_node e = Some p" "descends par d p" .
    have "number y \<noteq> number x" if y: "y \<in> set (en_ancestors e)" for y
    proof
      assume eq: "number y = number x"
      have y': "descends par y h" using descends_path [OF linkedD(2) [OF l less.prems(1)] y] .
      have "x \<in> set (en_ancestors (the (entries d)))" "path par d (en_ancestors (the (entries d)))"
        using d linkedD(2) [OF l] by (auto simp: containing_def)
      then have "descends par x d" by (intro descends_path)
      then have "descends par x h" using descends_trans less.prems(3) by metis
      then have "y = x" using descends_same_number y' eq by blast
      then have "descends par p x"
        using y p(1) descends_path_last [OF linkedD(2) [OF l less.prems(1)]] by (auto simp: ancestor_node_Some)
      then have "number p \<le> number x" using descends_number by fastforce
      moreover have "number d \<le> number p" using p(2) descends_number by fastforce
      ultimately show False using containing_number [OF l d] by simp
    qed
    then have "p \<in> set visited" using c less.prems p(1) by (auto simp: closed_def)
    moreover obtain e' where "entries p = Some e'" using prev_entry [OF l less.prems(1) p(1)] by blast
    ultimately show ?thesis
      using less.hyps [of p e'] prev_number [OF l less.prems(1) p(1)] p(2) by (auto simp: word_less_nat_alt)
  qed (use less in simp)
qed

lemma find_containing_nodes_spec:
  assumes l: "linked par number (vg_base g) (vg_entries g)" and hd: "headed par (vg_entries g) (vg_heads g)"
    and x: "vg_entries g x = None"
  obtains keys where "find_containing_nodes g x (number x) = Some (Some keys)" "distinct keys"
    "set keys = containing (vg_entries g) x"
proof -
  have "closed number (vg_entries g) x [] [] {}" by (simp add: closed_def)
  from containing_heads_closed [OF l this, of "vg_heads g"] obtain visited keys
    where *: "containing_heads (vg_entries g) x (number x) (vg_heads g) [] [] = Some keys"
      "closed number (vg_entries g) x visited keys {}" "{h \<in> set (vg_heads g). vg_entries g h \<noteq> None} \<subseteq> set visited" by auto
  have "containing (vg_entries g) x \<subseteq> set visited"
  proof
    fix d
    assume d: "d \<in> containing (vg_entries g) x"
    then obtain h where "h \<in> set (vg_heads g)" "vg_entries g h \<noteq> None" "descends par d h"
      using hd by (fastforce simp: headed_def containing_def)
    then show "d \<in> set visited" using closed_reaches [OF l *(2) d, of h] *(3) by auto
  qed
  then have "set keys = containing (vg_entries g) x" using *(2) by (auto simp: closed_def)
  then show thesis using that [of keys] *(1,2) x by (auto simp: find_containing_nodes_def closed_def)
qed

end

end
