(* ===== verification/Vote_Graph_Votes.thy ===== *)
theory Vote_Graph_Votes
  imports Vote_Graph_Links
begin

text \<open>
  Inserting votes into the graph. The abstraction of a graph is the function from blocks to
  the votes cast on them directly; the cumulative vote stored at a node stands for the votes
  on the node's block and on all blocks above it, whatever nodes the graph happens to
  have. Both ways of making a node, splitting edges and appending, are one operation on
  the entries, which keeps this invariant; adding a vote along the walk to the base then
  updates the abstraction at one block.
\<close>

section \<open>Vote values\<close>

locale vote_values =
  fixes add :: "'v \<Rightarrow> 'v \<Rightarrow> 'v option" and zero :: 'v and carrier :: "'v \<Rightarrow> bool" and votes_of :: "'v \<Rightarrow> 'x set"
  assumes add_defined: "carrier a \<Longrightarrow> carrier b \<Longrightarrow> \<exists>c. add a b = Some c \<and> carrier c \<and> votes_of c = votes_of a \<union> votes_of b"
    and zero_carrier: "carrier zero" and zero_votes: "votes_of zero = {}"

definition cast_above :: "('h \<rightharpoonup> 'h) \<Rightarrow> ('h \<Rightarrow> 'x set) \<Rightarrow> 'h \<Rightarrow> 'x set" where
  "cast_above par cast h = (\<Union>t\<in>{t. descends par h t}. cast t)"

definition counted ::
  "('h \<rightharpoonup> 'h) \<Rightarrow> ('v \<Rightarrow> bool) \<Rightarrow> ('v \<Rightarrow> 'x set) \<Rightarrow> ('h \<Rightarrow> 'x set) \<Rightarrow> ('h \<rightharpoonup> ('h, 'v) Entry) \<Rightarrow> bool" where
  "counted par carrier votes_of cast entries \<longleftrightarrow>
     (\<forall>h e. entries h = Some e \<longrightarrow> carrier (en_cumulative_vote e)
        \<and> votes_of (en_cumulative_vote e) = cast_above par cast h)
     \<and> (\<forall>t. entries t = None \<longrightarrow> cast t = {})"

definition graph_inv ::
  "('h \<rightharpoonup> 'h) \<Rightarrow> ('h \<Rightarrow> u64) \<Rightarrow> ('v \<Rightarrow> bool) \<Rightarrow> ('v \<Rightarrow> 'x set) \<Rightarrow> ('h \<Rightarrow> 'x set) \<Rightarrow> ('h, 'v) VoteGraph \<Rightarrow> bool" where
  "graph_inv par number carrier votes_of cast g \<longleftrightarrow>
     linked par number (vg_base g) (vg_entries g) \<and> threaded (vg_entries g)
     \<and> headed par (vg_entries g) (vg_heads g)
     \<and> counted par carrier votes_of cast (vg_entries g)"

lemma countedD:
  assumes "counted par carrier votes_of cast entries"
  shows "entries h = Some e \<Longrightarrow> carrier (en_cumulative_vote e)"
    "entries h = Some e \<Longrightarrow> votes_of (en_cumulative_vote e) = cast_above par cast h"
    "entries t = None \<Longrightarrow> cast t = {}"
  using assms unfolding counted_def by blast+

lemma countedI:
  assumes "\<And>h e. entries h = Some e \<Longrightarrow>
      carrier (en_cumulative_vote e) \<and> votes_of (en_cumulative_vote e) = cast_above par cast h"
    and "\<And>t. entries t = None \<Longrightarrow> cast t = {}"
  shows "counted par carrier votes_of cast entries"
  using assms unfolding counted_def by blast

lemma cast_above_mono: "descends par a b \<Longrightarrow> cast_above par cast b \<subseteq> cast_above par cast a"
  unfolding cast_above_def using descends_trans [of par a b] by blast

lemma cast_above_update:
  "cast_above par (cast(x := cast x \<union> v)) h = cast_above par cast h \<union> (if descends par h x then v else {})"
  by (auto simp: cast_above_def split: if_splits)

section \<open>A new node\<close>

text \<open>
  The entries with a node for \<open>x\<close> added: the edges of the nodes \<open>ds\<close>, which contain \<open>x\<close>, now
  end at \<open>x\<close>, and the edge of \<open>x\<close> is \<open>B\<close>.
\<close>

definition node_added ::
  "u64 \<Rightarrow> 'h \<Rightarrow> 'h list \<Rightarrow> 'h list \<Rightarrow> 'v \<Rightarrow> ('h \<rightharpoonup> ('h, 'v) Entry) \<Rightarrow> ('h \<rightharpoonup> ('h, 'v) Entry)" where
  "node_added n x B ds c entries = (\<lambda>h.
     if h = x then Some \<lparr>en_number = n, en_ancestors = B, en_descendents = ds, en_cumulative_vote = c\<rparr>
     else map_option (\<lambda>e. e\<lparr>
       en_ancestors := if h \<in> set ds then take (unat (en_number e - n)) (en_ancestors e) else en_ancestors e,
       en_descendents := if h = last B then filter (\<lambda>d. d \<notin> set ds) (en_descendents e) @ [x] else en_descendents e\<rparr>)
       (entries h))"

definition link :: "('h \<rightharpoonup> ('h, 'v) Entry) \<Rightarrow> 'h \<rightharpoonup> 'h" where
  "link entries d = Option.bind (entries d) ancestor_node"

lemma threaded_iff:
  "threaded entries \<longleftrightarrow>
     (\<forall>h e. entries h = Some e \<longrightarrow> distinct (en_descendents e) \<and> set (en_descendents e) = {d. link entries d = Some h})"
  unfolding threaded_def link_def set_eq_iff by (auto simp: bind_eq_Some_conv)

lemma node_added_Some:
  "h \<noteq> x \<Longrightarrow> node_added n x B ds c entries h = Some e' \<Longrightarrow>
     \<exists>e. entries h = Some e \<and> en_number e' = en_number e \<and> en_cumulative_vote e' = en_cumulative_vote e
       \<and> en_ancestors e' = (if h \<in> set ds then take (unat (en_number e - n)) (en_ancestors e) else en_ancestors e)
       \<and> en_descendents e' = (if h = last B then filter (\<lambda>d. d \<notin> set ds) (en_descendents e) @ [x] else en_descendents e)"
  by (auto simp: node_added_def)

lemma node_added_None: "node_added n x B ds c entries h = None \<longleftrightarrow> h \<noteq> x \<and> entries h = None"
  by (auto simp: node_added_def)

context numbered_chain
begin

lemma edge_unique:
  assumes "path par x A" "path par x B" "A \<noteq> []" "B \<noteq> []" "entries (last A) \<noteq> None" "entries (last B) \<noteq> None"
    and "\<forall>y\<in>set (butlast A). entries y = None" "\<forall>y\<in>set (butlast B). entries y = None"
  shows "A = B"
proof -
  have shorter: "length ys \<le> length xs"
    if p: "path par x xs" "path par x ys" and xs: "xs \<noteq> []" "entries (last xs) \<noteq> None"
      and ys: "\<forall>y\<in>set (butlast ys). entries y = None" for xs ys
  proof (rule ccontr)
    assume "\<not> length ys \<le> length xs"
    then have l: "length xs < length ys" by simp
    then have "xs = take (length xs) ys" using path_prefix [OF p] by simp
    also have "\<dots> = take (length xs) (butlast ys)" using l by (simp add: take_butlast)
    finally have "last xs \<in> set (butlast ys)" using xs(1) by (metis in_set_takeD last_in_set)
    then show False using xs(2) ys by simp
  qed
  have "length A = length B" using shorter [of A B] shorter [of B A] assms by simp
  then show ?thesis using path_prefix [OF assms(1,2)] by simp
qed

lemma edge_split:
  assumes l: "linked par number base entries" and d: "entries d = Some e" and x: "x \<in> set (en_ancestors e)" "entries x = None"
  obtains A C where "en_ancestors e = A @ x # C" "unat (en_number e - number x) = Suc (length A)" "C \<noteq> []"
    "path par d (A @ [x])" "path par x C" "last C = last (en_ancestors e)"
proof -
  obtain A C where s: "en_ancestors e = A @ x # C" using x(1) by (auto simp: in_set_conv_decomp)
  note p = linkedD(2) [OF l d]
  have "en_ancestors e \<noteq> []" using x(1) by auto
  then have "entries (last (en_ancestors e)) \<noteq> None" by (rule linkedD(6) [OF l d])
  then have c: "C \<noteq> []" using s x(2) by auto
  have n: "unat (number d) = unat (number x) + Suc (length A)"
    using path_number [OF p, of "length A"] by (simp add: s)
  then have "unat (en_number e - number x) = Suc (length A)"
    using linkedD(1) [OF l d] by (simp add: unat_sub word_le_nat_alt)
  moreover have "path par d (A @ [x])" "path par x C"
    using p path_append [of par d "A @ [x]" C] by (simp_all add: s)
  ultimately show thesis using that s c by simp
qed

lemma new_node_facts:
  assumes l: "linked par number base entries" and x: "entries x = None"
    and B: "B \<noteq> []" "path par x B" "entries (last B) \<noteq> None" "\<forall>y\<in>set (butlast B). entries y = None"
    and ds: "set ds = containing entries x"
  shows "last B \<notin> set ds" and "last B \<noteq> x" and "x \<noteq> base"
    and "d \<in> set ds \<Longrightarrow> entries d = Some e \<Longrightarrow>
      (\<exists>A. take (unat (en_number e - number x)) (en_ancestors e) = A @ [x] \<and> en_ancestors e = A @ x # B
         \<and> path par d (A @ [x]) \<and> d \<noteq> base)"
proof -
  have "number (last B) < number x" using path_number_less [OF B(2)] B(1) by simp
  then show "last B \<notin> set ds" using containing_number [OF l, of "last B" x] ds by auto
  show "last B \<noteq> x" "x \<noteq> base" using B(3) x linked_base [OF l] by auto
  assume d: "d \<in> set ds" "entries d = Some e"
  then have xe: "x \<in> set (en_ancestors e)" using ds by (auto simp: containing_def)
  from edge_split [OF l d(2) this x] obtain A C where s: "en_ancestors e = A @ x # C"
    "unat (en_number e - number x) = Suc (length A)" "C \<noteq> []" "path par d (A @ [x])" "path par x C"
    "last C = last (en_ancestors e)" .
  have "entries (last C) \<noteq> None" using linkedD(6) [OF l d(2)] s(1,6) by simp
  moreover have "\<forall>y\<in>set (butlast C). entries y = None"
    using linkedD(3) [OF l d(2)] s(1,3) by (auto simp: butlast_append)
  ultimately have "C = B" using edge_unique [of x C B entries] s(3,5) B by simp
  then show "\<exists>A. take (unat (en_number e - number x)) (en_ancestors e) = A @ [x] \<and> en_ancestors e = A @ x # B
      \<and> path par d (A @ [x]) \<and> d \<noteq> base"
    using s linkedD(7) [OF l d(2)] by auto
qed

lemma node_added_linked:
  assumes l: "linked par number base entries" and x: "entries x = None"
    and B: "B \<noteq> []" "path par x B" "entries (last B) \<noteq> None" "\<forall>y\<in>set (butlast B). entries y = None"
    and ds: "set ds = containing entries x"
  shows "linked par number base (node_added (number x) x B ds c entries)"
proof -
  note facts = new_node_facts [OF l x B ds]
  let ?E = "node_added (number x) x B ds c entries"
  have "en_number e = number h \<and> path par h (en_ancestors e)
        \<and> (\<forall>y\<in>set (butlast (en_ancestors e)). ?E y = None)
        \<and> (if h = base then en_ancestors e = [] else en_ancestors e \<noteq> [] \<and> ?E (last (en_ancestors e)) \<noteq> None)"
    if h: "?E h = Some e" for h e
  proof (cases "h = x")
    case True
    then have e: "en_number e = number x" "en_ancestors e = B" using h by (auto simp: node_added_def)
    have "x \<notin> set (butlast B)" using path_not_self [OF B(2)] in_set_butlastD by fast
    then show ?thesis using True e B facts(3) by (auto simp: node_added_None)
  next
    case False
    from node_added_Some [OF False h] obtain e0 where e0: "entries h = Some e0" "en_number e = en_number e0"
      "en_ancestors e = (if h \<in> set ds then take (unat (en_number e0 - number x)) (en_ancestors e0) else en_ancestors e0)"
      by blast
    note old = linkedD [OF l e0(1)]
    show ?thesis
    proof (cases "h \<in> set ds")
      case True
      from facts(4) [OF True e0(1)] obtain A where A: "en_ancestors e = A @ [x]" "en_ancestors e0 = A @ x # B"
        "path par h (A @ [x])" "h \<noteq> base" using e0(3) True by auto
      have "\<forall>y\<in>set A. entries y = None" using old(3) A(2) B(1) by (auto simp: butlast_append)
      moreover have "x \<notin> set A" using path_distinct [OF A(3)] by simp
      ultimately show ?thesis using A e0(2) old(1) by (auto simp: node_added_None)
    next
      case out: False
      then have "x \<notin> set (en_ancestors e0)" using ds e0(1) by (auto simp: containing_def)
      then have "x \<notin> set (butlast (en_ancestors e0))" by (auto dest: in_set_butlastD)
      then have "\<forall>y\<in>set (butlast (en_ancestors e0)). ?E y = None" using old(3) by (auto simp: node_added_None)
      moreover have "h \<noteq> base \<Longrightarrow> ?E (last (en_ancestors e0)) \<noteq> None"
        using old(5,6) by (simp add: node_added_None)
      moreover have "en_ancestors e = en_ancestors e0" using e0(3) out by simp
      ultimately show ?thesis using e0(2) old(1,2,4,5) by simp
    qed
  qed
  moreover have "?E base \<noteq> None" using linked_base [OF l] by (simp add: node_added_None)
  ultimately show ?thesis unfolding linked_def by blast
qed

lemma node_added_link:
  assumes l: "linked par number base entries" and x: "entries x = None"
    and B: "B \<noteq> []" "path par x B" "entries (last B) \<noteq> None" "\<forall>y\<in>set (butlast B). entries y = None"
    and ds: "set ds = containing entries x"
  shows "link (node_added (number x) x B ds c entries) d =
      (if d = x then Some (last B) else if d \<in> set ds then Some x else link entries d)"
    and "d \<in> set ds \<Longrightarrow> link entries d = Some (last B)"
    and "link entries d \<noteq> Some x" and "link entries x = None"
proof -
  note facts = new_node_facts [OF l x B ds]
  have in_ds: "\<exists>e. entries d = Some e" if "d \<in> set ds" for d using that ds by (auto simp: containing_def)
  show "link (node_added (number x) x B ds c entries) d =
      (if d = x then Some (last B) else if d \<in> set ds then Some x else link entries d)"
  proof (cases "d = x \<or> entries d = None")
    case True
    then show ?thesis using B(1) in_ds [of d] by (auto simp: link_def node_added_def ancestor_node_def)
  next
    case False
    then obtain e where "entries d = Some e" by auto
    then show ?thesis using False facts(4) [of d e] by (auto simp: link_def node_added_def ancestor_node_def)
  qed
  show "d \<in> set ds \<Longrightarrow> link entries d = Some (last B)"
    using in_ds [of d] facts(4) [of d] B(1) by (fastforce simp: link_def ancestor_node_def)
  show "link entries d \<noteq> Some x"
    using linkedD(6) [OF l, of d] x by (fastforce simp: link_def bind_eq_Some_conv ancestor_node_Some)
  show "link entries x = None" using x by (simp add: link_def)
qed

lemma node_added_threaded:
  assumes l: "linked par number base entries" and x: "entries x = None"
    and B: "B \<noteq> []" "path par x B" "entries (last B) \<noteq> None" "\<forall>y\<in>set (butlast B). entries y = None"
    and ds: "set ds = containing entries x" "distinct ds" and t: "threaded entries"
  shows "threaded (node_added (number x) x B ds c entries)"
  unfolding threaded_iff
proof (intro allI impI)
  note lk = node_added_link(1) [OF l x B ds(1), where c = c] node_added_link(2-4) [OF l x B ds(1)] and facts = new_node_facts [OF l x B ds(1)]
  fix h e
  assume h: "node_added (number x) x B ds c entries h = Some e"
  show "distinct (en_descendents e) \<and> set (en_descendents e)
      = {d. link (node_added (number x) x B ds c entries) d = Some h}"
  proof (cases "h = x")
    case True
    then have "en_descendents e = ds" using h by (auto simp: node_added_def)
    moreover have "x \<notin> set ds" using ds(1) x by (auto simp: containing_def)
    ultimately show ?thesis using True ds(2) facts(2) lk(3) by (auto simp: lk(1) split: if_splits)
  next
    case False
    from node_added_Some [OF False h] obtain e0 where e0: "entries h = Some e0"
      "en_descendents e = (if h = last B then filter (\<lambda>d. d \<notin> set ds) (en_descendents e0) @ [x] else en_descendents e0)"
      by blast
    have old: "distinct (en_descendents e0)" "set (en_descendents e0) = {d. link entries d = Some h}"
      using t e0(1) unfolding threaded_iff by blast+
    show ?thesis using False e0(2) old lk(2,4) by (auto simp: lk(1) split: if_splits)
  qed
qed

lemma node_added_counted:
  assumes c: "counted par carrier votes_of cast entries" and "entries x = None"
    and v: "carrier c" "votes_of c = cast_above par cast x"
  shows "counted par carrier votes_of cast (node_added n x B ds c entries)"
proof (rule countedI)
  fix h e
  assume h: "node_added n x B ds c entries h = Some e"
  show "carrier (en_cumulative_vote e) \<and> votes_of (en_cumulative_vote e) = cast_above par cast h"
  proof (cases "h = x")
    case True
    then have "en_cumulative_vote e = c" using h by (auto simp: node_added_def)
    then show ?thesis using v unfolding True by metis
  next
    case False
    from node_added_Some [OF False h] obtain e0 where e0: "entries h = Some e0" "en_cumulative_vote e = en_cumulative_vote e0"
      by blast
    show ?thesis unfolding e0(2) by (intro conjI countedD(1,2) [OF c e0(1)])
  qed
next
  fix t
  assume "node_added n x B ds c entries t = None"
  then show "cast t = {}" using countedD(3) [OF c] by (simp add: node_added_None)
qed

text \<open>The votes above a block that is not a node are those of the nodes whose edge contains it.\<close>

lemma cast_above_containing:
  assumes l: "linked par number base entries" and c: "counted par carrier votes_of cast entries"
    and x: "entries x = None" "descends par base x"
  shows "cast_above par cast x = (\<Union>d\<in>containing entries x. cast_above par cast d)"
proof
  show "cast_above par cast x \<subseteq> (\<Union>d\<in>containing entries x. cast_above par cast d)"
  proof
    fix v
    assume "v \<in> cast_above par cast x"
    then obtain t where t: "descends par x t" "v \<in> cast t" by (auto simp: cast_above_def)
    then obtain e where "entries t = Some e" using countedD(3) [OF c, of t] by (cases "entries t") auto
    from containing_node [OF l x this t(1)] show "v \<in> (\<Union>d\<in>containing entries x. cast_above par cast d)"
      using t(2) by (auto simp: cast_above_def)
  qed
  show "(\<Union>d\<in>containing entries x. cast_above par cast d) \<subseteq> cast_above par cast x"
  proof (rule UN_least)
    fix d
    assume "d \<in> containing entries x"
    then obtain e where "entries d = Some e" "x \<in> set (en_ancestors e)" by (auto simp: containing_def)
    then show "cast_above par cast d \<subseteq> cast_above par cast x"
      using descends_path [OF linkedD(2) [OF l]] cast_above_mono by metis
  qed
qed

end

end
