(* ===== verification/Vote_Graph_Insert.thy ===== *)
theory Vote_Graph_Insert
  imports Vote_Graph_Votes
begin

text \<open>
  \<open>insert\<close> keeps the invariant of the vote graph and refines the addition of a vote to one
  block: \<open>introduce_branch\<close> and \<open>append\<close> are both the addition of a node, and the loop to
  the base adds the vote to exactly the nodes at or below the block. It fails only for a
  block that does not descend from the base, and it always returns.
\<close>

section \<open>Splitting edges\<close>

definition cut_edges :: "u64 \<Rightarrow> 'h set \<Rightarrow> ('h \<rightharpoonup> ('h, 'v) Entry) \<Rightarrow> ('h \<rightharpoonup> ('h, 'v) Entry)" where
  "cut_edges n D entries = (\<lambda>h. if h \<in> D
     then map_option (\<lambda>e. e\<lparr>en_ancestors := take (unat (en_number e - n)) (en_ancestors e)\<rparr>) (entries h)
     else entries h)"

context vote_values
begin

lemma branch_fold_spec:
  assumes "distinct ds" and "carrier (en_cumulative_vote new)"
    and "\<forall>d\<in>set ds. \<exists>e. entries d = Some e \<and> n \<le> en_number e
      \<and> unat (en_number e - n) \<le> length (en_ancestors e) \<and> carrier (en_cumulative_vote e)"
  shows "\<exists>c. branch_fold add zero n ds entries (Some (new, prev))
      = Some (cut_edges n (set ds) entries,
          Some (new\<lparr>en_descendents := en_descendents new @ ds, en_cumulative_vote := c\<rparr>, prev))
    \<and> carrier c \<and> votes_of c = votes_of (en_cumulative_vote new)
        \<union> (\<Union>d\<in>set ds. votes_of (en_cumulative_vote (the (entries d))))"
  using assms
proof (induction ds arbitrary: entries new)
  case Nil
  then show ?case by (intro exI [of _ "en_cumulative_vote new"]) (auto simp: cut_edges_def)
next
  case (Cons d ds)
  obtain e where e: "entries d = Some e" "n \<le> en_number e"
    "unat (en_number e - n) \<le> length (en_ancestors e)" "carrier (en_cumulative_vote e)"
    using Cons.prems(3) by auto
  obtain c where c: "add (en_cumulative_vote new) (en_cumulative_vote e) = Some c" "carrier c"
    "votes_of c = votes_of (en_cumulative_vote new) \<union> votes_of (en_cumulative_vote e)"
    using add_defined [OF Cons.prems(2) e(4)] by blast
  define e' where "e' = e\<lparr>en_ancestors := take (unat (en_number e - n)) (en_ancestors e)\<rparr>"
  define new' where "new' = new\<lparr>en_descendents := en_descendents new @ [d], en_cumulative_vote := c\<rparr>"
  have d: "d \<notin> set ds" using Cons.prems(1) by simp
  then have same: "(entries(d \<mapsto> e')) d' = entries d'" if "d' \<in> set ds" for d' using that by auto
  have "branch_fold add zero n (d # ds) entries (Some (new, prev))
      = branch_fold add zero n ds (entries(d \<mapsto> e')) (Some (new', prev))"
    using e(1,3) leD [OF e(2)] c(1) by (auto simp: e'_def new'_def simp del: fun_upd_apply)
  moreover have "cut_edges n (set ds) (entries(d \<mapsto> e')) = cut_edges n (set (d # ds)) entries"
    using d e(1) by (auto simp: cut_edges_def e'_def)
  moreover have "\<exists>c'. branch_fold add zero n ds (entries(d \<mapsto> e')) (Some (new', prev))
      = Some (cut_edges n (set ds) (entries(d \<mapsto> e')),
          Some (new'\<lparr>en_descendents := en_descendents new' @ ds, en_cumulative_vote := c'\<rparr>, prev))
    \<and> carrier c' \<and> votes_of c' = votes_of (en_cumulative_vote new')
        \<union> (\<Union>d'\<in>set ds. votes_of (en_cumulative_vote (the ((entries(d \<mapsto> e')) d'))))"
    using Cons.prems c(2) same by (intro Cons.IH) (simp_all add: new'_def)
  ultimately obtain c' where "branch_fold add zero n (d # ds) entries (Some (new, prev))
      = Some (cut_edges n (set (d # ds)) entries,
          Some (new\<lparr>en_descendents := en_descendents new @ d # ds, en_cumulative_vote := c'\<rparr>, prev))"
    "carrier c'" "votes_of c' = votes_of c \<union> (\<Union>d'\<in>set ds. votes_of (en_cumulative_vote (the (entries d'))))"
    using same by (auto simp: new'_def)
  then show ?case using c(3) e(1) by (intro exI [of _ c']) auto
qed

end

lemma cut_edges_added:
  assumes "last B \<notin> set ds" "last B \<noteq> x" "entries (last B) = Some pe"
  shows "(cut_edges n (set ds) entries)(
      last B \<mapsto> pe\<lparr>en_descendents := filter (\<lambda>h. h \<notin> set ds) (en_descendents pe) @ [x]\<rparr>,
      x \<mapsto> \<lparr>en_number = n, en_ancestors = B, en_descendents = ds, en_cumulative_vote = v\<rparr>)
    = node_added n x B ds v entries" (is "?l = ?r")
proof
  show "?l h = ?r h" for h using assms by (cases "entries h") (auto simp: cut_edges_def node_added_def)
qed

lemma branch_fold_first:
  "entries d = Some e \<Longrightarrow> branch_fold add zero n (d # ds) entries None
     = branch_fold add zero n (d # ds) entries
         (Some (\<lparr>en_number = n, en_ancestors = drop (unat (en_number e - n)) (en_ancestors e), en_descendents = [],
            en_cumulative_vote = zero\<rparr>, ancestor_node e))"
  unfolding branch_fold.simps Let_def by simp

lemma find_index_append:
  "\<exists>x\<in>set xs. P x \<Longrightarrow> find_index P (xs @ ys) = Some (length (takeWhile (\<lambda>x. \<not> P x) xs))"
  by (auto simp: find_index_def)

lemma takeWhile_shorter: "\<exists>x\<in>set xs. \<not> P x \<Longrightarrow> length (takeWhile P xs) < length xs"
  by (induction xs) auto

text \<open>Changing only cumulative votes keeps the shape of the graph.\<close>

definition shape :: "('h, 'v) Entry \<Rightarrow> u64 \<times> 'h list \<times> 'h list" where
  "shape e = (en_number e, en_ancestors e, en_descendents e)"

lemma same_shape_obtain:
  assumes "\<forall>h. map_option shape (E' h) = map_option shape (E h)" and "E' h = Some e'"
  obtains e where "E h = Some e" "en_number e = en_number e'" "en_ancestors e = en_ancestors e'"
    "en_descendents e = en_descendents e'"
  using assms(1) [rule_format, of h] assms(2) by (auto simp: shape_def map_option_case split: option.splits)

lemma same_shape_None: "\<forall>h. map_option shape (E' h) = map_option shape (E h) \<Longrightarrow> E' h = None \<longleftrightarrow> E h = None"
  by (metis map_option_is_None)

lemma same_shape_linked:
  assumes s: "\<forall>h. map_option shape (E' h) = map_option shape (E h)" and l: "linked par number base E"
  shows "linked par number base E'"
  unfolding linked_def
proof (intro conjI allI impI)
  show "E' base \<noteq> None" using linked_base [OF l] same_shape_None [OF s] by simp
  fix h e'
  assume "E' h = Some e'"
  from same_shape_obtain [OF s this] obtain e where e: "E h = Some e" "en_number e = en_number e'"
    "en_ancestors e = en_ancestors e'" .
  note old = linkedD [OF l e(1), unfolded e(2,3)]
  show "en_number e' = number h" "path par h (en_ancestors e')" by (fact old(1) old(2))+
  show "\<forall>x\<in>set (butlast (en_ancestors e')). E' x = None"
    "if h = base then en_ancestors e' = [] else en_ancestors e' \<noteq> [] \<and> E' (last (en_ancestors e')) \<noteq> None"
    unfolding same_shape_None [OF s] using old(3-6) by (auto simp del: not_None_eq)
qed

lemma same_shape_link:
  assumes s: "\<forall>h. map_option shape (E' h) = map_option shape (E h)"
  shows "link E' d = link E d"
  using s [rule_format, of d] by (cases "E d"; cases "E' d") (auto simp: link_def shape_def ancestor_node_def)

lemma same_shape_threaded:
  assumes s: "\<forall>h. map_option shape (E' h) = map_option shape (E h)" and t: "threaded E"
  shows "threaded E'"
  unfolding threaded_iff same_shape_link [OF s]
  using t [unfolded threaded_iff] same_shape_obtain [OF s] by metis

lemma same_shape_headed:
  assumes "\<forall>h. map_option shape (E' h) = map_option shape (E h)" and "headed par E heads"
  shows "headed par E' heads"
  using assms(2) unfolding headed_def same_shape_None [OF assms(1)] .

locale vote_graph_laws = block_chain par number ancestry + vote_values add zero carrier votes_of
  for par :: "'h \<rightharpoonup> 'h" and number :: "'h \<Rightarrow> u64" and ancestry :: "'h \<Rightarrow> 'h \<Rightarrow> 'h list option"
    and add :: "'v \<Rightarrow> 'v \<Rightarrow> 'v option" and zero :: 'v and carrier :: "'v \<Rightarrow> bool" and votes_of :: "'v \<Rightarrow> 'x set"
begin

text \<open>Every node whose edge contains the block can be cut there, and the edges end in the same way.\<close>

lemma containing_cut:
  assumes l: "linked par number base entries" and c: "counted par carrier votes_of cast entries"
    and x: "entries x = None" and d: "d \<in> containing entries x"
  obtains e A B where "entries d = Some e" "en_ancestors e = A @ x # B" "B \<noteq> []"
    "unat (en_number e - number x) = Suc (length A)" "number x \<le> en_number e" "path par x B"
    "entries (last B) \<noteq> None" "\<forall>y\<in>set (butlast B). entries y = None"
    "carrier (en_cumulative_vote e)" "votes_of (en_cumulative_vote e) = cast_above par cast d"
proof -
  obtain e where e: "entries d = Some e" "x \<in> set (en_ancestors e)" using d by (auto simp: containing_def)
  obtain A B where s: "en_ancestors e = A @ x # B" "unat (en_number e - number x) = Suc (length A)" "B \<noteq> []"
    "path par d (A @ [x])" "path par x B" "last B = last (en_ancestors e)" using edge_split [OF l e x] .
  have "entries (last B) \<noteq> None" "\<forall>y\<in>set (butlast B). entries y = None"
    using linkedD(3,6) [OF l e(1)] s(1,3) by (auto simp: butlast_append)
  moreover have "number x \<le> en_number e" using containing_number [OF l d] linkedD(1) [OF l e(1)] by simp
  ultimately show thesis using that e(1) s countedD(1,2) [OF c e(1)] by blast
qed

lemma branch_fold_containing:
  assumes l: "linked par number base entries" and c: "counted par carrier votes_of cast entries"
    and x: "entries x = None" and ds: "distinct ds" "set ds = containing entries x" "ds \<noteq> []"
  obtains B v where "branch_fold add zero (number x) ds entries None = Some (cut_edges (number x) (set ds) entries,
      Some (\<lparr>en_number = number x, en_ancestors = B, en_descendents = ds, en_cumulative_vote = v\<rparr>, Some (last B)))"
    "B \<noteq> []" "path par x B" "entries (last B) \<noteq> None" "\<forall>y\<in>set (butlast B). entries y = None"
    "carrier v" "votes_of v = (\<Union>d\<in>set ds. cast_above par cast d)"
proof -
  obtain d rest where ds': "ds = d # rest" using ds(3) by (cases ds) auto
  then have "d \<in> containing entries x" using ds(2) by auto
  from containing_cut [OF l c x this] obtain e A B where e: "entries d = Some e" "en_ancestors e = A @ x # B" "B \<noteq> []"
    "unat (en_number e - number x) = Suc (length A)" "path par x B"
    "entries (last B) \<noteq> None" "\<forall>y\<in>set (butlast B). entries y = None" .
  let ?new = "\<lparr>en_number = number x, en_ancestors = B, en_descendents = [], en_cumulative_vote = zero\<rparr>"
  have "\<forall>d\<in>set ds. \<exists>e. entries d = Some e \<and> number x \<le> en_number e
      \<and> unat (en_number e - number x) \<le> length (en_ancestors e) \<and> carrier (en_cumulative_vote e)"
  proof
    fix d
    assume "d \<in> set ds"
    then have "d \<in> containing entries x" using ds(2) by simp
    from containing_cut [OF l c x this] show "\<exists>e. entries d = Some e \<and> number x \<le> en_number e
        \<and> unat (en_number e - number x) \<le> length (en_ancestors e) \<and> carrier (en_cumulative_vote e)" by fastforce
  qed
  from branch_fold_spec [OF ds(1) _ this, of ?new "Some (last B)"] zero_carrier zero_votes obtain v
    where f: "branch_fold add zero (number x) ds entries (Some (?new, Some (last B)))
        = Some (cut_edges (number x) (set ds) entries,
            Some (\<lparr>en_number = number x, en_ancestors = B, en_descendents = ds, en_cumulative_vote = v\<rparr>, Some (last B)))"
      and v: "carrier v" "votes_of v = (\<Union>d\<in>set ds. votes_of (en_cumulative_vote (the (entries d))))" by auto
  have "drop (unat (en_number e - number x)) (en_ancestors e) = B" "ancestor_node e = Some (last B)"
    unfolding e(4) using e(3) by (simp_all add: e(2) ancestor_node_def)
  then have "branch_fold add zero (number x) ds entries None
      = branch_fold add zero (number x) ds entries (Some (?new, Some (last B)))"
    unfolding ds' branch_fold_first [where entries = entries, OF e(1)] by (simp only:)
  moreover have "votes_of (en_cumulative_vote (the (entries d))) = cast_above par cast d" if "d \<in> set ds" for d
    using containing_cut [OF l c x, of d] that ds(2) by (metis option.sel)
  ultimately show thesis using that [of B v] f v e by simp
qed

lemma introduce_branch_spec:
  assumes l: "linked par number (vg_base g) (vg_entries g)" and c: "counted par carrier votes_of cast (vg_entries g)"
    and x: "vg_entries g x = None" and ds: "distinct ds" "set ds = containing (vg_entries g) x" "ds \<noteq> []"
  obtains B v where "introduce_branch add zero ds x (number x) g
      = Some (g\<lparr>vg_entries := node_added (number x) x B ds v (vg_entries g)\<rparr>)"
    "B \<noteq> []" "path par x B" "vg_entries g (last B) \<noteq> None" "\<forall>y\<in>set (butlast B). vg_entries g y = None"
    "carrier v" "votes_of v = cast_above par cast x"
proof -
  from branch_fold_containing [OF l c x ds] obtain B v
    where f: "branch_fold add zero (number x) ds (vg_entries g) None = Some (cut_edges (number x) (set ds) (vg_entries g),
        Some (\<lparr>en_number = number x, en_ancestors = B, en_descendents = ds, en_cumulative_vote = v\<rparr>, Some (last B)))"
      and B: "B \<noteq> []" "path par x B" "vg_entries g (last B) \<noteq> None" "\<forall>y\<in>set (butlast B). vg_entries g y = None"
      and v: "carrier v" "votes_of v = (\<Union>d\<in>set ds. cast_above par cast d)" .
  have p: "last B \<notin> set ds" "last B \<noteq> x" using new_node_facts(1,2) [OF l x B ds(2)] .
  obtain pe where pe: "vg_entries g (last B) = Some pe" using B(3) by blast
  have "introduce_branch add zero ds x (number x) g
      = Some (g\<lparr>vg_entries := (cut_edges (number x) (set ds) (vg_entries g))(
          last B \<mapsto> pe\<lparr>en_descendents := filter (\<lambda>h. h \<notin> set ds) (en_descendents pe) @ [x]\<rparr>,
          x \<mapsto> \<lparr>en_number = number x, en_ancestors = B, en_descendents = ds, en_cumulative_vote = v\<rparr>)\<rparr>)"
    using f p pe x ds(2) by (simp add: introduce_branch_def cut_edges_def containing_def)
  also have "\<dots> = Some (g\<lparr>vg_entries := node_added (number x) x B ds v (vg_entries g)\<rparr>)"
    unfolding cut_edges_added [where entries = "vg_entries g", OF p pe] ..
  finally have i: "introduce_branch add zero ds x (number x) g
      = Some (g\<lparr>vg_entries := node_added (number x) x B ds v (vg_entries g)\<rparr>)" .
  obtain be where "vg_entries g (last B) = Some be" using B(3) by blast
  then have "descends par (vg_base g) x"
    using entry_above_base [OF l] descends_path [OF B(2), of "last B"] B(1) descends_trans by (metis last_in_set)
  then have "votes_of v = cast_above par cast x" using cast_above_containing [OF l c x] v(2) ds(2) by simp
  then show thesis using that i B v(1) by blast
qed

section \<open>Appending\<close>

lemma append_node_spec:
  assumes l: "linked par number (vg_base g) (vg_entries g)" and x: "vg_entries g x = None"
    and d: "descends par (vg_base g) x"
  obtains B where "append_node ancestry zero x (number x) g
      = Some (Inr (g\<lparr>vg_entries := node_added (number x) x B [] zero (vg_entries g),
           vg_heads := List.insert x (removeAll (last B) (vg_heads g))\<rparr>))"
    "B \<noteq> []" "path par x B" "vg_entries g (last B) \<noteq> None" "\<forall>y\<in>set (butlast B). vg_entries g y = None"
proof -
  let ?P = "\<lambda>a. vg_entries g a \<noteq> None"
  have base: "?P (vg_base g)" using linked_base [OF l] .
  then have neq: "vg_base g \<noteq> x" using x by auto
  then obtain xs where xs: "ancestry (vg_base g) x = Some xs" using ancestry_iff d by auto
  define anc where "anc = xs @ [vg_base g]"
  have p: "path par x anc" using ancestry_Some [OF xs neq] by (simp add: anc_def)
  define i where "i = length (takeWhile (\<lambda>a. \<not> ?P a) anc)"
  have ex: "\<exists>a\<in>set anc. ?P a" using base by (auto simp: anc_def)
  then have i: "i < length anc" unfolding i_def by (intro takeWhile_shorter) simp
  have a: "?P (anc ! i)" using nth_length_takeWhile i unfolding i_def by blast
  define B where "B = take (i + 1) anc"
  have B: "B = take i anc @ [anc ! i]" using i by (simp add: B_def take_Suc_conv_app_nth)
  then have last: "last B = anc ! i" "butlast B = takeWhile (\<lambda>a. \<not> ?P a) anc"
    by (simp_all add: i_def takeWhile_eq_take [symmetric])
  obtain pe where pe: "vg_entries g (last B) = Some pe" using a last(1) by auto
  have "find_index ?P (anc @ [vg_base g]) = Some i" unfolding i_def by (rule find_index_append [OF ex])
  then have "append_node ancestry zero x (number x) g
      = Some (Inr (g\<lparr>vg_entries := (vg_entries g)(last B \<mapsto> pe\<lparr>en_descendents := en_descendents pe @ [x]\<rparr>,
          x \<mapsto> \<lparr>en_number = number x, en_ancestors = B, en_descendents = [], en_cumulative_vote = zero\<rparr>),
         vg_heads := List.insert x (removeAll (last B) (vg_heads g))\<rparr>))"
    using xs i pe last(1) by (simp add: append_node_def anc_def [symmetric] Let_def) (simp add: B_def)
  also have "(vg_entries g)(last B \<mapsto> pe\<lparr>en_descendents := en_descendents pe @ [x]\<rparr>,
          x \<mapsto> \<lparr>en_number = number x, en_ancestors = B, en_descendents = [], en_cumulative_vote = zero\<rparr>)
      = node_added (number x) x B [] zero (vg_entries g)"
  proof -
    have "last B \<noteq> x" using pe x by auto
    then show ?thesis
      using cut_edges_added [of B "[]" x "vg_entries g" pe "number x" zero] pe by (simp add: cut_edges_def)
  qed
  finally show thesis
  proof (rule that)
    show "B \<noteq> []" by (simp add: B)
    show "path par x B" unfolding B_def by (rule path_take [OF p])
    show "vg_entries g (last B) \<noteq> None" using pe by simp
    show "\<forall>y\<in>set (butlast B). vg_entries g y = None" unfolding last(2) by (auto dest: set_takeWhileD)
  qed
qed

lemma append_node_error:
  assumes "vg_base g \<noteq> x" and "\<not> descends par (vg_base g) x"
  shows "append_node ancestry zero x n g = Some (Inl ())"
  using assms ancestry_iff [of "vg_base g" x] by (simp add: append_node_def)

section \<open>Adding the vote\<close>

lemma add_vote_loop_spec:
  assumes v: "carrier v"
  shows "linked par number base E \<Longrightarrow> (\<And>h e. E h = Some e \<Longrightarrow> carrier (en_cumulative_vote e)) \<Longrightarrow> E x = Some e \<Longrightarrow>
    \<exists>E'. add_vote_loop add v x E = Some E' \<and> (\<forall>h. E' h = (if descends par h x
      then map_option (\<lambda>e. e\<lparr>en_cumulative_vote := the (add (en_cumulative_vote e) v)\<rparr>) (E h) else E h))"
proof (induction "unat (number x)" arbitrary: x e E rule: less_induct)
  case less
  note l = less.prems(1) and x = less.prems(3)
  obtain c where c: "add (en_cumulative_vote e) v = Some c" "carrier c"
    using add_defined [OF less.prems(2) [OF x] v] by blast
  define E1 where "E1 = E(x \<mapsto> e\<lparr>en_cumulative_vote := c\<rparr>)"
  show ?case
  proof (cases "ancestor_node e")
    case None
    then have "descends par h x \<Longrightarrow> h \<noteq> x \<Longrightarrow> E h = None" for h
      using entry_below [OF l x, of h] by fastforce
    moreover have "add_vote_loop add v x E = Some E1"
      using x c None by (simp add: add_vote_loop.simps [of _ _ x] E1_def)
    ultimately show ?thesis using x c(1) by (intro exI [of _ E1]) (auto simp: E1_def)
  next
    case (Some p)
    have s: "\<forall>h. map_option shape (E1 h) = map_option shape (E h)" using x by (simp add: E1_def shape_def)
    obtain pe where p: "E p = Some pe" "descends par p x" using prev_entry [OF l x Some] .
    have np: "number p < number x" using prev_number [OF l x Some] .
    then have "E1 p = Some pe" using p(1) by (auto simp: E1_def)
    moreover have "E1 h = Some e' \<Longrightarrow> carrier (en_cumulative_vote e')" for h e'
      using less.prems(2) [of h e'] c(2) by (auto simp: E1_def split: if_splits)
    ultimately obtain E' where E': "add_vote_loop add v p E1 = Some E'" "\<forall>h. E' h = (if descends par h p
        then map_option (\<lambda>e. e\<lparr>en_cumulative_vote := the (add (en_cumulative_vote e) v)\<rparr>) (E1 h) else E1 h)"
      using less.hyps [OF _ same_shape_linked [OF s l]] np by (fastforce simp: word_less_nat_alt)
    have "add_vote_loop add v x E = Some E'"
      using x c Some E'(1) by (simp add: add_vote_loop.simps [of _ _ x] E1_def)
    moreover have "E' h = (if descends par h x
        then map_option (\<lambda>e. e\<lparr>en_cumulative_vote := the (add (en_cumulative_vote e) v)\<rparr>) (E h) else E h)" for h
    proof (cases "h = x")
      case True
      then show ?thesis using E'(2) x c(1) np descends_number [of x p] by (auto simp: E1_def)
    next
      case False
      then have "E h \<noteq> None \<Longrightarrow> descends par h x \<longleftrightarrow> descends par h p"
        using entry_below [OF l x, of h] Some descends_trans [OF _ p(2)] by fastforce
      then show ?thesis using E'(2) False by (cases "E h") (auto simp: E1_def)
    qed
    ultimately show ?thesis by blast
  qed
qed

lemma vote_phase:
  assumes inv: "graph_inv par number carrier votes_of cast g" and v: "carrier v" and x: "vg_entries g x \<noteq> None"
  obtains E' where "add_vote_loop add v x (vg_entries g) = Some E'"
    "graph_inv par number carrier votes_of (cast(x := cast x \<union> votes_of v)) (g\<lparr>vg_entries := E'\<rparr>)"
proof -
  have i: "linked par number (vg_base g) (vg_entries g)" "threaded (vg_entries g)"
    "headed par (vg_entries g) (vg_heads g)" "counted par carrier votes_of cast (vg_entries g)"
    using inv by (auto simp: graph_inv_def)
  obtain e where "vg_entries g x = Some e" using x by blast
  from add_vote_loop_spec [where E = "vg_entries g", OF v i(1) _ this] countedD(1) [OF i(4)] obtain E' where E': "add_vote_loop add v x (vg_entries g) = Some E'"
    "\<forall>h. E' h = (if descends par h x then map_option (\<lambda>e. e\<lparr>en_cumulative_vote := the (add (en_cumulative_vote e) v)\<rparr>)
       (vg_entries g h) else vg_entries g h)" by blast
  have s: "\<forall>h. map_option shape (E' h) = map_option shape (vg_entries g h)"
  proof
    show "map_option shape (E' h) = map_option shape (vg_entries g h)" for h
      using E'(2) by (cases "vg_entries g h") (simp_all add: shape_def)
  qed
  have "counted par carrier votes_of (cast(x := cast x \<union> votes_of v)) E'"
  proof (rule countedI)
    fix h e'
    assume e': "E' h = Some e'"
    then obtain e where e: "vg_entries g h = Some e" "en_cumulative_vote e' =
        (if descends par h x then the (add (en_cumulative_vote e) v) else en_cumulative_vote e)"
      using E'(2) by (auto split: if_splits)
    note old = countedD(1,2) [OF i(4) e(1)]
    obtain c where "add (en_cumulative_vote e) v = Some c" "carrier c" "votes_of c = votes_of (en_cumulative_vote e) \<union> votes_of v"
      using add_defined [OF old(1) v] by blast
    then show "carrier (en_cumulative_vote e') \<and>
        votes_of (en_cumulative_vote e') = cast_above par (cast(x := cast x \<union> votes_of v)) h"
      using e(2) old unfolding cast_above_update by simp
  next
    fix t
    assume "E' t = None"
    then have "vg_entries g t = None" using same_shape_None [OF s] by simp
    then show "(cast(x := cast x \<union> votes_of v)) t = {}" using countedD(3) [OF i(4)] x by auto
  qed
  then show thesis
    using that E'(1) same_shape_linked [OF s i(1)] same_shape_threaded [OF s i(2)] same_shape_headed [OF s i(3)]
    by (simp add: graph_inv_def)
qed

section \<open>Insertion\<close>

text \<open>The first phase of \<open>insert\<close>: afterwards there is a node for the block.\<close>

lemma node_added_inv:
  assumes inv: "graph_inv par number carrier votes_of cast g" and x: "vg_entries g x = None"
    and B: "B \<noteq> []" "path par x B" "vg_entries g (last B) \<noteq> None" "\<forall>y\<in>set (butlast B). vg_entries g y = None"
    and ds: "set ds = containing (vg_entries g) x" "distinct ds"
    and v: "carrier v" "votes_of v = cast_above par cast x"
    and heads: "headed par (node_added (number x) x B ds v (vg_entries g)) heads"
  shows "graph_inv par number carrier votes_of cast
    (g\<lparr>vg_entries := node_added (number x) x B ds v (vg_entries g), vg_heads := heads\<rparr>)"
proof -
  have i: "linked par number (vg_base g) (vg_entries g)" "threaded (vg_entries g)"
    "counted par carrier votes_of cast (vg_entries g)" using inv by (auto simp: graph_inv_def)
  have "counted par carrier votes_of cast (node_added (number x) x B ds v (vg_entries g))"
    by (rule node_added_counted) (fact i(3) x v)+
  then show ?thesis
    using heads node_added_linked [OF i(1) x B ds(1)] node_added_threaded [OF i(1) x B ds i(2)]
    by (simp add: graph_inv_def)
qed

lemma headed_branch:
  assumes "headed par entries heads" and "ds \<noteq> []" "set ds = containing entries x" "linked par number base entries"
  shows "headed par (node_added n x B ds v entries) heads"
  unfolding headed_def node_added_None
proof (intro allI impI)
  fix h
  assume h: "\<not> (h \<noteq> x \<and> entries h = None)"
  obtain d e where d: "entries d = Some e" "x \<in> set (en_ancestors e)"
  proof -
    have "hd ds \<in> containing entries x" using assms(2,3) hd_in_set by fastforce
    then show thesis using that by (auto simp: containing_def)
  qed
  define t where "t = (if entries h = None then d else h)"
  have t: "entries t \<noteq> None" "descends par h t"
    using h d descends_path [OF linkedD(2) [OF assms(4) d(1)] d(2)] by (auto simp: t_def)
  then obtain hd where hd: "hd \<in> set heads" "entries hd \<noteq> None" "descends par t hd"
    using assms(1) unfolding headed_def by blast
  have "descends par h hd" by (rule descends_trans [OF t(2) hd(3)])
  then show "\<exists>hd\<in>set heads. \<not> (hd \<noteq> x \<and> entries hd = None) \<and> descends par h hd"
    using hd(1,2) by auto
qed

lemma headed_append:
  assumes "headed par entries heads" and "path par x B" "B \<noteq> []"
  shows "headed par (node_added n x B [] v entries) (List.insert x (removeAll (last B) heads))"
  unfolding headed_def node_added_None
proof (intro allI impI)
  fix h
  assume h: "\<not> (h \<noteq> x \<and> entries h = None)"
  show "\<exists>hd\<in>set (List.insert x (removeAll (last B) heads)). \<not> (hd \<noteq> x \<and> entries hd = None) \<and> descends par h hd"
  proof (cases "h = x")
    case False
    then obtain hd where hd: "hd \<in> set heads" "entries hd \<noteq> None" "descends par h hd"
      using h assms(1) unfolding headed_def by blast
    have "descends par (last B) x" using descends_path [OF assms(2)] assms(3) by simp
    then show ?thesis
      using hd descends_trans [OF hd(3)] by (cases "hd = last B") auto
  qed auto
qed

lemma node_phase:
  assumes inv: "graph_inv par number carrier votes_of cast g" and x: "vg_entries g x = None"
    and d: "descends par (vg_base g) x" and k: "distinct keys" "set keys = containing (vg_entries g) x"
  obtains g1 where "(case keys of [] \<Rightarrow> append_node ancestry zero x (number x) g
       | y # ys \<Rightarrow> map_option Inr (introduce_branch add zero (y # ys) x (number x) g)) = Some (Inr g1)"
    "graph_inv par number carrier votes_of cast g1" "vg_entries g1 x \<noteq> None"
    "vg_base g1 = vg_base g" "vg_base_number g1 = vg_base_number g"
proof -
  have i: "linked par number (vg_base g) (vg_entries g)" "headed par (vg_entries g) (vg_heads g)"
    "counted par carrier votes_of cast (vg_entries g)" using inv by (auto simp: graph_inv_def)
  show thesis
  proof (cases keys)
    case Nil
    from append_node_spec [OF i(1) x d] obtain B where a: "append_node ancestry zero x (number x) g
        = Some (Inr (g\<lparr>vg_entries := node_added (number x) x B [] zero (vg_entries g),
            vg_heads := List.insert x (removeAll (last B) (vg_heads g))\<rparr>))"
      and B: "B \<noteq> []" "path par x B" "vg_entries g (last B) \<noteq> None" "\<forall>y\<in>set (butlast B). vg_entries g y = None" .
    have "cast_above par cast x = {}" using cast_above_containing [OF i(1,3) x d] k(2) Nil by simp
    then have "votes_of zero = cast_above par cast x" by (simp add: zero_votes)
    from node_added_inv [OF inv x B k(2,1) zero_carrier this] headed_append [OF i(2) B(2,1)] show thesis
      using that a Nil by (simp add: node_added_None del: not_None_eq)
  next
    case (Cons y ys)
    then have ne: "keys \<noteq> []" by simp
    from introduce_branch_spec [OF i(1,3) x k ne] obtain B v where b: "introduce_branch add zero keys x (number x) g
        = Some (g\<lparr>vg_entries := node_added (number x) x B keys v (vg_entries g)\<rparr>)"
      and B: "B \<noteq> []" "path par x B" "vg_entries g (last B) \<noteq> None" "\<forall>y\<in>set (butlast B). vg_entries g y = None"
      and v: "carrier v" "votes_of v = cast_above par cast x" .
    have "headed par (node_added (number x) x B keys v (vg_entries g)) (vg_heads g)"
      by (rule headed_branch [OF i(2) ne k(2) i(1)])
    from node_added_inv [OF inv x B k(2,1) v this] show thesis
      using that b Cons by (simp add: node_added_None del: not_None_eq)
  qed
qed

lemma graph_insert_spec:
  assumes inv: "graph_inv par number carrier votes_of cast g" and v: "carrier v" and d: "descends par (vg_base g) x"
  obtains g' where "graph_insert add zero ancestry x (number x) v g = Some (Inr g')"
    "graph_inv par number carrier votes_of (cast(x := cast x \<union> votes_of v)) g'"
    "vg_base g' = vg_base g" "vg_base_number g' = vg_base_number g"
proof -
  have i: "linked par number (vg_base g) (vg_entries g)" "headed par (vg_entries g) (vg_heads g)"
    using inv by (auto simp: graph_inv_def)
  note result = that
  have finish: thesis if g1: "graph_insert add zero ancestry x (number x) v g
        = map_option (\<lambda>E. Inr (g1\<lparr>vg_entries := E\<rparr>)) (add_vote_loop add v x (vg_entries g1))"
      "graph_inv par number carrier votes_of cast g1" "vg_entries g1 x \<noteq> None"
      "vg_base g1 = vg_base g" "vg_base_number g1 = vg_base_number g" for g1
  proof -
    from vote_phase [OF g1(2) v g1(3)] obtain E' where "add_vote_loop add v x (vg_entries g1) = Some E'"
      "graph_inv par number carrier votes_of (cast(x := cast x \<union> votes_of v)) (g1\<lparr>vg_entries := E'\<rparr>)" .
    then show thesis using result [of "g1\<lparr>vg_entries := E'\<rparr>"] g1 by simp
  qed
  show thesis
  proof (cases "vg_entries g x")
    case (Some e)
    then show thesis using finish [of g] inv by (simp add: graph_insert_def find_containing_nodes_def)
  next
    case None
    obtain keys where k: "find_containing_nodes g x (number x) = Some (Some keys)" "distinct keys"
      "set keys = containing (vg_entries g) x" using find_containing_nodes_spec [OF i None] .
    from node_phase [OF inv None d k(2,3)] obtain g1 where "(case keys of [] \<Rightarrow> append_node ancestry zero x (number x) g
         | y # ys \<Rightarrow> map_option Inr (introduce_branch add zero (y # ys) x (number x) g)) = Some (Inr g1)"
      "graph_inv par number carrier votes_of cast g1" "vg_entries g1 x \<noteq> None"
      "vg_base g1 = vg_base g" "vg_base_number g1 = vg_base_number g" .
    then show thesis using finish [of g1] k(1) by (cases keys) (simp_all add: graph_insert_def)
  qed
qed

lemma graph_insert_error:
  assumes inv: "graph_inv par number carrier votes_of cast g" and d: "\<not> descends par (vg_base g) x"
  shows "graph_insert add zero ancestry x (number x) v g = Some (Inl ())"
proof -
  have l: "linked par number (vg_base g) (vg_entries g)" and h: "headed par (vg_entries g) (vg_heads g)"
    using inv by (auto simp: graph_inv_def)
  have x: "vg_entries g x = None" using entry_above_base [OF l] d by (cases "vg_entries g x") auto
  obtain keys where k: "find_containing_nodes g x (number x) = Some (Some keys)" "set keys = containing (vg_entries g) x"
    using find_containing_nodes_spec [OF l h x] by metis
  have "containing (vg_entries g) x = {}"
  proof (rule ccontr)
    assume "containing (vg_entries g) x \<noteq> {}"
    then obtain y e where e: "vg_entries g y = Some e" "x \<in> set (en_ancestors e)" by (auto simp: containing_def)
    then have n: "en_ancestors e \<noteq> []" by auto
    then obtain e' where "vg_entries g (last (en_ancestors e)) = Some e'" using linkedD(6) [OF l e(1)] by blast
    then show False
      using entry_above_base [OF l] descends_path_last [OF linkedD(2) [OF l e(1)] e(2)] d descends_trans by metis
  qed
  moreover have "vg_base g \<noteq> x" using d by auto
  ultimately show ?thesis using k append_node_error [OF _ d] by (simp add: graph_insert_def)
qed

end

end
