(* ===== verification/Vote_Graph_Ghost.thy ===== *)
theory Vote_Graph_Ghost
  imports Vote_Graph_Insert
begin

text \<open>
  \<open>find_ghost\<close>: for a condition that is monotone in the set of votes and false for no votes,
  the block it returns fulfills the condition and no child of it does; given a current
  best that fulfills the condition, the result is at or above it.
\<close>

section \<open>The sorted list of blocks at a height\<close>

abbreviation sorted_blocks :: "('h::linorder \<times> 'v) list \<Rightarrow> bool" where
  "sorted_blocks blocks \<equiv> sorted_wrt (<) (map fst blocks)"

lemma map_of_list_update:
  "distinct (map fst xs) \<Longrightarrow> i < length xs \<Longrightarrow> fst (xs ! i) = k \<Longrightarrow> map_of (xs[i := (k, v)]) = (map_of xs)(k \<mapsto> v)"
proof (induction xs arbitrary: i)
  case (Cons x xs)
  then show ?case
  proof (cases i)
    case (Suc j)
    then have "k \<in> fst ` set xs" using Cons.prems by (auto intro: imageI)
    then have "fst x \<noteq> k" using Cons.prems(1) by auto
    then show ?thesis using Cons Suc by (cases x) (auto simp: fun_eq_iff)
  qed (cases x; auto simp: fun_eq_iff)
qed simp

lemma block_search_Inr:
  assumes "sorted_blocks blocks" and "block_search key blocks = Inr i"
  shows "i < length blocks" "fst (blocks ! i) = key" "map_of blocks key = Some (snd (blocks ! i))"
proof -
  show i: "i < length blocks" "fst (blocks ! i) = key"
    using assms(2) by (auto simp: block_search_def Let_def split: if_splits)
  then have "(key, snd (blocks ! i)) \<in> set blocks" using nth_mem [OF i(1)] by (cases "blocks ! i") auto
  moreover have "distinct (map fst blocks)" using assms(1) strict_sorted_iff by blast
  ultimately show "map_of blocks key = Some (snd (blocks ! i))" by simp
qed

lemma block_search_Inl:
  assumes s: "sorted_blocks blocks" and b: "block_search key blocks = Inl i"
  shows "map_of blocks key = None" "sorted_blocks (take i blocks @ (key, v) # drop i blocks)"
proof -
  define l u where "l = takeWhile (\<lambda>b. fst b < key) blocks" and "u = dropWhile (\<lambda>b. fst b < key) blocks"
  have i: "i = length l" and neq: "i < length blocks \<Longrightarrow> fst (blocks ! i) \<noteq> key"
    using b by (auto simp: block_search_def Let_def l_def split: if_splits)
  have split: "blocks = l @ u" by (simp add: l_def u_def)
  have below: "\<forall>b\<in>set l. fst b < key" by (auto simp: l_def dest: set_takeWhileD)
  have above: "\<forall>b\<in>set u. key < fst b"
  proof (cases u)
    case (Cons c u')
    then have "\<not> fst c < key" unfolding u_def by (simp add: dropWhile_eq_Cons_conv)
    moreover have "fst c \<noteq> key" using neq Cons by (simp add: i split)
    ultimately have "key < fst c" by auto
    then show ?thesis using s unfolding split Cons by (auto simp: sorted_wrt_append)
  qed simp
  have "key \<notin> fst ` set blocks" unfolding split set_append image_Un using below above by fastforce
  then show "map_of blocks key = None" by (simp add: map_of_eq_None_iff)
  show "sorted_blocks (take i blocks @ (key, v) # drop i blocks)"
    using s below above unfolding split i by (auto simp: sorted_wrt_append)
qed

lemma map_of_insert_block:
  "map_of blocks key = None \<Longrightarrow> map_of (take i blocks @ (key, v) # drop i blocks) = (map_of blocks)(key \<mapsto> v)"
proof -
  assume "map_of blocks key = None"
  then have "map_of (take i blocks @ drop i blocks) key = None" by simp
  then have "key \<notin> dom (map_of (take i blocks))" unfolding map_of_append by (auto simp: map_add_None)
  then have "map_of (take i blocks @ (key, v) # drop i blocks) = (map_of (take i blocks @ drop i blocks))(key \<mapsto> v)"
    unfolding map_of_append by (auto simp: fun_eq_iff map_add_def split: option.splits)
  then show ?thesis by simp
qed

section \<open>One pass\<close>

context vote_values
begin

definition seen :: "('h \<times> 'v) list \<Rightarrow> 'h \<Rightarrow> 'x set" where
  "seen blocks y = (case map_of blocks y of None \<Rightarrow> {} | Some v \<Rightarrow> votes_of v)"

definition passing :: "u64 \<Rightarrow> ('h, 'v) Entry list \<Rightarrow> 'h \<Rightarrow> 'x set" where
  "passing n nodes y = (\<Union>d\<in>{d \<in> set nodes. ancestor_block d n = Some y}. votes_of (en_cumulative_vote d))"

lemma passing_Cons:
  "passing n (d # nodes) y = (if ancestor_block d n = Some y then votes_of (en_cumulative_vote d) else {}) \<union> passing n nodes y"
  by (auto simp: passing_def)

text \<open>
  What a pass promises: a block it returns fulfills the condition; if it returns none, then a
  block that fulfills it had the votes before the pass, or gets them from a single
  descendent, for which the source does not evaluate the condition.
\<close>

definition through :: "u64 \<Rightarrow> ('h, 'v) Entry list \<Rightarrow> 'h \<Rightarrow> ('h, 'v) Entry list" where
  "through n nodes y = filter (\<lambda>d. ancestor_block d n = Some y) nodes"

definition scan_result ::
  "('x set \<Rightarrow> bool) \<Rightarrow> u64 \<Rightarrow> ('h, 'v) Entry list \<Rightarrow> ('h \<times> 'v) list \<Rightarrow> 'h option \<Rightarrow> bool" where
  "scan_result P n nodes blocks r \<longleftrightarrow>
     (case r of
        Some y \<Rightarrow> (\<exists>d\<in>set nodes. ancestor_block d n = Some y) \<and> P (seen blocks y \<union> passing n nodes y)
      | None \<Rightarrow> \<forall>y. P (seen blocks y \<union> passing n nodes y) \<longrightarrow>
          (if map_of blocks y = None then length (through n nodes y) \<le> 1 else through n nodes y = []))"

lemma scan_result_skip:
  assumes "ancestor_block d n = None" and "scan_result P n nodes blocks r"
  shows "scan_result P n (d # nodes) blocks r"
proof -
  have "passing n (d # nodes) = passing n nodes" "through n (d # nodes) = through n nodes"
    using assms(1) by (auto simp: fun_eq_iff passing_Cons through_def)
  then show ?thesis using assms(2) by (auto simp: scan_result_def split: option.splits)
qed

lemma scan_result_step:
  assumes y: "ancestor_block d n = Some y" and r: "scan_result P n nodes blocks' r"
    and m: "map_of blocks' = (map_of blocks)(y \<mapsto> v)" and v: "votes_of v = seen blocks y \<union> votes_of (en_cumulative_vote d)"
    and new: "map_of blocks y = None \<or> \<not> P (votes_of v)"
  shows "scan_result P n (d # nodes) blocks r"
proof -
  have same: "seen blocks' z \<union> passing n nodes z = seen blocks z \<union> passing n (d # nodes) z" for z
    using m v y by (auto simp: seen_def passing_Cons)
  have other: "through n (d # nodes) z = through n nodes z" "map_of blocks' z = map_of blocks z" if "z \<noteq> y" for z
    using that y m by (auto simp: through_def)
  have at_y: "through n (d # nodes) y = d # through n nodes y" "map_of blocks' y = Some v" "seen blocks' y = votes_of v"
    using y m by (auto simp: through_def seen_def)
  have "passing n nodes y = {}" if "through n nodes y = []"
    using that by (auto simp: through_def passing_def filter_empty_conv)
  then have none: "P (seen blocks z \<union> passing n (d # nodes) z) \<longrightarrow>
      (if map_of blocks z = None then length (through n (d # nodes) z) \<le> 1 else through n (d # nodes) z = [])"
    if "r = None" for z
    using r that new other [of z] at_y unfolding scan_result_def same [symmetric] by (cases "z = y") auto
  show ?thesis
  proof (cases r)
    case None
    show ?thesis unfolding scan_result_def None option.case by (intro allI none [OF None])
  next
    case (Some z)
    then show ?thesis using r unfolding scan_result_def same [symmetric] by auto
  qed
qed

text \<open>The bookkeeping of a pass for one descendent: it finds a block, or adds the votes to the block's.\<close>

definition blocks_ok :: "('h::linorder \<times> 'v) list \<Rightarrow> bool" where
  "blocks_ok blocks \<longleftrightarrow> sorted_blocks blocks \<and> (\<forall>b\<in>set blocks. carrier (snd b))"

lemma merge_scan_one:
  assumes cond: "\<And>v. carrier v \<Longrightarrow> condition v = Some (P (votes_of v))"
    and ok: "blocks_ok blocks" and d: "carrier (en_cumulative_vote d)" and y: "ancestor_block d n = Some y"
  obtains (found) "merge_scan add condition n (d # nodes) blocks = Some (Some y)"
      "P (seen blocks y \<union> votes_of (en_cumulative_vote d))"
  | (next_node) blocks' v where "merge_scan add condition n (d # nodes) blocks = merge_scan add condition n nodes blocks'"
      "blocks_ok blocks'" "map_of blocks' = (map_of blocks)(y \<mapsto> v)"
      "votes_of v = seen blocks y \<union> votes_of (en_cumulative_vote d)" "map_of blocks y = None \<or> \<not> P (votes_of v)"
proof (cases "block_search y blocks")
  case (Inl i)
  have s: "sorted_blocks blocks" "\<forall>b\<in>set blocks. carrier (snd b)" using ok by (auto simp: blocks_ok_def)
  note bs = block_search_Inl [OF s(1) Inl]
  have "\<forall>b\<in>set (take i blocks @ (y, en_cumulative_vote d) # drop i blocks). carrier (snd b)"
    using s(2) d(1) by (auto dest: in_set_takeD in_set_dropD)
  then show thesis
    using next_node [of "take i blocks @ (y, en_cumulative_vote d) # drop i blocks" "en_cumulative_vote d"] y Inl bs
      map_of_insert_block [OF bs(1)] by (simp add: blocks_ok_def seen_def)
next
  case (Inr i)
  have s: "sorted_blocks blocks" "\<forall>b\<in>set blocks. carrier (snd b)" using ok by (auto simp: blocks_ok_def)
  note bs = block_search_Inr [OF s(1) Inr]
  have "carrier (snd (blocks ! i))" using s(2) bs(1) by simp
  from add_defined [OF this d(1)] obtain v where v: "add (snd (blocks ! i)) (en_cumulative_vote d) = Some v" "carrier v"
    "votes_of v = seen blocks y \<union> votes_of (en_cumulative_vote d)" using bs(3) by (auto simp: seen_def)
  show thesis
  proof (cases "P (votes_of v)")
    case True
    then show thesis using found y Inr v(1,3) cond [OF v(2)] by simp
  next
    case False
    have "distinct (map fst blocks)" using s(1) strict_sorted_iff by blast
    then have m: "map_of (blocks[i := (y, v)]) = (map_of blocks)(y \<mapsto> v)" by (rule map_of_list_update [OF _ bs(1,2)])
    have "map fst (blocks[i := (y, v)]) = map fst blocks"
      using bs(1,2) by (simp add: map_update list_update_same_conv)
    moreover have "\<forall>b\<in>set (blocks[i := (y, v)]). carrier (snd b)"
      using s(2) v(2) set_update_subset_insert [of blocks i "(y, v)"] by auto
    ultimately show thesis
      using next_node [of "blocks[i := (y, v)]" v] m y Inr v cond [OF v(2)] False bs(2) s(1) by (simp add: blocks_ok_def)
  qed
qed

lemma merge_scan_spec:
  assumes cond: "\<And>v. carrier v \<Longrightarrow> condition v = Some (P (votes_of v))" and mono: "\<And>A B. A \<subseteq> B \<Longrightarrow> P A \<Longrightarrow> P B"
  shows "blocks_ok blocks \<Longrightarrow> \<forall>d\<in>set nodes. carrier (en_cumulative_vote d) \<Longrightarrow>
    \<exists>r. merge_scan add condition n nodes blocks = Some r \<and> scan_result P n nodes blocks r"
proof (induction nodes arbitrary: blocks)
  case Nil
  then show ?case by (simp add: scan_result_def passing_def through_def)
next
  case (Cons d nodes)
  have d: "carrier (en_cumulative_vote d)" and rest: "\<forall>d\<in>set nodes. carrier (en_cumulative_vote d)"
    using Cons.prems(2) by auto
  show ?case
  proof (cases "ancestor_block d n")
    case None
    then show ?thesis using Cons.IH [OF Cons.prems(1) rest] scan_result_skip [OF None] by auto
  next
    case (Some y)
    consider
      (found) "merge_scan add condition n (d # nodes) blocks = Some (Some y)"
        "P (seen blocks y \<union> votes_of (en_cumulative_vote d))"
    | (next_node) blocks' v where "merge_scan add condition n (d # nodes) blocks = merge_scan add condition n nodes blocks'"
        "blocks_ok blocks'" "map_of blocks' = (map_of blocks)(y \<mapsto> v)"
        "votes_of v = seen blocks y \<union> votes_of (en_cumulative_vote d)" "map_of blocks y = None \<or> \<not> P (votes_of v)"
      by (rule merge_scan_one [OF _ Cons.prems(1) d Some, where condition = condition and P = P and nodes = nodes])
        (erule cond, blast+)
    then show ?thesis
    proof cases
      case found
      have "P (seen blocks y \<union> passing n (d # nodes) y)"
        using Some by (intro mono [OF _ found(2)]) (auto simp: passing_Cons)
      then show ?thesis using found(1) Some by (auto simp: scan_result_def)
    next
      case (next_node blocks' v)
      obtain r where r: "merge_scan add condition n nodes blocks' = Some r" "scan_result P n nodes blocks' r"
        using Cons.IH [OF next_node(2) rest] by blast
      from scan_result_step [OF Some r(2) next_node(3-5)] show ?thesis using r(1) next_node(1) by simp
    qed
  qed
qed

end

section \<open>Blocks around an edge\<close>

context numbered_chain
begin

lemma number_child: "par c = Some h \<Longrightarrow> number c = number h + 1"
proof -
  assume "par c = Some h"
  then have "unat (number c) = Suc (unat (number h))" by (rule number_parent)
  then have "of_nat (unat (number c)) = (of_nat (Suc (unat (number h))) :: u64)" by simp
  then show ?thesis by (simp add: add.commute)
qed

lemma child_number_less: "par c = Some h \<Longrightarrow> number h < number c"
  using number_parent [of c h] by (simp add: word_less_nat_alt)

text \<open>On a path, the block numbered one above another is its child.\<close>

lemma child_on_path:
  assumes p: "path par k xs" and h: "h \<in> set xs" and y: "y \<in> set xs" "number y = number h + 1"
  shows "par y = Some h"
proof -
  have d: "descends par h k" "descends par y k" using descends_path [OF p] h y by blast+
  have "h \<noteq> k" using path_not_self [OF p] h by auto
  then obtain c where c: "par c = Some h" "descends par c k" using descends_child [OF d(1)] by blast
  have "y = c" using descends_same_number [OF d(2) c(2)] y(2) number_child [OF c(1)] by simp
  then show ?thesis using c(1) by simp
qed

lemma path_between:
  assumes p: "path par k xs" and b: "b \<in> set xs" and h: "h \<in> set xs" and y: "descends par y b" "descends par h y"
  shows "y \<in> set xs"
proof -
  have yk: "descends par y k" using descends_trans [OF y(1) descends_path [OF p b]] .
  have "xs \<noteq> []" using b by auto
  from descends_path_cases [OF p this yk] show ?thesis
  proof (elim disjE)
    assume "y = k"
    then have "number k \<le> number b" using descends_number [OF y(1)] by auto
    then show ?thesis using path_number_less [OF p b] by simp
  next
    assume l: "descends par y (last xs)"
    have "descends par (last xs) h" using descends_path_last [OF p h] .
    then have "descends par y h" using descends_trans [OF l] by blast
    then show ?thesis using descends_antisym y(2) h by blast
  qed (auto dest: in_set_butlastD)
qed

lemma containing_parent:
  assumes l: "linked par number base entries" and y: "entries y = None" "par y = Some h"
  shows "containing entries y \<subseteq> containing entries h"
proof
  fix d
  assume "d \<in> containing entries y"
  then obtain e where e: "entries d = Some e" "y \<in> set (en_ancestors e)" by (auto simp: containing_def)
  from edge_split [OF l e y(1)] obtain A C where "en_ancestors e = A @ y # C" "C \<noteq> []" "path par y C" by metis
  then have "h \<in> set (en_ancestors e)" using y(2) by (cases C) auto
  then show "d \<in> containing entries h" using e(1) by (auto simp: containing_def)
qed

lemma child_entry_containing:
  assumes l: "linked par number base entries" and c: "entries c = Some e" "par c = Some h" and h: "descends par base h"
  shows "c \<in> containing entries h"
proof -
  have "c \<noteq> base" using descends_number [OF h] child_number_less [OF c(2)] by auto
  then have "en_ancestors e \<noteq> []" using linkedD(5) [OF l c(1)] by blast
  then have "h \<in> set (en_ancestors e)" using linkedD(2) [OF l c(1)] c(2) by (cases "en_ancestors e") auto
  then show ?thesis using c(1) by (auto simp: containing_def)
qed

lemma containing_entry:
  assumes l: "linked par number base entries" and h: "entries h \<noteq> None"
  shows "containing entries h = {d. link entries d = Some h}"
proof -
  have "h \<in> set (en_ancestors e) \<longleftrightarrow> ancestor_node e = Some h" if e: "entries d = Some e" for d e
    using linkedD(3) [OF l e, of h] h mem_butlast_or_last [of h "en_ancestors e"]
    by (auto simp: ancestor_node_Some simp del: not_None_eq)
  then show ?thesis by (auto simp: containing_def link_def bind_eq_Some_conv)
qed

text \<open>A block of an edge that has another block of the edge below it is not an entry.\<close>

lemma edge_interior:
  assumes l: "linked par number base entries" and k: "entries k = Some e"
    and y: "y \<in> set (en_ancestors e)" "h \<in> set (en_ancestors e)" "number h < number y"
  shows "entries y = None"
proof -
  have "y \<noteq> last (en_ancestors e)"
    using descends_number [OF descends_path_last [OF linkedD(2) [OF l k] y(2)]] y(3) by auto
  then show ?thesis using mem_butlast_or_last [OF y(1)] linkedD(3) [OF l k] by blast
qed

end

end
