(* ===== verification/Vote_Graph_Search.thy ===== *)
theory Vote_Graph_Search
  imports Vote_Graph_Ghost
begin

text \<open>
  The correctness of \<open>find_ghost\<close> and \<open>find_ancestor\<close> on a graph that satisfies its invariant, for
  conditions that only depend on the set of votes, are monotone in it and false for the
  empty set.
\<close>

lemma find_append: "find Q (xs @ ys) = (case find Q xs of None \<Rightarrow> find Q ys | Some x \<Rightarrow> Some x)"
  by (induction xs) auto

locale graph_scan = vote_graph_laws par number ancestry add zero carrier votes_of
  for par :: "'h::linorder \<rightharpoonup> 'h" and number :: "'h \<Rightarrow> u64" and ancestry :: "'h \<Rightarrow> 'h \<Rightarrow> 'h list option"
    and add :: "'v \<Rightarrow> 'v \<Rightarrow> 'v option" and zero :: 'v and carrier :: "'v \<Rightarrow> bool" and votes_of :: "'v \<Rightarrow> 'x set" +
  fixes cast :: "'h \<Rightarrow> 'x set" and g :: "('h, 'v) VoteGraph" and condition :: "'v \<Rightarrow> bool option"
    and P :: "'x set \<Rightarrow> bool"
  assumes inv: "graph_inv par number carrier votes_of cast g"
    and cond: "carrier v \<Longrightarrow> condition v = Some (P (votes_of v))"
    and mono: "A \<subseteq> B \<Longrightarrow> P A \<Longrightarrow> P B"
begin

abbreviation E :: "'h \<rightharpoonup> ('h, 'v) Entry" where "E \<equiv> vg_entries g"
abbreviation voted :: "'h \<Rightarrow> bool" where "voted h \<equiv> P (cast_above par cast h)"
abbreviation found :: "'h \<Rightarrow> bool" where "found h \<equiv> voted h \<and> descends par (vg_base g) h"
abbreviation node :: "'h \<Rightarrow> ('h, 'v) Entry" where "node k \<equiv> the (E k)"

lemma invD:
  "linked par number (vg_base g) E" "threaded E" "headed par E (vg_heads g)" "counted par carrier votes_of cast E"
  using inv by (auto simp: graph_inv_def)

lemma voted_below: "descends par a b \<Longrightarrow> voted b \<Longrightarrow> voted a"
  using mono [OF cast_above_mono] .

lemma entry_node: "E k = Some e \<Longrightarrow> carrier (en_cumulative_vote e) \<and> votes_of (en_cumulative_vote e) = cast_above par cast k
    \<and> condition (en_cumulative_vote e) = Some (voted k)"
  using countedD(1,2) [OF invD(4), of k e] cond by simp

lemma containing_Some: "k \<in> containing E h \<Longrightarrow> E k = Some (node k) \<and> h \<in> set (en_ancestors (node k)) \<and> descends par h k"
  using descends_path [OF linkedD(2) [OF invD(1)]] by (auto simp: containing_def)

lemma containing_ancestor_block:
  assumes "k \<in> containing E h"
  shows "ancestor_block (node k) n = Some y \<longleftrightarrow> y \<in> set (en_ancestors (node k)) \<and> number y = n"
  using assms ancestor_block_iff [OF linkedD(1,2) [OF invD(1)]] by (auto simp: containing_def)

lemma has_block_containing:
  assumes "k \<in> containing E h"
  shows "has_block y n (node k) \<longleftrightarrow> k \<in> containing E y \<and> number y = n"
  using assms linked_has_block [OF invD(1), of k] by (auto simp: containing_def)

lemmas parent_descends = descends_parent [where par = par]
lemmas up_path = path_up [where par = par]

section \<open>One pass of the merge loop\<close>

lemma scan_exists:
  "blocks_ok blocks \<Longrightarrow> \<forall>d\<in>set nodes. carrier (en_cumulative_vote d) \<Longrightarrow>
     \<exists>r. merge_scan add condition n nodes blocks = Some r \<and> scan_result P n nodes blocks r"
  by (rule merge_scan_spec) (erule cond, erule (1) mono, assumption+)

lemma passing_nodes:
  assumes "set ks \<subseteq> containing E h"
  shows "passing n (map node ks) y = (if number y = n then \<Union>k\<in>set ks \<inter> containing E y. cast_above par cast k else {})"
proof -
  have "ancestor_block (node k) n = Some y \<longleftrightarrow> k \<in> containing E y \<and> number y = n" if "k \<in> set ks" for k
    using that assms containing_ancestor_block [of k h] containing_Some [of k h] by (auto simp: containing_def)
  moreover have "votes_of (en_cumulative_vote (node k)) = cast_above par cast k" if "k \<in> set ks" for k
    using that assms containing_Some [of k h] entry_node [of k] by auto
  ultimately show ?thesis unfolding passing_def by (fastforce split: if_splits)
qed

text \<open>
  A pass at the height above \<open>h\<close>, over nodes whose edges contain \<open>h\<close>: a block it finds is a child of
  \<open>h\<close> on the edge of one of them; a child that it does not find, but whose votes fulfill
  the condition, has a single node on which the condition holds.
\<close>

lemma through_nodes:
  assumes "set ks \<subseteq> containing E h" "number y = n"
  shows "through n (map node ks) y = map node (filter (\<lambda>k. k \<in> containing E y) ks)"
proof -
  have "ancestor_block (node k) n = Some y \<longleftrightarrow> k \<in> containing E y" if "k \<in> set ks" for k
    using that assms containing_ancestor_block [of k h] containing_Some [of k h] by (auto simp: containing_def)
  then have "filter (\<lambda>k. ancestor_block (node k) n = Some y) ks = filter (\<lambda>k. k \<in> containing E y) ks"
    by (intro filter_cong) auto
  then show ?thesis by (simp add: through_def filter_map comp_def)
qed

lemma pass_spec:
  assumes ks: "set ks \<subseteq> containing E h"
  obtains (none) "merge_scan add condition (number h + 1) (map node ks) [] = Some None"
      "\<And>y k. number y = number h + 1 \<Longrightarrow> k \<in> set ks \<inter> containing E y \<Longrightarrow> \<not> voted k \<Longrightarrow>
         \<not> P (\<Union>k\<in>set ks \<inter> containing E y. cast_above par cast k)"
  | (block) y where "merge_scan add condition (number h + 1) (map node ks) [] = Some (Some y)"
      "par y = Some h" "E y = None" "P (\<Union>k\<in>set ks \<inter> containing E y. cast_above par cast k)"
      "set ks \<inter> containing E y \<noteq> {}"
proof -
  have "\<forall>d\<in>set (map node ks). carrier (en_cumulative_vote d)"
    using ks containing_Some [of _ h] entry_node by fastforce
  moreover have "blocks_ok []" by (simp add: blocks_ok_def)
  ultimately obtain r where r: "merge_scan add condition (number h + 1) (map node ks) [] = Some r"
    "scan_result P (number h + 1) (map node ks) [] r"
    using scan_exists by blast
  note scan = r(2) [unfolded scan_result_def passing_nodes [OF ks]]
  show thesis
  proof (cases r)
    case None
    have "\<not> P (\<Union>k\<in>set ks \<inter> containing E y. cast_above par cast k)"
      if y: "number y = number h + 1" and k: "k \<in> set ks \<inter> containing E y" "\<not> voted k" for y k
    proof
      assume p: "P (\<Union>k\<in>set ks \<inter> containing E y. cast_above par cast k)"
      have "length (through (number h + 1) (map node ks) y) \<le> 1"
        using scan [unfolded None option.case, rule_format, of y] p y by (simp add: seen_def)
      then have "length (filter (\<lambda>k. k \<in> containing E y) ks) \<le> 1" using through_nodes [OF ks y] by simp
      moreover have "k \<in> set (filter (\<lambda>k. k \<in> containing E y) ks)" using k(1) by simp
      ultimately have "filter (\<lambda>k. k \<in> containing E y) ks = [k]"
        by (cases "filter (\<lambda>k. k \<in> containing E y) ks") auto
      moreover have "set ks \<inter> containing E y = set (filter (\<lambda>k. k \<in> containing E y) ks)" by auto
      ultimately have "set ks \<inter> containing E y = {k}" by simp
      then show False using p k(2) by simp
    qed
    then show thesis using none r(1) None by blast
  next
    case (Some y)
    then obtain k where k: "k \<in> set ks" "ancestor_block (node k) (number h + 1) = Some y" using scan by auto
    have kh: "k \<in> containing E h" using k(1) ks by blast
    then have y: "y \<in> set (en_ancestors (node k))" "number y = number h + 1" using k(2) containing_ancestor_block by blast+
    have h: "E k = Some (node k)" "h \<in> set (en_ancestors (node k))" using containing_Some [OF kh] by auto
    have p: "par y = Some h" using child_on_path [OF linkedD(2) [OF invD(1) h(1)] h(2) y] .
    moreover have "E y = None" using edge_interior [OF invD(1) h(1) y(1) h(2) child_number_less [OF p]] .
    moreover have "k \<in> set ks \<inter> containing E y" using k(1) h(1) y(1) by (auto simp: containing_def)
    moreover have "P (\<Union>k\<in>set ks \<inter> containing E y. cast_above par cast k)"
      using scan Some y(2) by (simp add: seen_def)
    ultimately show thesis using block r(1) Some by blast
  qed
qed

lemma filter_containing:
  assumes "set ks \<subseteq> containing E h"
  shows "filter (has_block y n) (map node ks) = map node (filter (\<lambda>k. k \<in> containing E y \<and> number y = n) ks)"
proof -
  have "filter (\<lambda>k. has_block y n (node k)) ks = filter (\<lambda>k. k \<in> containing E y \<and> number y = n) ks"
    using assms has_block_containing [of _ h y n] by (intro filter_cong) auto
  then show ?thesis by (simp add: filter_map comp_def)
qed

text \<open>The votes above a child that is not an entry are those of the nodes the pass sees.\<close>

lemma child_votes:
  assumes "set ks = containing E h" "par y = Some h" "E y = None" "descends par (vg_base g) h"
  shows "(\<Union>k\<in>set ks \<inter> containing E y. cast_above par cast k) = cast_above par cast y"
proof -
  have "containing E y \<subseteq> set ks" using containing_parent [OF invD(1) assms(3,2)] assms(1) by simp
  then have "set ks \<inter> containing E y = containing E y" by blast
  moreover have "descends par (vg_base g) y" using descends_trans [OF assms(4) parent_descends [OF assms(2)]] .
  ultimately show ?thesis using cast_above_containing [OF invD(1,4) assms(3)] by simp
qed

section \<open>The merge loop\<close>

lemma merge_loop_step:
  assumes ks: "set ks \<subseteq> containing E h" and o: "b + offset = number h + 1"
    and y: "merge_scan add condition (number h + 1) (map node ks) [] = Some (Some y)" "par y = Some h"
  obtains ks' where "merge_loop add condition b offset (map node ks) (number h) hashes
      = merge_loop add condition b (offset + 1) (map node ks') (number y) (hashes @ [y])"
    "set ks' = set ks \<inter> containing E y" "b + (offset + 1) = number y + 1"
    "2 ^ 64 - unat (number y) < (2 ^ 64 - unat (number h) :: nat)"
proof
  let ?ks' = "filter (\<lambda>k. k \<in> containing E y \<and> number y = number h + 1) ks"
  have n: "number y = number h + 1" using number_child [OF y(2)] .
  show "merge_loop add condition b offset (map node ks) (number h) hashes
      = merge_loop add condition b (offset + 1) (map node ?ks') (number y) (hashes @ [y])"
    using y(1) o n filter_containing [OF ks] by (subst merge_loop.simps) simp
  show "set ?ks' = set ks \<inter> containing E y" using n by auto
  show "b + (offset + 1) = number y + 1" using o n by (simp add: add.assoc [symmetric])
  show "2 ^ 64 - unat (number y) < (2 ^ 64 - unat (number h) :: nat)"
    using word_succ_decreases [OF child_number_less [OF y(2)]] n by simp
qed

lemma block_voted: "P (\<Union>k\<in>K \<inter> containing E y. cast_above par cast k) \<Longrightarrow> voted y"
proof (erule mono [rotated], rule UN_least)
  fix k
  assume "k \<in> K \<inter> containing E y"
  then have "descends par y k" using containing_Some [of k y] by simp
  then show "cast_above par cast k \<subseteq> cast_above par cast y" by (rule cast_above_mono)
qed

text \<open>
  Whatever nodes it starts from, the merge loop returns a chain of blocks upwards from its
  start, and all blocks it adds fulfill the condition.
\<close>

lemma merge_loop_chain:
  assumes "set ks \<subseteq> containing E h" "b + offset = number h + 1"
  shows "\<exists>ups. merge_loop add condition b offset (map node ks) (number h) hashes
      = Some \<lparr>sc_hashes = hashes @ ups, sc_best_number = number (last (h # ups))\<rparr>
    \<and> path par (last (h # ups)) (tl (rev (h # ups))) \<and> (\<forall>y\<in>set ups. voted y \<and> descends par h y)"
  using assms
proof (induction "2 ^ 64 - unat (number h)" arbitrary: h ks offset hashes rule: less_induct)
  case less
  from pass_spec [OF less.prems(1)] consider (none) "merge_scan add condition (number h + 1) (map node ks) [] = Some None"
    | (block) y where "merge_scan add condition (number h + 1) (map node ks) [] = Some (Some y)" "par y = Some h"
      "P (\<Union>k\<in>set ks \<inter> containing E y. cast_above par cast k)" by metis
  then show ?case
  proof cases
    case none
    then show ?thesis using less.prems(2) by (intro exI [of _ "[]"]) (simp add: merge_loop.simps)
  next
    case (block y)
    obtain ks' where ks': "merge_loop add condition b offset (map node ks) (number h) hashes
        = merge_loop add condition b (offset + 1) (map node ks') (number y) (hashes @ [y])"
      "set ks' = set ks \<inter> containing E y" "b + (offset + 1) = number y + 1"
      "2 ^ 64 - unat (number y) < (2 ^ 64 - unat (number h) :: nat)"
      using merge_loop_step [OF less.prems block(1,2)] .
    have "set ks' \<subseteq> containing E y" using ks'(2) by blast
    from less.hyps [OF ks'(4) this ks'(3), of "hashes @ [y]"] obtain ups
      where ups: "merge_loop add condition b (offset + 1) (map node ks') (number y) (hashes @ [y])
          = Some \<lparr>sc_hashes = (hashes @ [y]) @ ups, sc_best_number = number (last (y # ups))\<rparr>"
        "path par (last (y # ups)) (tl (rev (y # ups)))" "\<forall>z\<in>set ups. voted z \<and> descends par y z" by blast
    have "descends par h z" if "z \<in> set (y # ups)" for z
      using that ups(3) parent_descends [OF block(2)] descends_trans [OF parent_descends [OF block(2)], of z] by auto
    then show ?thesis
      using ks'(1) ups up_path [OF ups(2) block(2)] block_voted [OF block(3)] by (intro exI [of _ "y # ups"]) simp
  qed
qed

text \<open>The descendents of a node, and the blocks of a subchain.\<close>

lemma constrained_fun: "constrained None = (\<lambda>_. True)" "constrained (Some (h, n)) = has_block h n"
  by (simp_all add: constrained_def fun_eq_iff)

lemma descendents_nodes:
  assumes "E h = Some e"
  shows "set (en_descendents e) = containing E h" "those (map E (en_descendents e)) = Some (map node (en_descendents e))"
proof -
  show d: "set (en_descendents e) = containing E h"
    using invD(2) assms containing_entry [OF invD(1), of h] unfolding threaded_iff by simp
  have "those (map E ds) = Some (map node ds)" if "\<forall>d\<in>set ds. E d = Some (node d)" for ds
    using that by (induction ds) (auto split: option.splits)
  then show "those (map E (en_descendents e)) = Some (map node (en_descendents e))" using d containing_Some by blast
qed

lemma next_descendent_find:
  assumes "\<forall>d\<in>set ds. E d = Some (node d) \<and> ok (node d) = Some (Q d)"
  shows "next_descendent E ok ds = Some (map_option (\<lambda>d. (d, node d)) (find Q ds))"
  using assms by (induction ds) (auto split: option.splits)

lemma number_blocks_path:
  "path par t zs \<Longrightarrow> number_blocks (number t) (t # zs) = map (\<lambda>x. (x, number x)) (t # zs)"
  by (induction zs arbitrary: t) (auto dest: number_child)

lemma blocks_reverse_chain:
  assumes "path par (last (h # ups)) (tl (rev (h # ups)))"
  shows "blocks_reverse \<lparr>sc_hashes = h # ups, sc_best_number = number (last (h # ups))\<rparr>
    = map (\<lambda>x. (x, number x)) (rev (h # ups))"
proof -
  have "rev (h # ups) = last (h # ups) # tl (rev (h # ups))" by (metis hd_Cons_tl hd_rev rev_is_Nil_conv list.discI)
  then show ?thesis using number_blocks_path [OF assms] by (simp add: blocks_reverse_def)
qed

lemma find_on_edge:
  assumes "E c = Some (node c)"
  shows "find (\<lambda>(h, n). has_block h n (node c)) (map (\<lambda>x. (x, number x)) xs)
    = map_option (\<lambda>x. (x, number x)) (find (\<lambda>x. c \<in> containing E x) xs)"
proof -
  have "has_block x (number x) (node c) \<longleftrightarrow> c \<in> containing E x" for x
    using linked_has_block [OF invD(1) assms, of x "number x"] assms by (auto simp: containing_def)
  then show ?thesis by (induction xs) simp_all
qed

section \<open>The searches always return\<close>

lemma ghost_find_merge_point_returns:
  assumes "E h = Some e"
  obtains ups where "ghost_find_merge_point add g h e (map_option (\<lambda>t. (t, number t)) c) condition
      = Some \<lparr>sc_hashes = h # ups, sc_best_number = number (last (h # ups))\<rparr>"
    "path par (last (h # ups)) (tl (rev (h # ups)))" "\<forall>y\<in>set ups. found y"
proof -
  note base = entry_above_base [OF invD(1) assms]
  note d = descendents_nodes [OF assms]
  have n: "en_number e = number h" using linkedD(1) [OF invD(1) assms] .
  define ks where "ks = (case c of None \<Rightarrow> en_descendents e
    | Some t \<Rightarrow> filter (\<lambda>k. k \<in> containing E t \<and> number t = number t) (en_descendents e))"
  have "ghost_find_merge_point add g h e (map_option (\<lambda>t. (t, number t)) c) condition
      = merge_loop add condition (number h) 1 (map node ks) (number h) [h]"
    using d n filter_containing [of "en_descendents e" h _ "number (the c)"]
    by (cases c) (simp_all add: ghost_find_merge_point_def constrained_fun ks_def)
  moreover have "set ks \<subseteq> containing E h" using d(1) by (auto simp: ks_def split: option.splits)
  moreover obtain ups where "merge_loop add condition (number h) 1 (map node ks) (number h) [h]
      = Some \<lparr>sc_hashes = [h] @ ups, sc_best_number = number (last (h # ups))\<rparr>"
    "path par (last (h # ups)) (tl (rev (h # ups)))" "\<forall>y\<in>set ups. voted y \<and> descends par h y"
    using merge_loop_chain [OF calculation(2), of "number h" 1 "[h]"] by blast
  ultimately show thesis using that [of ups] descends_trans [OF base] by simp
qed

lemma ghost_loop_returns:
  assumes "E h = Some e" "voted h"
  shows "\<exists>f h' e'. ghost_loop E condition (map_option (\<lambda>t. (t, number t)) c) fc h e = Some (f, h', e')
    \<and> E h' = Some e' \<and> voted h' \<and> (f \<longrightarrow> fc)"
  using assms
proof (induction "2 ^ 64 - unat (number h)" arbitrary: h e fc rule: less_induct)
  case less
  let ?c = "map_option (\<lambda>t. (t, number t)) c"
  define Q where "Q k \<longleftrightarrow> \<not> (fc \<and> \<not> constrained ?c (node k)) \<and> voted k" for k
  note d = descendents_nodes(1) [OF less.prems(1)]
  have "\<forall>k\<in>set (en_descendents e). E k = Some (node k) \<and> (if fc \<and> \<not> constrained ?c (node k) then Some False
      else condition (en_cumulative_vote (node k))) = Some (Q k)"
    using d containing_Some entry_node by (fastforce simp: Q_def)
  note loop = ghost_loop.simps [of E condition ?c fc h e, unfolded next_descendent_find [OF this]]
  show ?case
  proof (cases "find Q (en_descendents e)")
    case None
    then show ?thesis using loop less.prems by simp
  next
    case (Some k)
    then have k: "k \<in> containing E h" "voted k" using d by (auto simp: find_Some_iff Q_def)
    have "number h < number k" using containing_number [OF invD(1) k(1)] .
    moreover have "unat (number k) < 2 ^ 64" using unsigned_less [of "number k", where ?'a = nat] by simp
    ultimately have "2 ^ 64 - unat (number k) < (2 ^ 64 - unat (number h) :: nat)" by (simp add: word_less_nat_alt)
    from less.hyps [OF this _ k(2), of "node k" False] containing_Some [OF k(1)] show ?thesis
      using loop Some by auto
  qed
qed

lemma containing_nodes_returns:
  obtains (node_exists) e where "E t = Some e" "find_containing_nodes g t (number t) = Some None"
  | (outside) "E t = None" "find_containing_nodes g t (number t) = Some (Some [])"
  | (on_edge) x xs e a where "E t = None" "find_containing_nodes g t (number t) = Some (Some (x # xs))"
      "E x = Some e" "ancestor_node e = Some a" "t \<in> set (en_ancestors e)"
proof (cases "E t")
  case (Some e)
  then show thesis using node_exists by (simp add: find_containing_nodes_def)
next
  case None
  then obtain keys where k: "find_containing_nodes g t (number t) = Some (Some keys)" "set keys = containing E t"
    using find_containing_nodes_spec [OF invD(1,3) None] by metis
  show thesis
  proof (cases keys)
    case Nil
    then show thesis using outside None k(1) by simp
  next
    case (Cons x xs)
    then have "x \<in> containing E t" using k(2) by auto
    then obtain e where "E x = Some e" "t \<in> set (en_ancestors e)" by (auto simp: containing_def)
    moreover from this(2) have "ancestor_node e = Some (last (en_ancestors e))" by (auto simp: ancestor_node_def)
    ultimately show thesis using on_edge None k(1) Cons by blast
  qed
qed

lemma ghost_start_returns:
  obtains h fc e where "ghost_start g (map_option (\<lambda>t. (t, number t)) c) = Some (h, fc)" "E h = Some e"
proof (cases c)
  case None
  then show thesis using that linked_base [OF invD(1)] by (auto simp: ghost_start_def)
next
  case (Some t)
  show thesis
  proof (rule containing_nodes_returns [of t])
    fix x xs e a
    assume x: "find_containing_nodes g t (number t) = Some (Some (x # xs))" "E x = Some e" "ancestor_node e = Some a"
    obtain e' where "E a = Some e'" using prev_entry [OF invD(1) x(2,3)] .
    then show thesis using that [of a True e'] Some x by (simp add: ghost_start_def)
  qed (use that Some linked_base [OF invD(1)] in \<open>auto simp: ghost_start_def\<close>)
qed

lemma find_ghost_returns:
  "\<exists>r. find_ghost add g (map_option (\<lambda>t. (t, number t)) c) condition = Some (map_option (\<lambda>t. (t, number t)) r)
     \<and> (\<forall>t. r = Some t \<longrightarrow> found t) \<and> (c = None \<longrightarrow> voted (vg_base g) \<longrightarrow> r \<noteq> None)"
proof -
  obtain h fc e where s: "ghost_start g (map_option (\<lambda>t. (t, number t)) c) = Some (h, fc)" "E h = Some e"
    by (rule ghost_start_returns)
  show ?thesis
  proof (cases "voted h")
    case False
    then show ?thesis
      using s entry_node [OF s(2)] by (intro exI [of _ None]) (auto simp: find_ghost_def ghost_start_def)
  next
    case True
    obtain f h' e' where l: "ghost_loop E condition (map_option (\<lambda>t. (t, number t)) c) fc h e = Some (f, h', e')"
      "E h' = Some e'" "voted h'" using ghost_loop_returns [OF s(2) True] by blast
    obtain ups where u: "ghost_find_merge_point add g h' e' (map_option (\<lambda>t. (t, number t)) (if f then c else None)) condition
        = Some \<lparr>sc_hashes = h' # ups, sc_best_number = number (last (h' # ups))\<rparr>" "\<forall>y\<in>set ups. found y"
      using ghost_find_merge_point_returns [OF l(2)] by metis
    have "find_ghost add g (map_option (\<lambda>t. (t, number t)) c) condition
        = Some (Some (last (h' # ups), number (last (h' # ups))))"
      using s entry_node [OF s(2)] True l(1) u(1) by (cases f) (simp_all add: find_ghost_def subchain_best_def)
    moreover have "found (last (h' # ups))" using u(2) l(3) entry_above_base [OF invD(1) l(2)] by auto
    ultimately show ?thesis by (intro exI [of _ "Some (last (h' # ups))"]) simp
  qed
qed

lemma back_loop_returns:
  assumes "E k = Some e" "E c = Some ec"
  shows "back_loop E condition k ec = Some None
    \<or> (\<exists>k' c'. back_loop E condition k ec = Some (Some (k', node k', node c')) \<and> E k' = Some (node k') \<and> E c' = Some (node c')
        \<and> voted k')"
  using assms
proof (induction "unat (number k)" arbitrary: k e c ec rule: less_induct)
  case less
  note v = entry_node [OF less.prems(1)]
  show ?case
  proof (cases "voted k")
    case True
    then have "back_loop E condition k ec = Some (Some (k, node k, node c))"
      using less.prems v by (subst back_loop.simps) simp
    then show ?thesis using True less.prems by (intro disjI2 exI [of _ k] exI [of _ c]) simp
  next
    case False
    show ?thesis
    proof (cases "ancestor_node e")
      case None
      then show ?thesis using False less.prems v by (subst back_loop.simps) simp
    next
      case (Some p)
      obtain e' where "E p = Some e'" using prev_entry [OF invD(1) less.prems(1) Some] .
      moreover have "unat (number p) < unat (number k)"
        using prev_number [OF invD(1) less.prems(1) Some] by (simp add: word_less_nat_alt)
      moreover have "back_loop E condition k ec = back_loop E condition p e"
        using False Some less.prems v by (subst back_loop.simps) simp
      ultimately show ?thesis using less.hyps [of p e' k e] less.prems(1) by simp
    qed
  qed
qed

definition back_search :: "'h \<Rightarrow> ('h, 'v) Entry \<Rightarrow> ('h \<times> u64) option option" where
  "back_search k n = (case back_loop E condition k n of
       None \<Rightarrow> None
     | Some None \<Rightarrow> Some None
     | Some (Some (node_key, active_node, canonical_node)) \<Rightarrow>
         map_option (\<lambda>sc. find (\<lambda>(h, n). has_block h n canonical_node) (blocks_reverse sc))
           (ghost_find_merge_point add g node_key active_node None condition))"

lemma back_search_returns:
  assumes "E k = Some e" "E c = Some ec"
  shows "\<exists>r. back_search k ec = Some (map_option (\<lambda>t. (t, number t)) r) \<and> (\<forall>t. r = Some t \<longrightarrow> found t)"
proof -
  consider "back_loop E condition k ec = Some None"
    | k' c' where "back_loop E condition k ec = Some (Some (k', node k', node c'))" "E k' = Some (node k')"
      "E c' = Some (node c')" "voted k'" using back_loop_returns [OF assms] by blast
  then show ?thesis
  proof cases
    case 1
    then show ?thesis by (intro exI [of _ None]) (simp add: back_search_def)
  next
    case 2
    obtain ups where u: "ghost_find_merge_point add g k' (node k') None condition
        = Some \<lparr>sc_hashes = k' # ups, sc_best_number = number (last (k' # ups))\<rparr>"
      "path par (last (k' # ups)) (tl (rev (k' # ups)))" "\<forall>y\<in>set ups. found y"
      using ghost_find_merge_point_returns [OF 2(2), of None] by auto
    have "back_search k ec = Some (map_option (\<lambda>x. (x, number x)) (find (\<lambda>x. c' \<in> containing E x) (rev (k' # ups))))"
      unfolding back_search_def 2(1) option.case prod.case u(1) option.map blocks_reverse_chain [OF u(2)] find_on_edge [OF 2(3)] ..
    moreover have "\<forall>t. find (\<lambda>x. c' \<in> containing E x) (rev (k' # ups)) = Some t \<longrightarrow> t \<in> set (k' # ups)"
      by (metis find_Some_iff nth_mem set_rev)
    ultimately show ?thesis using 2(4) u(3) entry_above_base [OF invD(1) 2(2)] by (intro exI conjI) auto
  qed
qed

lemma find_ancestor_returns:
  "\<exists>r. find_ancestor add g x (number x) condition = Some (map_option (\<lambda>t. (t, number t)) r) \<and> (\<forall>t. r = Some t \<longrightarrow> found t)"
proof (rule containing_nodes_returns [of x])
  fix e
  assume x: "E x = Some e" "find_containing_nodes g x (number x) = Some None"
  show ?thesis
  proof (cases "voted x \<or> ancestor_node e = None")
    case True
    then show ?thesis
      using x entry_node [OF x(1)] entry_above_base [OF invD(1) x(1)]
      by (intro exI [of _ "if voted x then Some x else None"]) (auto simp: find_ancestor_def)
  next
    case False
    then obtain p where p: "ancestor_node e = Some p" by auto
    obtain e' where "E p = Some e'" using prev_entry [OF invD(1) x(1) p] .
    moreover have "find_ancestor add g x (number x) condition = back_search p e"
      using x p False entry_node [OF x(1)] by (simp add: find_ancestor_def back_search_def)
    ultimately show ?thesis using back_search_returns [OF _ x(1)] by auto
  qed
next
  assume "find_containing_nodes g x (number x) = Some (Some [])"
  then show ?thesis by (intro exI [of _ None]) (simp add: find_ancestor_def)
next
  fix y ys e a
  assume y: "find_containing_nodes g x (number x) = Some (Some (y # ys))" "E y = Some e" "ancestor_node e = Some a"
  obtain e' where "E a = Some e'" using prev_entry [OF invD(1) y(2,3)] .
  moreover have "find_ancestor add g x (number x) condition = back_search a e"
    using y by (simp add: find_ancestor_def back_search_def)
  ultimately show ?thesis using back_search_returns [OF _ y(2)] by auto
qed

end

locale graph_search = graph_scan par number ancestry add zero carrier votes_of cast g condition P
  for par :: "'h::linorder \<rightharpoonup> 'h" and number :: "'h \<Rightarrow> u64" and ancestry :: "'h \<Rightarrow> 'h \<Rightarrow> 'h list option"
    and add :: "'v \<Rightarrow> 'v \<Rightarrow> 'v option" and zero :: 'v and carrier :: "'v \<Rightarrow> bool" and votes_of :: "'v \<Rightarrow> 'x set"
    and cast :: "'h \<Rightarrow> 'x set" and g :: "('h, 'v) VoteGraph" and condition :: "'v \<Rightarrow> bool option"
    and P :: "'x set \<Rightarrow> bool" +
  assumes not_empty: "\<not> P {}"
begin

definition top_block :: "'h \<Rightarrow> bool" where
  "top_block h \<longleftrightarrow> voted h \<and> (\<forall>c. par c = Some h \<longrightarrow> \<not> voted c)"

lemma merge_loop_complete:
  assumes "set ks = containing E h" "\<forall>k\<in>set ks. \<not> voted k" "voted h" "descends par (vg_base g) h"
    and "b + offset = number h + 1"
  shows "\<exists>ups. merge_loop add condition b offset (map node ks) (number h) hashes
      = Some \<lparr>sc_hashes = hashes @ ups, sc_best_number = number (last (h # ups))\<rparr>
    \<and> path par (last (h # ups)) (tl (rev (h # ups))) \<and> descends par h (last (h # ups)) \<and> top_block (last (h # ups))"
  using assms
proof (induction "2 ^ 64 - unat (number h)" arbitrary: h ks offset hashes rule: less_induct)
  case less
  note ks = less.prems(1,2) and h = less.prems(3,4)
  from pass_spec [of ks h] ks consider (none) "merge_scan add condition (number h + 1) (map node ks) [] = Some None"
      "\<And>y k. number y = number h + 1 \<Longrightarrow> k \<in> set ks \<inter> containing E y \<Longrightarrow> \<not> voted k \<Longrightarrow>
         \<not> P (\<Union>k\<in>set ks \<inter> containing E y. cast_above par cast k)"
    | (block) y where "merge_scan add condition (number h + 1) (map node ks) [] = Some (Some y)"
      "par y = Some h" "E y = None" "P (\<Union>k\<in>set ks \<inter> containing E y. cast_above par cast k)" by (metis order_refl)
  then show ?case
  proof cases
    case none
    have "\<not> voted c" if c: "par c = Some h" for c
    proof (cases "E c")
      case (Some e)
      then show ?thesis using child_entry_containing [OF invD(1) Some c h(2)] ks by blast
    next
      case None
      have "\<not> P (\<Union>k\<in>set ks \<inter> containing E c. cast_above par cast k)"
        using none(2) [OF number_child [OF c]] ks(2) not_empty by (cases "set ks \<inter> containing E c = {}") auto
      then show ?thesis using child_votes [OF ks(1) c None h(2)] by simp
    qed
    then have "top_block h" using h(1) by (simp add: top_block_def)
    then show ?thesis using none(1) less.prems(5) by (intro exI [of _ "[]"]) (simp add: merge_loop.simps)
  next
    case (block y)
    obtain ks' where ks': "merge_loop add condition b offset (map node ks) (number h) hashes
        = merge_loop add condition b (offset + 1) (map node ks') (number y) (hashes @ [y])"
      "set ks' = set ks \<inter> containing E y" "b + (offset + 1) = number y + 1"
      "2 ^ 64 - unat (number y) < (2 ^ 64 - unat (number h) :: nat)"
      using merge_loop_step [OF eq_refl [OF ks(1)] less.prems(5) block(1,2)] .
    have all: "set ks' = containing E y" using ks'(2) ks(1) containing_parent [OF invD(1) block(3,2)] by blast
    have "\<forall>k\<in>set ks'. \<not> voted k" using ks(2) ks'(2) by blast
    moreover have "voted y" using block(4) child_votes [OF ks(1) block(2,3) h(2)] by simp
    moreover have "descends par (vg_base g) y" using descends_trans [OF h(2) parent_descends [OF block(2)]] .
    ultimately obtain ups where ups: "merge_loop add condition b (offset + 1) (map node ks') (number y) (hashes @ [y])
        = Some \<lparr>sc_hashes = (hashes @ [y]) @ ups, sc_best_number = number (last (y # ups))\<rparr>"
      "path par (last (y # ups)) (tl (rev (y # ups)))" "descends par y (last (y # ups))" "top_block (last (y # ups))"
      using less.hyps [OF ks'(4) all _ _ _ ks'(3), of "hashes @ [y]"] by blast
    have "merge_loop add condition b offset (map node ks) (number h) hashes
        = Some \<lparr>sc_hashes = hashes @ y # ups, sc_best_number = number (last (h # y # ups))\<rparr>"
      using ks'(1) ups(1) by simp
    moreover have "path par (last (h # y # ups)) (tl (rev (h # y # ups)))"
      using up_path [OF ups(2) block(2)] by simp
    moreover have "descends par h (last (h # y # ups))"
      using descends_trans [OF parent_descends [OF block(2)] ups(3)] by simp
    ultimately show ?thesis using ups(4) by (intro exI [of _ "y # ups"]) simp
  qed
qed

text \<open>Constrained to the nodes that contain a block \<open>t\<close> that fulfills the condition, the loop first climbs to \<open>t\<close>.\<close>

lemma merge_loop_climb:
  assumes t: "E t = None" "voted t" "descends par (vg_base g) t" and ks: "set ks = containing E t" "\<forall>k\<in>set ks. \<not> voted k"
    and "descends par h t" "set ks \<subseteq> containing E h" "b + offset = number h + 1"
  shows "\<exists>ups. merge_loop add condition b offset (map node ks) (number h) hashes
      = merge_loop add condition b (number t + 1 - b) (map node ks) (number t) (hashes @ ups) \<and> last (h # ups) = t"
  using assms(6-8)
proof (induction "unat (number t) - unat (number h)" arbitrary: h offset hashes rule: less_induct)
  case less
  show ?case
  proof (cases "h = t")
    case True
    moreover have "offset = number h + 1 - b" using less.prems(3) by (metis add_diff_cancel_left')
    ultimately show ?thesis by (intro exI [of _ "[]"]) simp
  next
    case False
    then obtain y where y: "par y = Some h" "descends par y t" using descends_child [OF less.prems(1)] by blast
    have sub: "set ks \<subseteq> containing E y"
    proof
      fix k
      assume k: "k \<in> set ks"
      have kt: "k \<in> containing E t" and kh: "k \<in> containing E h" using k ks(1) less.prems(2) by auto
      have "y \<in> set (en_ancestors (node k))"
        using path_between [OF linkedD(2) [OF invD(1)]] containing_Some [OF kt] containing_Some [OF kh] y(2) parent_descends [OF y(1)]
        by metis
      then show "k \<in> containing E y" using containing_Some [OF kt] by (auto simp: containing_def)
    qed
    have v: "P (\<Union>k\<in>set ks. cast_above par cast k)" using t(2) cast_above_containing [OF invD(1,4) t(1,3)] ks(1) by simp
    obtain y' where scan: "merge_scan add condition (number h + 1) (map node ks) [] = Some (Some y')" "par y' = Some h"
      "set ks \<inter> containing E y' \<noteq> {}"
    proof (rule pass_spec [OF less.prems(2)])
      assume n: "\<And>y k. number y = number h + 1 \<Longrightarrow> k \<in> set ks \<inter> containing E y \<Longrightarrow> \<not> voted k \<Longrightarrow>
         \<not> P (\<Union>k\<in>set ks \<inter> containing E y. cast_above par cast k)"
      obtain k where "k \<in> set ks" using v not_empty by (cases ks) auto
      then show thesis using n [OF number_child [OF y(1)], of k] ks(2) sub v by (simp add: Int_absorb2 subset_iff)
    qed blast
    then obtain k where "k \<in> containing E y'" "k \<in> containing E y" using sub by blast
    then have "y' = y"
      using containing_Some descends_same_number number_child [OF scan(2)] number_child [OF y(1)] by metis
    then have "merge_loop add condition b offset (map node ks) (number h) hashes
        = merge_loop add condition b (offset + 1) (map node (filter (\<lambda>k. k \<in> containing E y \<and> number y = number h + 1) ks))
            (number y) (hashes @ [y])"
      using scan(1) less.prems(3) number_child [OF y(1)]
      by (subst merge_loop.simps) (simp add: filter_containing [OF less.prems(2)])
    also have "filter (\<lambda>k. k \<in> containing E y \<and> number y = number h + 1) ks = ks"
      using sub number_child [OF y(1)] by (auto intro: filter_True)
    finally have step: "merge_loop add condition b offset (map node ks) (number h) hashes
        = merge_loop add condition b (offset + 1) (map node ks) (number y) (hashes @ [y])" .
    have "unat (number t) - unat (number y) < unat (number t) - unat (number h)"
      using number_parent [OF y(1)] descends_number [OF y(2)] by (auto simp: word_less_nat_alt)
    moreover have "b + (offset + 1) = number y + 1"
      using less.prems(3) number_child [OF y(1)] by (simp add: add.assoc [symmetric])
    ultimately obtain ups where "merge_loop add condition b (offset + 1) (map node ks) (number y) (hashes @ [y])
        = merge_loop add condition b (number t + 1 - b) (map node ks) (number t) ((hashes @ [y]) @ ups)" "last (y # ups) = t"
      using less.hyps [of y "offset + 1" "hashes @ [y]"] y(2) sub by blast
    then show ?thesis using step by (intro exI [of _ "y # ups"]) simp
  qed
qed

section \<open>Merge points\<close>

lemma ghost_find_merge_point_spec:
  assumes h: "E h = Some e" "voted h" and top: "\<forall>k\<in>containing E h. \<not> voted k"
  obtains ups where "ghost_find_merge_point add g h e None condition
      = Some \<lparr>sc_hashes = h # ups, sc_best_number = number (last (h # ups))\<rparr>"
    "path par (last (h # ups)) (tl (rev (h # ups)))" "descends par h (last (h # ups))" "top_block (last (h # ups))"
proof -
  note d = descendents_nodes [OF h(1)]
  have n: "en_number e = number h" using linkedD(1) [OF invD(1) h(1)] .
  have "\<exists>ups. merge_loop add condition (number h) 1 (map node (en_descendents e)) (number h) [h]
      = Some \<lparr>sc_hashes = [h] @ ups, sc_best_number = number (last (h # ups))\<rparr>
    \<and> path par (last (h # ups)) (tl (rev (h # ups))) \<and> descends par h (last (h # ups)) \<and> top_block (last (h # ups))"
    using d(1) top h(2) entry_above_base [OF invD(1) h(1)] by (intro merge_loop_complete) auto
  then show thesis
    using that d(2) n by (auto simp: ghost_find_merge_point_def constrained_fun)
qed

lemma ghost_find_merge_point_constrained:
  assumes a: "E a = Some e" and t: "E t = None" "voted t" "descends par (vg_base g) t" "descends par a t"
    and sub: "containing E t \<subseteq> containing E a" and top: "\<forall>k\<in>containing E t. \<not> voted k"
  obtains sc h where "ghost_find_merge_point add g a e (Some (t, number t)) condition = Some sc"
    "subchain_best sc = Some (h, number h)" "descends par t h" "top_block h"
proof -
  note d = descendents_nodes [OF a]
  have n: "en_number e = number a" using linkedD(1) [OF invD(1) a] .
  define ks where "ks = filter (\<lambda>k. k \<in> containing E t \<and> number t = number t) (en_descendents e)"
  have ks: "set ks = containing E t" using d(1) sub by (auto simp: ks_def)
  have "ghost_find_merge_point add g a e (Some (t, number t)) condition
      = merge_loop add condition (number a) 1 (map node ks) (number a) [a]"
    using d n filter_containing [of "en_descendents e" a t "number t"]
    by (simp add: ghost_find_merge_point_def constrained_fun ks_def)
  moreover obtain ups1 where c: "merge_loop add condition (number a) 1 (map node ks) (number a) [a]
      = merge_loop add condition (number a) (number t + 1 - number a) (map node ks) (number t) ([a] @ ups1)" "last (a # ups1) = t"
    using merge_loop_climb [OF t(1-3) ks _ t(4), of "number a" 1 "[a]"] ks top sub by auto
  moreover obtain ups2 where "merge_loop add condition (number a) (number t + 1 - number a) (map node ks) (number t) ([a] @ ups1)
      = Some \<lparr>sc_hashes = ([a] @ ups1) @ ups2, sc_best_number = number (last (t # ups2))\<rparr>"
    "descends par t (last (t # ups2))" "top_block (last (t # ups2))"
    using merge_loop_complete [OF ks _ t(2,3), of "number a" "number t + 1 - number a" "[a] @ ups1"] ks top by auto
  moreover have "last (([a] @ ups1) @ ups2) = last (t # ups2)" using c(2) by auto
  ultimately show thesis using that [of _ "last (t # ups2)"] by (simp add: subchain_best_def)
qed

section \<open>find\_ghost\<close>

lemma ghost_loop_spec:
  assumes "E h = Some e" "voted h"
  shows "\<exists>h' e'. ghost_loop E condition cb False h e = Some (False, h', e') \<and> E h' = Some e' \<and> voted h'
    \<and> descends par h h' \<and> (\<forall>k\<in>containing E h'. \<not> voted k)"
  using assms
proof (induction "2 ^ 64 - unat (number h)" arbitrary: h e rule: less_induct)
  case less
  note d = descendents_nodes(1) [OF less.prems(1)]
  have "\<forall>k\<in>set (en_descendents e). E k = Some (node k) \<and> condition (en_cumulative_vote (node k)) = Some (voted k)"
    using d containing_Some entry_node by blast
  then have f: "next_descendent E (\<lambda>node. condition (en_cumulative_vote node)) (en_descendents e)
      = Some (map_option (\<lambda>d. (d, node d)) (find voted (en_descendents e)))"
    by (intro next_descendent_find) simp
  show ?case
  proof (cases "find voted (en_descendents e)")
    case None
    then have "ghost_loop E condition cb False h e = Some (False, h, e)" using f by (subst ghost_loop.simps) simp
    then show ?thesis using less.prems None d by (auto simp: find_None_iff)
  next
    case (Some k)
    then have k: "k \<in> containing E h" "voted k" using d by (auto simp: find_Some_iff)
    have up: "number h < number k" using containing_number [OF invD(1) k(1)] .
    have "unat (number k) < 2 ^ 64" using unsigned_less [of "number k", where ?'a = nat] by simp
    then have "2 ^ 64 - unat (number k) < (2 ^ 64 - unat (number h) :: nat)" using up by (simp add: word_less_nat_alt)
    from less.hyps [OF this _ k(2), of "node k"] containing_Some [OF k(1)] obtain h' e'
      where "ghost_loop E condition cb False k (node k) = Some (False, h', e')" "E h' = Some e'" "voted h'"
        "descends par k h'" "\<forall>k\<in>containing E h'. \<not> voted k" by blast
    moreover have "descends par h h'" using descends_trans [of par h k h'] containing_Some [OF k(1)] calculation(4) by blast
    ultimately show ?thesis using f Some by (subst ghost_loop.simps) auto
  qed
qed

lemma ghost_tail:
  assumes "E h = Some e" "voted h"
  obtains h' e' sc t where "ghost_loop E condition cb False h e = Some (False, h', e')"
    "ghost_find_merge_point add g h' e' None condition = Some sc" "subchain_best sc = Some (t, number t)"
    "descends par h t" "top_block t"
proof -
  obtain h' e' where l: "ghost_loop E condition cb False h e = Some (False, h', e')" "E h' = Some e'" "voted h'"
    "descends par h h'" "\<forall>k\<in>containing E h'. \<not> voted k" using ghost_loop_spec [OF assms] by blast
  obtain ups where m: "ghost_find_merge_point add g h' e' None condition
      = Some \<lparr>sc_hashes = h' # ups, sc_best_number = number (last (h' # ups))\<rparr>"
    "descends par h' (last (h' # ups))" "top_block (last (h' # ups))"
    using ghost_find_merge_point_spec [OF l(2,3,5)] by metis
  show thesis
    using that [OF l(1) m(1), of "last (h' # ups)"] m(2,3) descends_trans [OF l(4)] by (simp add: subchain_best_def)
qed

lemma find_ghost_from_node:
  assumes start: "ghost_start g cb = Some (h, False)" and h: "E h = Some e" "voted h"
  obtains t where "find_ghost add g cb condition = Some (Some (t, number t))" "descends par h t" "top_block t"
proof -
  obtain h' e' sc t where "ghost_loop E condition cb False h e = Some (False, h', e')"
    "ghost_find_merge_point add g h' e' None condition = Some sc" "subchain_best sc = Some (t, number t)"
    "descends par h t" "top_block t" using ghost_tail [OF h] .
  then show thesis using that [of t] start h entry_node [OF h(1)] by (simp add: find_ghost_def)
qed

lemma find_ghost_base:
  "find_ghost add g None condition = Some None \<and> \<not> voted (vg_base g)
   \<or> (\<exists>t. find_ghost add g None condition = Some (Some (t, number t)) \<and> descends par (vg_base g) t \<and> top_block t)"
proof -
  obtain e where e: "E (vg_base g) = Some e" using linked_base [OF invD(1)] by blast
  have s: "ghost_start g None = Some (vg_base g, False)" by (simp add: ghost_start_def)
  show ?thesis
  proof (cases "voted (vg_base g)")
    case True
    then show ?thesis using find_ghost_from_node [OF s e] by metis
  next
    case False
    then show ?thesis using s e entry_node [OF e] by (simp add: find_ghost_def)
  qed
qed

text \<open>From a current best block on an edge: the node below it, and the descendents that have it on their edge.\<close>

lemma edge_start:
  assumes t: "E t = None" "voted t" "descends par (vg_base g) t"
  obtains a e where "E a = Some e" "containing E t \<subseteq> containing E a" "descends par a t"
    "ghost_start g (Some (t, number t)) = Some (a, True)"
proof -
  obtain keys where k: "find_containing_nodes g t (number t) = Some (Some keys)" "set keys = containing E t"
    using find_containing_nodes_spec [OF invD(1,3) t(1)] by metis
  have "containing E t \<noteq> {}" using cast_above_containing [OF invD(1,4) t(1,3)] t(2) not_empty by auto
  then obtain x xs where keys: "keys = x # xs" using k(2) by (cases keys) auto
  then have x: "x \<in> containing E t" using k(2) by auto
  then obtain B where B: "B \<noteq> []" "path par t B" "E (last B) \<noteq> None" "\<forall>y\<in>set (butlast B). E y = None"
    using containing_cut [OF invD(1,4) t(1)] by metis
  have links: "\<And>k. k \<in> containing E t \<Longrightarrow> link E k = Some (last B)"
    using node_added_link(2) [OF invD(1) t(1) B k(2)] k(2) by simp
  obtain e where e: "E (last B) = Some e" using B(3) by auto
  show thesis
  proof (rule that [OF e])
    show "containing E t \<subseteq> containing E (last B)" using links containing_entry [OF invD(1) B(3)] by auto
    show "descends par (last B) t" using descends_path [OF B(2)] B(1) by simp
    show "ghost_start g (Some (t, number t)) = Some (last B, True)"
      using k(1) keys links [OF x] by (auto simp: ghost_start_def link_def bind_eq_Some_conv)
  qed
qed

lemma constrained_next:
  assumes e: "E a = Some e"
  shows "next_descendent E
      (\<lambda>node. if True \<and> \<not> constrained (Some (t, number t)) node then Some False else condition (en_cumulative_vote node))
      (en_descendents e)
    = Some (map_option (\<lambda>d. (d, node d)) (find (\<lambda>k. k \<in> containing E t \<and> voted k) (en_descendents e)))"
proof (rule next_descendent_find, rule ballI)
  fix k
  assume "k \<in> set (en_descendents e)"
  then have k: "k \<in> containing E a" using descendents_nodes(1) [OF e] by simp
  then show "E k = Some (node k) \<and> (if True \<and> \<not> constrained (Some (t, number t)) (node k) then Some False
      else condition (en_cumulative_vote (node k))) = Some (k \<in> containing E t \<and> voted k)"
    using containing_Some [OF k] entry_node [of k "node k"] has_block_containing [OF k, of t "number t"]
    by (simp add: constrained_fun)
qed

lemma find_ghost_from_edge:
  assumes t: "E t = None" "voted t" "descends par (vg_base g) t"
  obtains u where "find_ghost add g (Some (t, number t)) condition = Some (Some (u, number u))" "descends par t u" "top_block u"
proof -
  obtain a e where a: "E a = Some e" "containing E t \<subseteq> containing E a" "descends par a t"
    "ghost_start g (Some (t, number t)) = Some (a, True)" using edge_start [OF t] .
  have va: "condition (en_cumulative_vote e) = Some True" using entry_node [OF a(1)] voted_below [OF a(3) t(2)] by simp
  note loop = ghost_loop.simps [of E condition "Some (t, number t)" True a e, unfolded constrained_next [OF a(1)]]
  show thesis
  proof (cases "find (\<lambda>k. k \<in> containing E t \<and> voted k) (en_descendents e)")
    case None
    then have "\<forall>k\<in>containing E t. \<not> voted k" using descendents_nodes(1) [OF a(1)] a(2) by (auto simp: find_None_iff)
    then obtain sc u where "ghost_find_merge_point add g a e (Some (t, number t)) condition = Some sc"
      "subchain_best sc = Some (u, number u)" "descends par t u" "top_block u"
      using ghost_find_merge_point_constrained [OF a(1) t a(3,2)] by blast
    then show thesis using that a(1,4) va loop None by (simp add: find_ghost_def)
  next
    case (Some k)
    then have k: "k \<in> containing E t" "voted k" by (auto simp: find_Some_iff)
    obtain h' e' sc u where u: "ghost_loop E condition (Some (t, number t)) False k (node k) = Some (False, h', e')"
      "ghost_find_merge_point add g h' e' None condition = Some sc" "subchain_best sc = Some (u, number u)"
      "descends par k u" "top_block u" using ghost_tail [of k "node k"] containing_Some [OF k(1)] k(2) by blast
    have "descends par t u" using descends_trans [OF _ u(4)] containing_Some [OF k(1)] by blast
    then show thesis using that a(1,4) va loop Some u by (simp add: find_ghost_def)
  qed
qed

lemma find_ghost_current:
  assumes "voted t" "descends par (vg_base g) t"
  obtains u where "find_ghost add g (Some (t, number t)) condition = Some (Some (u, number u))" "descends par t u" "top_block u"
proof (cases "E t")
  case None
  then show thesis using find_ghost_from_edge [OF None assms] that by blast
next
  case (Some e)
  then have "ghost_start g (Some (t, number t)) = Some (t, False)"
    by (simp add: ghost_start_def find_containing_nodes_def)
  then show thesis using find_ghost_from_node [OF _ Some assms(1)] that by blast
qed

section \<open>find\_ancestor\<close>

text \<open>The blocks above a block that is off an edge are off the edge too.\<close>

lemma off_edge:
  assumes c: "c \<in> containing E h" and y: "par y = Some h" "c \<notin> containing E y" and p: "path par (last (y # ups)) (tl (rev (y # ups)))"
    and x: "x \<in> set (y # ups)"
  shows "c \<notin> containing E x"
proof
  assume cx: "c \<in> containing E x"
  have "descends par y x" using path_up_descends [OF p x] .
  then have "y \<in> set (en_ancestors (node c))"
    using path_between [OF linkedD(2) [OF invD(1)]] containing_Some [OF c] containing_Some [OF cx] parent_descends [OF y(1)] by metis
  then show False using y(2) containing_Some [OF c] by (auto simp: containing_def)
qed

definition exclusive :: bool where
  "exclusive \<longleftrightarrow> (\<forall>a b. voted a \<longrightarrow> voted b \<longrightarrow> descends par a b \<or> descends par b a)"

lemma exclusive_same_number: "exclusive \<Longrightarrow> voted a \<Longrightarrow> voted b \<Longrightarrow> number a = number b \<Longrightarrow> a = b"
  unfolding exclusive_def using descends_number by (metis order_less_irrefl)

text \<open>
  The merge loop seen from the edge of a node \<open>c\<close> that does not fulfill the condition: the highest
  block of the chain that is on the edge is the highest on the edge that fulfills it.
\<close>

lemma canonical_stop:
  assumes ks: "set ks = containing E h" and h: "descends par (vg_base g) h" and c: "c \<in> set ks" "\<not> voted c"
    and n: "\<And>y k. number y = number h + 1 \<Longrightarrow> k \<in> set ks \<inter> containing E y \<Longrightarrow> \<not> voted k \<Longrightarrow>
         \<not> P (\<Union>k\<in>set ks \<inter> containing E y. cast_above par cast k)"
    and y: "par y = Some h" "c \<in> containing E y"
  shows "\<not> voted y"
proof -
  have "E c = Some (node c)" "y \<in> set (en_ancestors (node c))" "h \<in> set (en_ancestors (node c))"
    using containing_Some y(2) c(1) ks by auto
  from edge_interior [OF invD(1) this child_number_less [OF y(1)]] have "E y = None" .
  then show ?thesis
    using n [OF number_child [OF y(1)], of c] c y(2) child_votes [OF ks y(1) _ h] by simp
qed

lemma merge_loop_canonical:
  assumes x: exclusive and c: "\<not> voted c"
    and "set ks = containing E h" "b + offset = number h + 1" "c \<in> set ks" "voted h" "descends par (vg_base g) h"
  shows "\<exists>ups u. merge_loop add condition b offset (map node ks) (number h) hashes
      = Some \<lparr>sc_hashes = hashes @ ups, sc_best_number = number (last (h # ups))\<rparr>
    \<and> path par (last (h # ups)) (tl (rev (h # ups)))
    \<and> find (\<lambda>x. c \<in> containing E x) (rev (h # ups)) = Some u \<and> voted u \<and> c \<in> containing E u
    \<and> (\<forall>y. par y = Some u \<longrightarrow> c \<in> containing E y \<longrightarrow> \<not> voted y)"
  using assms(3-7)
proof (induction "2 ^ 64 - unat (number h)" arbitrary: h ks offset hashes rule: less_induct)
  case less
  note ks = less.prems(1)
  from pass_spec [of ks h] ks consider (none) "merge_scan add condition (number h + 1) (map node ks) [] = Some None"
      "\<And>y k. number y = number h + 1 \<Longrightarrow> k \<in> set ks \<inter> containing E y \<Longrightarrow> \<not> voted k \<Longrightarrow>
         \<not> P (\<Union>k\<in>set ks \<inter> containing E y. cast_above par cast k)"
    | (block) y where "merge_scan add condition (number h + 1) (map node ks) [] = Some (Some y)"
      "par y = Some h" "E y = None" "P (\<Union>k\<in>set ks \<inter> containing E y. cast_above par cast k)" by (metis order_refl)
  then show ?case
  proof cases
    case none
    have "\<forall>y. par y = Some h \<longrightarrow> c \<in> containing E y \<longrightarrow> \<not> voted y"
    proof (intro allI impI)
      fix y
      assume "par y = Some h" "c \<in> containing E y"
      then show "\<not> voted y" by (rule canonical_stop [OF ks less.prems(5,3) c, rotated]) (erule (2) none(2))
    qed
    then show ?thesis
      using none(1) less.prems ks by (intro exI [of _ "[]"] exI [of _ h]) (simp add: merge_loop.simps)
  next
    case (block y)
    obtain ks' where ks': "merge_loop add condition b offset (map node ks) (number h) hashes
        = merge_loop add condition b (offset + 1) (map node ks') (number y) (hashes @ [y])"
      "set ks' = set ks \<inter> containing E y" "b + (offset + 1) = number y + 1"
      "2 ^ 64 - unat (number y) < (2 ^ 64 - unat (number h) :: nat)"
      using merge_loop_step [OF eq_refl [OF less.prems(1)] less.prems(2) block(1,2)] .
    have all: "set ks' = containing E y" using ks'(2) ks containing_parent [OF invD(1) block(3,2)] by blast
    have vy: "voted y" using block(4) child_votes [OF ks block(2,3) less.prems(5)] by simp
    show ?thesis
    proof (cases "c \<in> containing E y")
      case True
      have "descends par (vg_base g) y" using descends_trans [OF less.prems(5) parent_descends [OF block(2)]] .
      then obtain ups u where u: "merge_loop add condition b (offset + 1) (map node ks') (number y) (hashes @ [y])
          = Some \<lparr>sc_hashes = (hashes @ [y]) @ ups, sc_best_number = number (last (y # ups))\<rparr>"
        "path par (last (y # ups)) (tl (rev (y # ups)))"
        "find (\<lambda>x. c \<in> containing E x) (rev (y # ups)) = Some u" "voted u" "c \<in> containing E u"
        "\<forall>y. par y = Some u \<longrightarrow> c \<in> containing E y \<longrightarrow> \<not> voted y"
        using less.hyps [OF ks'(4) all ks'(3) _ vy, of "hashes @ [y]"] True all by blast
      have "find (\<lambda>x. c \<in> containing E x) (rev (h # y # ups)) = Some u"
        unfolding rev.simps(2) [of h "y # ups"] find_append u(3) by simp
      then show ?thesis
        using ks'(1) u up_path [OF u(2) block(2)] by (intro exI [of _ "y # ups"] exI [of _ u]) (simp del: rev.simps)
    next
      case False
      obtain ups where ups: "merge_loop add condition b (offset + 1) (map node ks') (number y) (hashes @ [y])
          = Some \<lparr>sc_hashes = (hashes @ [y]) @ ups, sc_best_number = number (last (y # ups))\<rparr>"
        "path par (last (y # ups)) (tl (rev (y # ups)))"
        using merge_loop_chain [OF eq_refl [OF all] ks'(3), of "hashes @ [y]"] by blast
      have none: "find (\<lambda>x. c \<in> containing E x) (rev (y # ups)) = None"
        unfolding find_None_iff set_rev using off_edge [OF _ block(2) False ups(2)] less.prems(3) ks by blast
      have "find (\<lambda>x. c \<in> containing E x) (rev (h # y # ups)) = Some h"
        unfolding rev.simps(2) [of h "y # ups"] find_append none using less.prems(3) ks by simp
      moreover have "\<not> voted z" if "par z = Some h" "c \<in> containing E z" for z
        using exclusive_same_number [OF x _ vy, of z] number_child [OF that(1)] number_child [OF block(2)] that(2) False by auto
      ultimately show ?thesis
        using ks'(1) ups up_path [OF ups(2) block(2)] less.prems(3,4) ks
        by (intro exI [of _ "y # ups"] exI [of _ h]) (simp del: rev.simps)
    qed
  qed
qed

text \<open>The backwards search from a node that does not fulfill the condition.\<close>

lemma back_loop_spec:
  assumes "E c = Some ec" "\<not> voted c" "ancestor_node ec = Some k"
  shows "back_loop E condition k ec = Some None \<and> \<not> voted (vg_base g)
    \<or> (\<exists>k' c'. back_loop E condition k ec = Some (Some (k', node k', node c')) \<and> E k' = Some (node k') \<and> E c' = Some (node c')
        \<and> ancestor_node (node c') = Some k' \<and> voted k' \<and> \<not> voted c' \<and> descends par c' c)"
  using assms
proof (induction "unat (number c)" arbitrary: c ec k rule: less_induct)
  case less
  obtain e where e: "E k = Some e" "descends par k c" using prev_entry [OF invD(1) less.prems(1,3)] .
  show ?case
  proof (cases "voted k")
    case True
    then have "back_loop E condition k ec = Some (Some (k, node k, node c))"
      using e(1) less.prems(1) entry_node [OF e(1)] by (subst back_loop.simps) simp
    then show ?thesis using True e(1) less.prems by (intro disjI2 exI [of _ k] exI [of _ c]) simp
  next
    case False
    show ?thesis
    proof (cases "ancestor_node e")
      case None
      then have "k = vg_base g" using linkedD(5) [OF invD(1) e(1)] by (auto simp: ancestor_node_None)
      then show ?thesis using False None e(1) entry_node [OF e(1)] by (subst back_loop.simps) simp
    next
      case (Some k2)
      have "number k < number c" using prev_number [OF invD(1) less.prems(1,3)] .
      moreover have "back_loop E condition k ec = back_loop E condition k2 e"
        using False Some e(1) entry_node [OF e(1)] by (subst back_loop.simps) simp
      ultimately show ?thesis
        using less.hyps [OF _ e(1) False Some] descends_trans [OF _ e(2)] by (auto simp: word_less_nat_alt)
    qed
  qed
qed

definition highest_below :: "'h \<Rightarrow> 'h \<Rightarrow> bool" where
  "highest_below x u \<longleftrightarrow> descends par u x \<and> voted u \<and> (\<forall>w. descends par w x \<longrightarrow> voted w \<longrightarrow> descends par w u)"

lemma highest_on_edge:
  assumes c: "\<not> voted c" "descends par c x" and u: "voted u" "c \<in> containing E u"
    and top: "\<forall>y. par y = Some u \<longrightarrow> c \<in> containing E y \<longrightarrow> \<not> voted y"
  shows "highest_below x u"
  unfolding highest_below_def
proof (intro conjI allI impI)
  have cu: "E c = Some (node c)" "u \<in> set (en_ancestors (node c))" "descends par u c" using containing_Some [OF u(2)] by auto
  have p: "path par c (en_ancestors (node c))" using linkedD(2) [OF invD(1) cu(1)] .
  show ux: "descends par u x" using descends_trans [OF cu(3) c(2)] .
  show "voted u" using u(1) .
  fix w
  assume w: "descends par w x" "voted w"
  show "descends par w u"
  proof (rule ccontr)
    assume nw: "\<not> descends par w u"
    then have uw: "descends par u w" "u \<noteq> w" using descends_linear [OF w(1) ux] by auto
    from descends_child [OF this] obtain y where y: "par y = Some u" "descends par y w" by blast
    have vy: "voted y" using voted_below [OF y(2) w(2)] .
    have "\<not> descends par c y" using voted_below [OF _ vy] c(1) by blast
    then have yc: "descends par y c" "y \<noteq> c"
      using descends_linear [OF descends_trans [OF y(2) w(1)] c(2)] by auto
    have n: "en_ancestors (node c) \<noteq> []" using cu(2) by auto
    have "y \<in> set (en_ancestors (node c))"
    proof (rule ccontr)
      assume "y \<notin> set (en_ancestors (node c))"
      then have "descends par y (last (en_ancestors (node c)))"
        using descends_path_cases [OF p n yc(1)] yc(2) by (auto dest: in_set_butlastD)
      then have "descends par y u" by (rule descends_trans [OF _ descends_path_last [OF p cu(2)]])
      then show False using descends_number [of y u] child_number_less [OF y(1)] by auto
    qed
    then have "c \<in> containing E y" using cu(1) by (auto simp: containing_def)
    then show False using top y(1) vy by blast
  qed
qed

lemma find_ancestor_node:
  assumes x: exclusive and h: "E h = Some e"
  shows "find_ancestor add g h (number h) condition = Some None \<and> \<not> voted (vg_base g)
    \<or> (\<exists>u. find_ancestor add g h (number h) condition = Some (Some (u, number u)) \<and> highest_below h u)"
proof (cases "voted h")
  case True
  then have "find_ancestor add g h (number h) condition = Some (Some (h, number h))" "highest_below h h"
    using h entry_node [OF h] by (simp_all add: find_ancestor_def find_containing_nodes_def highest_below_def)
  then show ?thesis by blast
next
  case nv: False
  show ?thesis
  proof (cases "ancestor_node e")
    case None
    then have "h = vg_base g" using linkedD(5) [OF invD(1) h] by (auto simp: ancestor_node_None)
    then show ?thesis
      using nv None h entry_node [OF h] by (simp add: find_ancestor_def find_containing_nodes_def)
  next
    case (Some k)
    have f: "find_ancestor add g h (number h) condition
        = (case back_loop E condition k e of
             None \<Rightarrow> None
           | Some None \<Rightarrow> Some None
           | Some (Some (node_key, active_node, canonical_node)) \<Rightarrow>
               map_option (\<lambda>sc. find (\<lambda>(h, n). has_block h n canonical_node) (blocks_reverse sc))
                 (ghost_find_merge_point add g node_key active_node None condition))"
      using nv Some h entry_node [OF h] by (simp add: find_ancestor_def find_containing_nodes_def)
    from back_loop_spec [OF h nv Some] show ?thesis
    proof (elim disjE exE conjE)
      fix k' c'
      assume b: "back_loop E condition k e = Some (Some (k', node k', node c'))" and k': "E k' = Some (node k')" "voted k'"
        and c': "E c' = Some (node c')" "ancestor_node (node c') = Some k'" "\<not> voted c'" "descends par c' h"
      note d = descendents_nodes [OF k'(1)]
      have "c' \<in> containing E k'" using c'(1,2) by (auto simp: containing_def ancestor_node_Some)
      then obtain ups u where u: "merge_loop add condition (number k') 1 (map node (en_descendents (node k'))) (number k') [k']
          = Some \<lparr>sc_hashes = [k'] @ ups, sc_best_number = number (last (k' # ups))\<rparr>"
        "path par (last (k' # ups)) (tl (rev (k' # ups)))"
        "find (\<lambda>x. c' \<in> containing E x) (rev (k' # ups)) = Some u" "voted u" "c' \<in> containing E u"
        "\<forall>y. par y = Some u \<longrightarrow> c' \<in> containing E y \<longrightarrow> \<not> voted y"
        using merge_loop_canonical [OF x c'(3) d(1) refl _ k'(2) entry_above_base [OF invD(1) k'(1)], of "[k']"] d(1) by auto
      have "ghost_find_merge_point add g k' (node k') None condition
          = Some \<lparr>sc_hashes = k' # ups, sc_best_number = number (last (k' # ups))\<rparr>"
        using u(1) d(2) linkedD(1) [OF invD(1) k'(1)] by (simp add: ghost_find_merge_point_def constrained_fun)
      moreover have "find (\<lambda>(h, n). has_block h n (node c'))
          (blocks_reverse \<lparr>sc_hashes = k' # ups, sc_best_number = number (last (k' # ups))\<rparr>) = Some (u, number u)"
        unfolding blocks_reverse_chain [OF u(2)] find_on_edge [OF c'(1)] u(3) by simp
      ultimately have "find_ancestor add g h (number h) condition = Some (Some (u, number u))"
        using f b by simp
      then show ?thesis using highest_on_edge [OF c'(3,4) u(4-6)] by blast
    qed (use f in simp)
  qed
qed

end

end
