(* ===== verification/Round_Weights.thy ===== *)
theory Round_Weights
  imports Grandpa_Round Vote_Graph_Search
begin

text \<open>
  The vote weights of a round as vote values of the graph: merging bitfields of one size never
  fails and is union. The closures that a round hands to the graph are monotone conditions
  on the set of votes, stated with natural numbers; no sum of weights wraps around.
\<close>

section \<open>Bitfields as vote values\<close>

definition field_ok :: "nat \<Rightarrow> Bitfield \<Rightarrow> bool" where
  "field_ok n b \<longleftrightarrow> (\<forall>bits. b = Live bits \<longrightarrow> length bits = length (with_voters n))"

abbreviation weight_ok :: "nat \<Rightarrow> VoteWeight \<Rightarrow> bool" where "weight_ok n v \<equiv> field_ok n (vw_bitfield v)"
abbreviation weight_votes :: "VoteWeight \<Rightarrow> nat set" where "weight_votes v \<equiv> bf_set (vw_bitfield v)"

lemma merge_ok:
  assumes "field_ok n a" "field_ok n b"
  shows "\<exists>c. bitfield_merge a b = Inr c \<and> field_ok n c \<and> bf_set c = bf_set a \<union> bf_set b"
proof -
  obtain c where c: "bitfield_merge a b = Inr c" "field_ok n c"
    using assms by (cases a; cases b) (auto simp: field_ok_def)
  then show ?thesis using bf_set_merge by blast
qed

lemma field_ok_Blank [simp]: "field_ok n Blank"
  by (simp add: field_ok_def)

interpretation vote_weight: vote_values vote_weight_add vote_weight_default "weight_ok n" weight_votes for n
proof
  fix a b :: VoteWeight
  assume "weight_ok n a" "weight_ok n b"
  from merge_ok [OF this] obtain c where "bitfield_merge (vw_bitfield a) (vw_bitfield b) = Inr c" "field_ok n c"
    "bf_set c = weight_votes a \<union> weight_votes b" by blast
  then show "\<exists>c. vote_weight_add a b = Some c \<and> weight_ok n c \<and> weight_votes c = weight_votes a \<union> weight_votes b"
    by (simp add: vote_weight_add_def)
qed (simp_all add: vote_weight_default_def)

section \<open>Weights of sets of voters\<close>

definition index_weight :: "'i VoterSet \<Rightarrow> nat set \<Rightarrow> nat" where
  "index_weight vs S = (\<Sum>i | i < voters_len vs \<and> i \<in> S. unat (snd (vs_voters vs ! i)))"

definition voters_ok :: "'i VoterSet \<Rightarrow> bool" where
  "voters_ok vs \<longleftrightarrow> (\<exists>xs. vs = voter_set_from_iter xs \<and> distinct (map fst xs)
     \<and> 0 < sum_list (map (unat \<circ> snd) xs) \<and> sum_list (map (unat \<circ> snd) xs) < 2 ^ 64)"

lemma index_weight_mono: "A \<subseteq> B \<Longrightarrow> index_weight vs A \<le> index_weight vs B"
  unfolding index_weight_def by (rule sum_mono2) auto

lemma index_weight_union: "index_weight vs (A \<union> B) \<le> index_weight vs A + index_weight vs B"
proof -
  have "{i. i < voters_len vs \<and> i \<in> A \<union> B} = {i. i < voters_len vs \<and> i \<in> A} \<union> {i. i < voters_len vs \<and> i \<in> B}" by auto
  then show ?thesis unfolding index_weight_def by (simp add: sum_Un_nat)
qed

lemma index_weight_disjoint:
  "A \<inter> B = {} \<Longrightarrow> index_weight vs (A \<union> B) = index_weight vs A + index_weight vs B"
proof -
  assume "A \<inter> B = {}"
  moreover have "{i. i < voters_len vs \<and> i \<in> A \<union> B} = {i. i < voters_len vs \<and> i \<in> A} \<union> {i. i < voters_len vs \<and> i \<in> B}" by auto
  ultimately show ?thesis unfolding index_weight_def by (auto intro: sum.union_disjoint)
qed

lemma voters_ok_total:
  assumes "voters_ok vs"
  shows "index_weight vs UNIV = unat (voters_total_weight vs)" "vs_threshold vs = threshold (voters_total_weight vs)"
    "0 < unat (voters_total_weight vs)"
proof -
  obtain xs where xs: "vs = voter_set_from_iter xs" "0 < sum_list (map (unat \<circ> snd) xs)"
    "sum_list (map (unat \<circ> snd) xs) < 2 ^ 64" using assms by (auto simp: voters_ok_def)
  have t: "voters_total_weight vs = sum_list (map snd xs)" by (simp add: xs(1) voters_total_weight_def from_iter_spec(1))
  have u: "unat (voters_total_weight vs) = sum_list (map (unat \<circ> snd) xs)"
    unfolding t using unat_sum_list [of "map snd xs"] xs(3) by simp
  have "index_weight vs UNIV = (\<Sum>i<length xs. unat (snd (xs ! i)))"
    by (simp add: index_weight_def xs(1) voters_len_def from_iter_spec(1) lessThan_def)
  also have "\<dots> = sum_list (map (unat \<circ> snd) xs)" by (simp add: sum_list_sum_nth lessThan_atLeast0)
  finally show "index_weight vs UNIV = unat (voters_total_weight vs)" using u by simp
  show "vs_threshold vs = threshold (voters_total_weight vs)" unfolding t by (simp add: xs(1) from_iter_spec(2))
  show "0 < unat (voters_total_weight vs)" using u xs(2) by simp
qed

lemma index_weight_le_total: "voters_ok vs \<Longrightarrow> index_weight vs A \<le> unat (voters_total_weight vs)"
  using index_weight_mono [of A UNIV vs] voters_ok_total(1) [of vs] by simp

lemma unat_sum_words:
  fixes w :: "'i \<Rightarrow> 'w::len word"
  shows "finite S \<Longrightarrow> (\<Sum>i\<in>S. unat (w i)) < 2 ^ LENGTH('w) \<Longrightarrow> unat (\<Sum>i\<in>S. w i) = (\<Sum>i\<in>S. unat (w i))"
proof (induction S rule: finite_induct)
  case (insert x S)
  then have "unat (\<Sum>i\<in>S. w i) = (\<Sum>i\<in>S. unat (w i))" by simp
  moreover from this insert.prems insert.hyps have "unat (w x) + unat (\<Sum>i\<in>S. w i) < 2 ^ LENGTH('w)" by simp
  ultimately show ?case using insert.hyps by simp
qed simp

lemma unat_sum_lookup:
  assumes "voters_ok vs" "finite S"
  shows "unat (\<Sum>i\<in>S. lookup_weight vs i) = index_weight vs S"
proof -
  have "(\<Sum>i\<in>S. unat (lookup_weight vs i)) = (\<Sum>i | i \<in> S \<and> i < voters_len vs. unat (lookup_weight vs i))"
    using assms(2) by (intro sum.mono_neutral_right) (auto simp: lookup_weight_def weight_by_index_def voters_len_def)
  also have "\<dots> = index_weight vs S"
    unfolding index_weight_def by (intro sum.cong) (auto simp: lookup_weight_def weight_by_index_def voters_len_def)
  finally have s: "(\<Sum>i\<in>S. unat (lookup_weight vs i)) = index_weight vs S" .
  have "index_weight vs S < 2 ^ 64"
    using index_weight_le_total [OF assms(1), of S] unsigned_less [of "voters_total_weight vs", where ?'a = nat] by simp
  then show ?thesis using unat_sum_words [OF assms(2), of "lookup_weight vs"] s by simp
qed

section \<open>The conditions of a round\<close>

definition prevoting :: "nat set \<Rightarrow> nat set" where "prevoting A = {i. 2 * i \<in> A}"
definition precommitting :: "nat set \<Rightarrow> nat set" where "precommitting A = {i. 2 * i + 1 \<in> A}"

lemma voting_mono: "A \<subseteq> B \<Longrightarrow> prevoting A \<subseteq> prevoting B" "A \<subseteq> B \<Longrightarrow> precommitting A \<subseteq> precommitting B"
  by (auto simp: prevoting_def precommitting_def)

lemma voting_Un: "prevoting (A \<union> B) = prevoting A \<union> prevoting B" "precommitting (A \<union> B) = precommitting A \<union> precommitting B"
  by (auto simp: prevoting_def precommitting_def)

lemma vote_total_weight_spec:
  assumes "voters_ok vs" "weight_ok n v" "field_ok n eq"
  shows "\<exists>w. vote_total_weight v eq vs = Some w
    \<and> unat (tw_prevote w) = index_weight vs (prevoting (weight_votes v \<union> bf_set eq))
    \<and> unat (tw_precommit w) = index_weight vs (precommitting (weight_votes v \<union> bf_set eq))"
proof -
  obtain c where c: "bitfield_merge (vw_bitfield v) eq = Inr c" "bf_set c = weight_votes v \<union> bf_set eq"
    using merge_ok [OF assms(2,3)] by blast
  have "prevoters c = prevoting (bf_set c)" "precommitters c = precommitting (bf_set c)"
    by (auto simp: prevoters_def precommitters_def prevoting_def precommitting_def)
  then show ?thesis
    using c unat_sum_lookup [OF assms(1) finite_voters(1) [of c]] unat_sum_lookup [OF assms(1) finite_voters(2) [of c]]
    by (simp add: vote_total_weight_def total_weight_sets)
qed

text \<open>A supermajority of prevotes or precommits; the equivocators count for every block.\<close>

definition prevote_quorum :: "'i VoterSet \<Rightarrow> nat set \<Rightarrow> nat set \<Rightarrow> bool" where
  "prevote_quorum vs eq A \<longleftrightarrow> unat (vs_threshold vs) \<le> index_weight vs (prevoting (A \<union> eq))"

definition precommit_quorum :: "'i VoterSet \<Rightarrow> nat set \<Rightarrow> nat set \<Rightarrow> bool" where
  "precommit_quorum vs eq A \<longleftrightarrow> unat (vs_threshold vs) \<le> index_weight vs (precommitting (A \<union> eq))"

lemma quorum_mono:
  "A \<subseteq> B \<Longrightarrow> prevote_quorum vs eq A \<Longrightarrow> prevote_quorum vs eq B"
  "A \<subseteq> B \<Longrightarrow> precommit_quorum vs eq A \<Longrightarrow> precommit_quorum vs eq B"
  unfolding prevote_quorum_def precommit_quorum_def
  by (meson Un_mono order_refl order_trans index_weight_mono voting_mono)+

lemma supermajority_spec:
  assumes "voters_ok (rd_voters r)" "weight_ok n v" "field_ok n (sh_equivocators (rd_bitfield_context r))"
  shows "prevote_supermajority r v
      = Some (prevote_quorum (rd_voters r) (bf_set (sh_equivocators (rd_bitfield_context r))) (weight_votes v))"
    and "precommit_supermajority r v
      = Some (precommit_quorum (rd_voters r) (bf_set (sh_equivocators (rd_bitfield_context r))) (weight_votes v))"
  using vote_total_weight_spec [OF assms]
  by (auto simp: prevote_supermajority_def precommit_supermajority_def prevote_quorum_def precommit_quorum_def
      round_threshold_def word_le_nat_alt)

text \<open>Whether a block can still get a supermajority, as a function of the weight that precommitted for it.\<close>

definition reachable_weight :: "nat \<Rightarrow> nat \<Rightarrow> nat \<Rightarrow> nat \<Rightarrow> nat" where
  "reachable_weight remaining current additional w =
     min (min (w + remaining) (2 ^ 64 - 1) + min (current - w) additional) (2 ^ 64 - 1)"

lemma reachable_weight_mono: "w \<le> w' \<Longrightarrow> reachable_weight rem cur add w \<le> reachable_weight rem cur add w'"
  unfolding reachable_weight_def by linarith

definition possible_quorum :: "('i, 'h, 's) Round \<Rightarrow> nat set \<Rightarrow> bool" where
  "possible_quorum r A \<longleftrightarrow>
     (let eq = bf_set (sh_equivocators (rd_bitfield_context r)); vs = rd_voters r
      in unat (vs_threshold vs) \<le> reachable_weight
           (unat (rd_total_weight r - vt_current_weight (rd_precommit r)))
           (unat (vt_current_weight (rd_precommit r)))
           (unat (rd_total_weight r - vs_threshold vs) - index_weight vs (precommitting eq))
           (index_weight vs (precommitting (A \<union> eq))))"

lemma possible_quorum_mono: "A \<subseteq> B \<Longrightarrow> possible_quorum r A \<Longrightarrow> possible_quorum r B"
  unfolding possible_quorum_def Let_def
  by (meson Un_mono order_refl order_trans index_weight_mono voting_mono(2) reachable_weight_mono)

lemma possible_to_precommit_spec:
  assumes ok: "voters_ok (rd_voters r)" "weight_ok n v" "field_ok n (sh_equivocators (rd_bitfield_context r))"
  shows "possible_to_precommit r v = Some (possible_quorum r (weight_votes v))"
proof -
  let ?eq = "sh_equivocators (rd_bitfield_context r)" and ?vs = "rd_voters r"
  obtain w where w: "vote_total_weight v ?eq ?vs = Some w"
    "unat (tw_precommit w) = index_weight ?vs (precommitting (weight_votes v \<union> bf_set ?eq))"
    using vote_total_weight_spec [OF ok] by blast
  have e: "unat (snd (bitfield_total_weight (lookup_weight ?vs) ?eq)) = index_weight ?vs (precommitting (bf_set ?eq))"
    using unat_sum_lookup [OF ok(1) finite_voters(2) [of ?eq]]
    by (simp add: total_weight_sets) (simp add: precommitters_def precommitting_def)
  have m: "unat (min a b) = min (unat a) (unat b)" for a b :: u64 by (simp add: min_def word_le_nat_alt)
  show ?thesis
    by (simp add: possible_to_precommit_def possible_quorum_def Let_def w e m reachable_weight_def round_threshold_def
        word_le_nat_alt unat_saturating_add unat_saturating_sub)
qed

end
