(* ===== verification/Round_Invariant.thy ===== *)
theory Round_Invariant
  imports Round_Weights
begin

text \<open>
  The invariant of a round of the finality gadget. The votes in the graph are the first votes of
  the tracked voters on blocks above the base, the equivocators' bitfield marks exactly
  the voters with two votes, and the tracked weight is the weight of the tracked voters. Every
  import keeps the invariant and returns: no \<open>expect\<close> of the source fails.
\<close>

section \<open>What trackers contribute\<close>

fun first_vote :: "('v, 's) VoteMultiplicity \<Rightarrow> 'v" where
  "first_vote (Single v s) = v"
| "first_vote (Equivocated a b) = fst a"

definition voter_index :: "'i VoterSet \<Rightarrow> 'i \<Rightarrow> nat" where
  "voter_index vs i = canon_idx (the (voter_info vs i))"

definition vote_bits ::
  "nat \<Rightarrow> ('v \<Rightarrow> 'h) \<Rightarrow> 'i VoterSet \<Rightarrow> ('i \<times> ('v, 's) VoteMultiplicity) list \<Rightarrow> 'h \<Rightarrow> nat set" where
  "vote_bits k target vs votes t =
     {2 * voter_index vs i + k |i. \<exists>m. map_of votes i = Some m \<and> target (first_vote m) = t}"

definition equivocator_bits :: "nat \<Rightarrow> 'i VoterSet \<Rightarrow> ('i \<times> ('v, 's) VoteMultiplicity) list \<Rightarrow> nat set" where
  "equivocator_bits k vs votes = {2 * voter_index vs i + k |i. \<exists>a b. map_of votes i = Some (Equivocated a b)}"

definition tracker_ok :: "'i VoterSet \<Rightarrow> ('i, 'v, 's) VoteTracker \<Rightarrow> bool" where
  "tracker_ok vs t \<longleftrightarrow> distinct (map fst (vt_votes t)) \<and> (\<forall>i\<in>fst ` set (vt_votes t). voter_info vs i \<noteq> None)
     \<and> unat (vt_current_weight t) = index_weight vs (voter_index vs ` fst ` set (vt_votes t))
     \<and> (\<forall>i a b. map_of (vt_votes t) i = Some (Equivocated a b) \<longrightarrow> a \<noteq> b)"

lemma add_vote_cases:
  obtains (new) "map_of (vt_votes t) i = None"
      "add_vote i v s w t = (Some (Single v s), t\<lparr>vt_current_weight := vt_current_weight t + w,
         vt_votes := vt_votes t @ [(i, Single v s)]\<rparr>)"
  | (equivocation) v' s' where "map_of (vt_votes t) i = Some (Single v' s')" "(v', s') \<noteq> (v, s)"
      "add_vote i v s w t = (Some (Equivocated (v', s') (v, s)),
         t\<lparr>vt_votes := AList.update i (Equivocated (v', s') (v, s)) (vt_votes t)\<rparr>)"
  | (known) m where "map_of (vt_votes t) i = Some m" "add_vote i v s w t = (None, t)"
      "multiplicity_contains m v s \<or> (\<exists>a b. m = Equivocated a b)"
proof (cases "map_of (vt_votes t) i")
  case None
  then show thesis using new by (simp add: add_vote_def)
next
  case (Some m)
  show thesis
  proof (cases m)
    case (Single v' s')
    then show thesis
      using equivocation known Some by (cases "v' = v \<and> s' = s") (auto simp: add_vote_def Let_def)
  next
    case (Equivocated a b)
    then show thesis using known [OF Some] Some by (auto simp: add_vote_def)
  qed
qed

lemma map_of_snoc: "map_of xs i = None \<Longrightarrow> map_of (xs @ [(i, m)]) = (map_of xs)(i \<mapsto> m)"
  by (auto simp: map_of_append map_add_def fun_eq_iff split: option.splits)

lemma vote_bits_upd:
  assumes "map_of votes' = (map_of votes)(i \<mapsto> m)"
    and "map_of votes i = None \<or> map_option (target \<circ> first_vote) (map_of votes i) = Some (target (first_vote m))"
  shows "vote_bits k target vs votes' t
     = vote_bits k target vs votes t \<union> (if t = target (first_vote m) then {2 * voter_index vs i + k} else {})"
proof -
  have "(\<exists>m'. map_of votes' j = Some m' \<and> target (first_vote m') = t) \<longleftrightarrow>
      (\<exists>m'. map_of votes j = Some m' \<and> target (first_vote m') = t) \<or> j = i \<and> t = target (first_vote m)" for j
    using assms by (cases "j = i") auto
  then show ?thesis unfolding vote_bits_def by auto
qed

lemma vote_bits_new:
  "map_of votes i = None \<Longrightarrow> vote_bits k target vs (votes @ [(i, Single v s)]) t
     = vote_bits k target vs votes t \<union> (if t = target v then {2 * voter_index vs i + k} else {})"
  by (subst vote_bits_upd [where m = "Single v s", OF map_of_snoc]) simp_all

lemma vote_bits_equivocation:
  assumes "map_of votes i = Some (Single v s)"
  shows "vote_bits k target vs (AList.update i (Equivocated (v, s) b) votes) t = vote_bits k target vs votes t"
proof -
  have "2 * voter_index vs i + k \<in> vote_bits k target vs votes (target v)" using assms by (auto simp: vote_bits_def)
  then show ?thesis
    using vote_bits_upd [of "AList.update i (Equivocated (v, s) b) votes" votes i "Equivocated (v, s) b" target k vs t] assms
    by (auto simp: AList.update_conv')
qed

lemma equivocator_bits_new:
  assumes "map_of votes i = None"
  shows "equivocator_bits k vs (votes @ [(i, Single v s)]) = equivocator_bits k vs votes"
proof -
  have "(\<exists>a b. map_of (votes @ [(i, Single v s)]) j = Some (Equivocated a b)) \<longleftrightarrow> (\<exists>a b. map_of votes j = Some (Equivocated a b))" for j
    using assms by (cases "j = i") (auto simp: map_of_snoc [OF assms])
  then show ?thesis unfolding equivocator_bits_def by simp
qed

lemma equivocator_bits_equivocation:
  "equivocator_bits k vs (AList.update i (Equivocated a b) votes) = insert (2 * voter_index vs i + k) (equivocator_bits k vs votes)"
proof -
  have "(\<exists>c d. map_of (AList.update i (Equivocated a b) votes) j = Some (Equivocated c d)) \<longleftrightarrow>
      j = i \<or> (\<exists>c d. map_of votes j = Some (Equivocated c d))" for j
    by (auto simp: AList.update_conv')
  then show ?thesis unfolding equivocator_bits_def by auto
qed

section \<open>Voter indices\<close>

lemma voters_ok_info:
  assumes "voters_ok vs" "voter_info vs i = Some info"
  shows "canon_idx info < voters_len vs" "vs_voters vs ! canon_idx info = (i, vi_weight info)"
proof -
  obtain xs where xs: "vs = voter_set_from_iter xs" "distinct (map fst xs)" using assms(1) by (auto simp: voters_ok_def)
  have "i \<in> fst ` set xs" using assms(2) from_iter_spec(4) [of i xs] xs(1) by auto
  then obtain j where j: "j < length xs" "i = fst (xs ! j)" by (auto simp: in_set_conv_nth)
  then have "info = \<lparr>canon_idx = j, vi_weight = snd (xs ! j)\<rparr>" using from_iter_spec(3) [OF xs(2) j(1)] assms(2) xs(1) by simp
  then show "canon_idx info < voters_len vs" "vs_voters vs ! canon_idx info = (i, vi_weight info)"
    using j xs(1) by (simp_all add: voters_len_def from_iter_spec(1))
qed

lemma voter_index_inj:
  assumes "voters_ok vs" "voter_info vs i \<noteq> None" "voter_info vs j \<noteq> None" "voter_index vs i = voter_index vs j"
  shows "i = j"
proof -
  obtain a b where "voter_info vs i = Some a" "voter_info vs j = Some b" using assms(2,3) by blast
  then show ?thesis using assms(4) voters_ok_info(2) [OF assms(1), of i a] voters_ok_info(2) [OF assms(1), of j b]
    by (simp add: voter_index_def)
qed

lemma index_weight_insert:
  assumes "voters_ok vs" "voter_info vs i = Some info" "voter_index vs i \<notin> S"
  shows "index_weight vs (insert (voter_index vs i) S) = unat (vi_weight info) + index_weight vs S"
proof -
  have "index_weight vs {voter_index vs i} = unat (vi_weight info)"
    using voters_ok_info [OF assms(1,2)] assms(2)
    by (simp add: index_weight_def voter_index_def conj_commute [of "_ < _"] cong: conj_cong)
  then show ?thesis using index_weight_disjoint [of "{voter_index vs i}" S vs] assms(3) by simp
qed

lemma tracker_ok_new:
  assumes vs: "voters_ok vs" and t: "tracker_ok vs t" and i: "voter_info vs i = Some info" "map_of (vt_votes t) i = None"
  shows "tracker_ok vs (t\<lparr>vt_current_weight := vt_current_weight t + vi_weight info, vt_votes := vt_votes t @ [(i, Single v s)]\<rparr>)"
proof -
  have fresh: "i \<notin> fst ` set (vt_votes t)" using i(2) by (simp add: map_of_eq_None_iff)
  have "voter_index vs i \<notin> voter_index vs ` fst ` set (vt_votes t)"
  proof
    assume "voter_index vs i \<in> voter_index vs ` fst ` set (vt_votes t)"
    then obtain j where j: "j \<in> fst ` set (vt_votes t)" "voter_index vs i = voter_index vs j" by blast
    then have "voter_info vs j \<noteq> None" using t by (auto simp: tracker_ok_def)
    then have "i = j" using voter_index_inj [OF vs, of i j] i(1) j(2) by simp
    then show False using j(1) fresh by simp
  qed
  from index_weight_insert [OF vs i(1) this] have w: "index_weight vs (voter_index vs ` fst ` set (vt_votes t @ [(i, Single v s)]))
      = unat (vi_weight info) + unat (vt_current_weight t)" using t by (simp add: tracker_ok_def)
  moreover have "index_weight vs (voter_index vs ` fst ` set (vt_votes t @ [(i, Single v s)])) < 2 ^ 64"
    using index_weight_le_total [OF vs, of "voter_index vs ` fst ` set (vt_votes t @ [(i, Single v s)])"]
      unsigned_less [of "voters_total_weight vs", where ?'a = nat] by simp
  ultimately have "unat (vt_current_weight t) + unat (vi_weight info) < 2 ^ LENGTH(64)" by simp
  then have sum: "unat (vt_current_weight t + vi_weight info) = unat (vt_current_weight t) + unat (vi_weight info)"
    by (simp only: unat_add_lem)
  then show ?thesis using t w i(1) fresh unfolding tracker_ok_def by (simp add: map_of_snoc [OF i(2)] del: map_of_append)
qed

lemma tracker_ok_equivocation:
  assumes "tracker_ok vs t" "map_of (vt_votes t) i \<noteq> None" "\<forall>a b. m = Equivocated a b \<longrightarrow> a \<noteq> b"
  shows "tracker_ok vs (t\<lparr>vt_votes := AList.update i m (vt_votes t)\<rparr>)"
proof -
  have "fst ` set (AList.update i m (vt_votes t)) = fst ` set (vt_votes t)"
    using assms(2) by (auto simp: dom_map_of_conv_image_fst [symmetric] AList.update_conv')
  then show ?thesis using assms(1,3) by (simp add: tracker_ok_def distinct_update AList.update_conv')
qed

end
