(* ===== verification/Round_Imports.thy ===== *)
theory Round_Imports
  imports Round_Invariant
begin

text \<open>
  The invariant of a round is kept by every import, and every import returns: no \<open>expect\<close> of
  the source fails and every loop of the graph searches ends. The only error an import
  reports is that of a vote on a block that is not above the base of the round.
\<close>

section \<open>The invariant\<close>

abbreviation round_equivocators :: "('i, 'h, 's) Round \<Rightarrow> nat set" where
  "round_equivocators r \<equiv> bf_set (sh_equivocators (rd_bitfield_context r))"

abbreviation round_base :: "('i, 'h, 's) Round \<Rightarrow> 'h" where
  "round_base r \<equiv> vg_base (rd_graph r)"

text \<open>The votes the round counts for a block directly: the first votes cast on it, when it is above the base.\<close>

definition round_votes ::
  "'i VoterSet \<Rightarrow> ('i, 'h Prevote, 's) VoteTracker \<Rightarrow> ('i, 'h Precommit, 's) VoteTracker \<Rightarrow> 'h \<Rightarrow> nat set" where
  "round_votes vs pv pc t = vote_bits 0 pv_target_hash vs (vt_votes pv) t \<union> vote_bits 1 pc_target_hash vs (vt_votes pc) t"

definition round_cast :: "('h \<rightharpoonup> 'h) \<Rightarrow> ('i, 'h, 's) Round \<Rightarrow> 'h \<Rightarrow> nat set" where
  "round_cast par r t =
     (if descends par (round_base r) t
      then round_votes (rd_voters r) (rd_prevote r) (rd_precommit r) t else {})"

abbreviation votes_for :: "('h \<rightharpoonup> 'h) \<Rightarrow> ('i, 'h, 's) Round \<Rightarrow> 'h \<Rightarrow> nat set" where
  "votes_for par r h \<equiv> cast_above par (round_cast par r) h"

definition round_core :: "('h \<rightharpoonup> 'h) \<Rightarrow> ('h \<Rightarrow> u64) \<Rightarrow> ('i, 'h, 's) Round \<Rightarrow> bool" where
  "round_core par number r \<longleftrightarrow>
     voters_ok (rd_voters r) \<and> rd_total_weight r = voters_total_weight (rd_voters r)
     \<and> sh_n_voters (rd_bitfield_context r) = voters_len (rd_voters r)
     \<and> field_ok (voters_len (rd_voters r)) (sh_equivocators (rd_bitfield_context r))
     \<and> round_equivocators r = equivocator_bits 0 (rd_voters r) (vt_votes (rd_prevote r))
         \<union> equivocator_bits 1 (rd_voters r) (vt_votes (rd_precommit r))
     \<and> tracker_ok (rd_voters r) (rd_prevote r) \<and> tracker_ok (rd_voters r) (rd_precommit r)
     \<and> graph_inv par number (weight_ok (voters_len (rd_voters r))) weight_votes (round_cast par r) (rd_graph r)"

definition marked ::
  "('h \<rightharpoonup> 'h) \<Rightarrow> ('h \<Rightarrow> u64) \<Rightarrow> ('i, 'h, 's) Round \<Rightarrow> (nat set \<Rightarrow> bool) \<Rightarrow> ('h \<times> u64) option \<Rightarrow> bool" where
  "marked par number r P x \<longleftrightarrow>
     (\<forall>h n. x = Some (h, n) \<longrightarrow> n = number h \<and> descends par (round_base r) h \<and> P (votes_for par r h))"

abbreviation prevoted :: "('i, 'h, 's) Round \<Rightarrow> nat set \<Rightarrow> bool" where
  "prevoted r \<equiv> prevote_quorum (rd_voters r) (round_equivocators r)"
abbreviation precommitted :: "('i, 'h, 's) Round \<Rightarrow> nat set \<Rightarrow> bool" where
  "precommitted r \<equiv> precommit_quorum (rd_voters r) (round_equivocators r)"

definition round_inv :: "('h \<rightharpoonup> 'h) \<Rightarrow> ('h \<Rightarrow> u64) \<Rightarrow> ('i, 'h, 's) Round \<Rightarrow> bool" where
  "round_inv par number r \<longleftrightarrow> round_core par number r
     \<and> marked par number r (prevoted r) (rd_prevote_ghost r)
     \<and> marked par number r (precommitted r) (rd_precommit_ghost r)
     \<and> marked par number r (precommitted r) (rd_finalized r)
     \<and> marked par number r (\<lambda>_. True) (rd_estimate r)"

lemma round_coreD:
  assumes "round_core par number r"
  shows "voters_ok (rd_voters r)" "rd_total_weight r = voters_total_weight (rd_voters r)"
    "sh_n_voters (rd_bitfield_context r) = voters_len (rd_voters r)"
    "field_ok (voters_len (rd_voters r)) (sh_equivocators (rd_bitfield_context r))"
    "round_equivocators r = equivocator_bits 0 (rd_voters r) (vt_votes (rd_prevote r))
         \<union> equivocator_bits 1 (rd_voters r) (vt_votes (rd_precommit r))"
    "tracker_ok (rd_voters r) (rd_prevote r)" "tracker_ok (rd_voters r) (rd_precommit r)"
    "graph_inv par number (weight_ok (voters_len (rd_voters r))) weight_votes (round_cast par r) (rd_graph r)"
  using assms by (simp_all add: round_core_def)

text \<open>The fields that hold results do not matter for the core of the invariant.\<close>

lemma round_cast_results [simp]:
  "round_cast par (r\<lparr>rd_prevote_ghost := a\<rparr>) = round_cast par r"
  "round_cast par (r\<lparr>rd_precommit_ghost := a\<rparr>) = round_cast par r"
  "round_cast par (r\<lparr>rd_finalized := a\<rparr>) = round_cast par r"
  "round_cast par (r\<lparr>rd_estimate := a\<rparr>) = round_cast par r"
  "round_cast par (r\<lparr>rd_completable := c\<rparr>) = round_cast par r"
  by (simp_all add: fun_eq_iff round_cast_def)

lemma round_core_results [simp]:
  "round_core par number (r\<lparr>rd_prevote_ghost := a\<rparr>) = round_core par number r"
  "round_core par number (r\<lparr>rd_precommit_ghost := a\<rparr>) = round_core par number r"
  "round_core par number (r\<lparr>rd_finalized := a\<rparr>) = round_core par number r"
  "round_core par number (r\<lparr>rd_estimate := a\<rparr>) = round_core par number r"
  "round_core par number (r\<lparr>rd_completable := c\<rparr>) = round_core par number r"
  by (simp_all add: round_core_def)

lemma marked_results [simp]:
  "marked par number (r\<lparr>rd_prevote_ghost := a\<rparr>) = marked par number r"
  "marked par number (r\<lparr>rd_precommit_ghost := a\<rparr>) = marked par number r"
  "marked par number (r\<lparr>rd_finalized := a\<rparr>) = marked par number r"
  "marked par number (r\<lparr>rd_estimate := a\<rparr>) = marked par number r"
  "marked par number (r\<lparr>rd_completable := c\<rparr>) = marked par number r"
  by (simp_all add: fun_eq_iff marked_def)

text \<open>More votes and more equivocators keep what has been found.\<close>

lemma marked_mono:
  assumes "marked par number r P x" and "round_base r' = round_base r"
    and "\<And>t. round_cast par r t \<subseteq> round_cast par r' t" and "\<And>A B. A \<subseteq> B \<Longrightarrow> P A \<Longrightarrow> P' B"
  shows "marked par number r' P' x"
proof -
  have "votes_for par r h \<subseteq> votes_for par r' h" for h using assms(3) by (auto simp: cast_above_def)
  then show ?thesis using assms(1,2,4) unfolding marked_def by metis
qed

lemma quorum_equivocators:
  "eq \<subseteq> eq' \<Longrightarrow> A \<subseteq> B \<Longrightarrow> prevote_quorum vs eq A \<Longrightarrow> prevote_quorum vs eq' B"
  "eq \<subseteq> eq' \<Longrightarrow> A \<subseteq> B \<Longrightarrow> precommit_quorum vs eq A \<Longrightarrow> precommit_quorum vs eq' B"
  unfolding prevote_quorum_def precommit_quorum_def
  by (meson Un_mono order_trans index_weight_mono voting_mono)+

lemma round_inv_grows:
  assumes inv: "round_inv par number r" and core: "round_core par number r'"
    and same: "round_base r' = round_base r" "rd_voters r' = rd_voters r" "rd_prevote_ghost r' = rd_prevote_ghost r"
      "rd_precommit_ghost r' = rd_precommit_ghost r" "rd_finalized r' = rd_finalized r" "rd_estimate r' = rd_estimate r"
    and grows: "\<And>t. round_cast par r t \<subseteq> round_cast par r' t" "round_equivocators r \<subseteq> round_equivocators r'"
  shows "round_inv par number r'"
proof -
  have "marked par number r' (prevoted r') (rd_prevote_ghost r)" "marked par number r' (precommitted r') (rd_precommit_ghost r)"
    "marked par number r' (precommitted r') (rd_finalized r)" "marked par number r' (\<lambda>_. True) (rd_estimate r)"
    using inv quorum_equivocators [OF grows(2)] unfolding round_inv_def same
    by (auto elim!: marked_mono [OF _ same(1) grows(1)])
  then show ?thesis using core unfolding round_inv_def same by simp
qed

section \<open>The graph searches of a round\<close>

lemma round_laws:
  "block_chain par number anc \<Longrightarrow>
     vote_graph_laws par number anc vote_weight_add vote_weight_default (weight_ok n) weight_votes"
  by (intro vote_graph_laws.intro vote_weight.vote_values_axioms)

lemma prevote_scan:
  assumes chain: "block_chain par number anc" and core: "round_core par number (r :: ('i, 'h::linorder, 's) Round)"
  shows "graph_scan par number anc vote_weight_add vote_weight_default (weight_ok (voters_len (rd_voters r))) weight_votes
     (round_cast par r) (rd_graph r) (prevote_supermajority r) (prevoted r)"
  using round_laws [OF chain] round_coreD [OF core] supermajority_spec quorum_mono
  by (intro graph_scan.intro graph_scan_axioms.intro) blast+

lemma precommit_scan:
  assumes chain: "block_chain par number anc" and core: "round_core par number (r :: ('i, 'h::linorder, 's) Round)"
  shows "graph_scan par number anc vote_weight_add vote_weight_default (weight_ok (voters_len (rd_voters r))) weight_votes
     (round_cast par r) (rd_graph r) (precommit_supermajority r) (precommitted r)"
  using round_laws [OF chain] round_coreD [OF core] supermajority_spec quorum_mono
  by (intro graph_scan.intro graph_scan_axioms.intro) blast+

lemma possible_scan:
  assumes chain: "block_chain par number anc" and core: "round_core par number (r :: ('i, 'h::linorder, 's) Round)"
  shows "graph_scan par number anc vote_weight_add vote_weight_default (weight_ok (voters_len (rd_voters r))) weight_votes
     (round_cast par r) (rd_graph r) (possible_to_precommit r) (possible_quorum r)"
  using round_laws [OF chain] round_coreD [OF core] possible_to_precommit_spec possible_quorum_mono
  by (intro graph_scan.intro graph_scan_axioms.intro) blast+

text \<open>What a search finds is marked, and the searches of a round return.\<close>

lemma search_marked:
  assumes "\<forall>t. x = Some t \<longrightarrow> P (votes_for par r t) \<and> descends par (round_base r) t"
  shows "marked par number r P (map_option (\<lambda>t. (t, number t)) x)"
  using assms by (auto simp: marked_def)

lemma marked_numbered:
  assumes "marked par number r P x"
  obtains c where "x = map_option (\<lambda>t. (t, number t)) c"
proof (cases x)
  case None
  then show thesis using that [of None] by simp
next
  case (Some y)
  then show thesis using that [of "Some (fst y)"] assms by (cases y) (simp add: marked_def)
qed

lemma marked_weaken: "marked par number r P x \<Longrightarrow> (\<And>A. P A \<Longrightarrow> Q A) \<Longrightarrow> marked par number r Q x"
  by (simp add: marked_def)

lemma update_finalized_returns:
  assumes chain: "block_chain par number anc" and inv: "round_inv par number (r :: ('i, 'h::linorder, 's) Round)"
  shows "\<exists>f. update_finalized (x, number x) r = Some (r\<lparr>rd_finalized := f\<rparr>) \<and> round_inv par number (r\<lparr>rd_finalized := f\<rparr>)"
proof (cases "round_threshold r \<le> vt_current_weight (rd_precommit r)")
  case True
  have core: "round_core par number r" using inv by (simp add: round_inv_def)
  obtain c where c: "find_ancestor vote_weight_add (rd_graph r) x (number x) (precommit_supermajority r)
      = Some (map_option (\<lambda>t. (t, number t)) c)"
    "\<forall>t. c = Some t \<longrightarrow> precommitted r (votes_for par r t) \<and> descends par (round_base r) t"
    using graph_scan.find_ancestor_returns [OF precommit_scan [OF chain core]] by blast
  then show ?thesis
    using True inv search_marked [OF c(2)] by (intro exI [of _ "map_option (\<lambda>t. (t, number t)) c"])
      (simp add: update_finalized_def round_inv_def)
qed (use inv in \<open>auto simp: update_finalized_def intro: exI [of _ "rd_finalized r"]\<close>)

lemma update_completable_returns:
  assumes chain: "block_chain par number anc" and inv: "round_inv par number (r :: ('i, 'h::linorder, 's) Round)"
  shows "\<exists>c. update_completable g r = Some (r\<lparr>rd_completable := c\<rparr>) \<and> round_inv par number (r\<lparr>rd_completable := c\<rparr>)"
proof -
  have core: "round_core par number r" and e: "marked par number r (\<lambda>_. True) (rd_estimate r)"
    using inv by (simp_all add: round_inv_def)
  obtain b where b: "rd_estimate r = map_option (\<lambda>t. (t, number t)) b" using marked_numbered [OF e] .
  obtain d where "find_ghost vote_weight_add (rd_graph r) (map_option (\<lambda>t. (t, number t)) b) (possible_to_precommit r) = Some d"
    using graph_scan.find_ghost_returns [OF possible_scan [OF chain core], of b] by blast
  then have "\<exists>c. update_completable g r = Some (r\<lparr>rd_completable := c\<rparr>)"
    using b by (cases b) (auto simp: update_completable_def)
  then show ?thesis using inv by (auto simp: round_inv_def)
qed

lemma update_estimate_returns:
  assumes chain: "block_chain par number anc" and inv: "round_inv par number (r :: ('i, 'h::linorder, 's) Round)"
    and x: "descends par (round_base r) x"
  shows "\<exists>e c. update_estimate (x, number x) r = Some (r\<lparr>rd_estimate := e, rd_completable := c\<rparr>)
    \<and> round_inv par number (r\<lparr>rd_estimate := e, rd_completable := c\<rparr>)"
proof (cases "round_threshold r \<le> vt_current_weight (rd_precommit r)")
  case True
  have core: "round_core par number r" using inv by (simp add: round_inv_def)
  obtain c where c: "find_ancestor vote_weight_add (rd_graph r) x (number x) (possible_to_precommit r)
      = Some (map_option (\<lambda>t. (t, number t)) c)"
    "\<forall>t. c = Some t \<longrightarrow> possible_quorum r (votes_for par r t) \<and> descends par (round_base r) t"
    using graph_scan.find_ancestor_returns [OF possible_scan [OF chain core]] by blast
  let ?r = "r\<lparr>rd_estimate := map_option (\<lambda>t. (t, number t)) c\<rparr>"
  have "round_inv par number ?r"
    using inv marked_weaken [OF search_marked [OF c(2)], of "\<lambda>_. True"] by (simp add: round_inv_def)
  from update_completable_returns [OF chain this, of "(x, number x)"] show ?thesis
    using True c(1) by (auto simp: update_estimate_def)
next
  case False
  then have "update_estimate (x, number x) r = Some (r\<lparr>rd_estimate := Some (x, number x), rd_completable := rd_completable r\<rparr>)"
    by (simp add: update_estimate_def)
  moreover have "round_inv par number (r\<lparr>rd_estimate := Some (x, number x), rd_completable := rd_completable r\<rparr>)"
    using inv x by (simp add: round_inv_def) (simp add: marked_def)
  ultimately show ?thesis by blast
qed

text \<open>\<open>update\<close> and the prevote-GHOST change the result fields only.\<close>

definition same_votes :: "('i, 'h, 's) Round \<Rightarrow> ('i, 'h, 's) Round \<Rightarrow> bool" where
  "same_votes r r' \<longleftrightarrow> (\<exists>g f e c. r' = r\<lparr>rd_prevote_ghost := g, rd_finalized := f, rd_estimate := e, rd_completable := c\<rparr>)"

lemma same_votes_refl: "same_votes r r"
  unfolding same_votes_def
  by (intro exI [of _ "rd_prevote_ghost r"] exI [of _ "rd_finalized r"] exI [of _ "rd_estimate r"] exI [of _ "rd_completable r"]) simp

lemma same_votes_trans: "same_votes a b \<Longrightarrow> same_votes b c \<Longrightarrow> same_votes a c"
  unfolding same_votes_def by force

lemma round_update_returns:
  assumes chain: "block_chain par number anc" and inv: "round_inv par number (r :: ('i, 'h::linorder, 's) Round)"
  shows "\<exists>r'. round_update r = Some r' \<and> same_votes r r' \<and> round_inv par number r'"
proof (cases "vt_current_weight (rd_prevote r) < round_threshold r \<or> rd_prevote_ghost r = None")
  case True
  then show ?thesis using inv same_votes_refl by (auto simp: round_update_def)
next
  case False
  then obtain x n where g: "rd_prevote_ghost r = Some (x, n)" by auto
  then have x: "n = number x" "descends par (round_base r) x" using inv by (auto simp: round_inv_def marked_def)
  obtain f where f: "update_finalized (x, n) r = Some (r\<lparr>rd_finalized := f\<rparr>)" "round_inv par number (r\<lparr>rd_finalized := f\<rparr>)"
    using update_finalized_returns [OF chain inv] x(1) by blast
  obtain e c where e: "update_estimate (x, n) (r\<lparr>rd_finalized := f\<rparr>)
      = Some (r\<lparr>rd_finalized := f, rd_estimate := e, rd_completable := c\<rparr>)"
    "round_inv par number (r\<lparr>rd_finalized := f, rd_estimate := e, rd_completable := c\<rparr>)"
    using update_estimate_returns [OF chain f(2), of x] x by auto
  have "same_votes r (r\<lparr>rd_finalized := f, rd_estimate := e, rd_completable := c\<rparr>)"
    unfolding same_votes_def by (intro exI [of _ "rd_prevote_ghost r"] exI [of _ f] exI [of _ e] exI [of _ c]) simp
  then show ?thesis using False g f(1) e by (simp add: round_update_def)
qed

lemma update_prevote_ghost_returns:
  assumes chain: "block_chain par number anc" and inv: "round_inv par number (r :: ('i, 'h::linorder, 's) Round)"
  shows "\<exists>r'. update_prevote_ghost r = Some r' \<and> same_votes r r' \<and> round_inv par number r'"
proof (cases "round_threshold r \<le> vt_current_weight (rd_prevote r)")
  case True
  have core: "round_core par number r" and m: "marked par number r (prevoted r) (rd_prevote_ghost r)"
    using inv by (simp_all add: round_inv_def)
  obtain b where b: "rd_prevote_ghost r = map_option (\<lambda>t. (t, number t)) b" using marked_numbered [OF m] .
  obtain c where c: "find_ghost vote_weight_add (rd_graph r) (rd_prevote_ghost r) (prevote_supermajority r)
      = Some (map_option (\<lambda>t. (t, number t)) c)"
    "\<forall>t. c = Some t \<longrightarrow> prevoted r (votes_for par r t) \<and> descends par (round_base r) t"
    using graph_scan.find_ghost_returns [OF prevote_scan [OF chain core], of b] b by auto
  have "same_votes r (r\<lparr>rd_prevote_ghost := map_option (\<lambda>t. (t, number t)) c\<rparr>)"
    unfolding same_votes_def
    by (intro exI [of _ "map_option (\<lambda>t. (t, number t)) c"] exI [of _ "rd_finalized r"] exI [of _ "rd_estimate r"]
        exI [of _ "rd_completable r"]) simp
  then show ?thesis using True c(1) inv search_marked [OF c(2)] by (simp add: update_prevote_ghost_def round_inv_def)
qed (use inv same_votes_refl in \<open>auto simp: update_prevote_ghost_def\<close>)

section \<open>The prevote-GHOST\<close>

text \<open>
  Unless the equivocators alone are a supermajority, the prevote-GHOST is a block with a supermajority of prevotes
  none of whose children has one, and there is none only if the base itself lacks it.
\<close>

definition ghost_ok :: "('h \<rightharpoonup> 'h) \<Rightarrow> ('i, 'h, 's) Round \<Rightarrow> bool" where
  "ghost_ok par r \<longleftrightarrow> (\<not> prevoted r {} \<longrightarrow>
     (case rd_prevote_ghost r of
        None \<Rightarrow> \<not> prevoted r (votes_for par r (round_base r))
      | Some (h, n) \<Rightarrow> prevoted r (votes_for par r h) \<and> (\<forall>c. par c = Some h \<longrightarrow> \<not> prevoted r (votes_for par r c))))"

lemma ghost_ok_same:
  fixes r r' :: "('i, 'h, 's) Round"
  assumes "rd_voters r' = rd_voters r" "round_base r' = round_base r" "rd_prevote_ghost r' = rd_prevote_ghost r"
    and "prevoting (round_equivocators r') = prevoting (round_equivocators r)"
    and "\<And>t. prevoting (round_cast par r' t) = prevoting (round_cast par r t)"
  shows "ghost_ok par r' = ghost_ok par r"
proof -
  have "prevoting (votes_for par q h) = (\<Union>t\<in>{t. descends par h t}. prevoting (round_cast par q t))"
    for q :: "('i, 'h, 's) Round" and h by (auto simp: prevoting_def cast_above_def)
  then have "prevoted r' (votes_for par r' h) = prevoted r (votes_for par r h)" for h
    using assms by (simp add: prevote_quorum_def voting_Un)
  moreover have "prevoted r' {} = prevoted r {}" using assms by (simp add: prevote_quorum_def)
  ultimately show ?thesis using assms(2,3) by (simp add: ghost_ok_def split: option.split)
qed

lemma same_votes_fields:
  "same_votes r r' \<Longrightarrow> rd_voters r' = rd_voters r \<and> rd_graph r' = rd_graph r \<and> rd_prevote r' = rd_prevote r
     \<and> rd_precommit r' = rd_precommit r \<and> rd_bitfield_context r' = rd_bitfield_context r
     \<and> rd_round_number r' = rd_round_number r \<and> round_cast par r' = round_cast par r"
  by (auto simp: same_votes_def)

lemma round_update_ghost: "round_update r = Some r' \<Longrightarrow> rd_prevote_ghost r' = rd_prevote_ghost r"
  by (auto simp: round_update_def update_finalized_def update_estimate_def update_completable_def
      split: if_splits option.splits)

lemma tracked_prevoters:
  assumes "round_core par number r"
  shows "prevoting (votes_for par r h \<union> round_equivocators r) \<subseteq> voter_index (rd_voters r) ` fst ` set (vt_votes (rd_prevote r))"
proof
  fix k
  assume "k \<in> prevoting (votes_for par r h \<union> round_equivocators r)"
  then have "2 * k \<in> votes_for par r h \<union> round_equivocators r" by (simp add: prevoting_def)
  then have "(\<exists>i m. map_of (vt_votes (rd_prevote r)) i = Some m \<and> k = voter_index (rd_voters r) i)"
    unfolding round_coreD(5) [OF assms] cast_above_def
    by (auto simp: round_cast_def round_votes_def vote_bits_def equivocator_bits_def split: if_splits; presburger)
  then show "k \<in> voter_index (rd_voters r) ` fst ` set (vt_votes (rd_prevote r))"
    by (force dest: map_of_SomeD)
qed

lemma prevoted_weight:
  assumes "round_core par number r" "prevoted r (votes_for par r h)"
  shows "round_threshold r \<le> vt_current_weight (rd_prevote r)"
  using assms(2) index_weight_mono [OF tracked_prevoters [OF assms(1)], of "rd_voters r" h] round_coreD(6) [OF assms(1)]
  by (simp add: prevote_quorum_def round_threshold_def tracker_ok_def word_le_nat_alt)

lemma prevote_search:
  assumes chain: "block_chain par number anc" and core: "round_core par number (r :: ('i, 'h::linorder, 's) Round)"
    and "\<not> prevoted r {}"
  shows "graph_search par number anc vote_weight_add vote_weight_default (weight_ok (voters_len (rd_voters r))) weight_votes
     (round_cast par r) (rd_graph r) (prevote_supermajority r) (prevoted r)"
  using prevote_scan [OF chain core] assms(3) by (intro graph_search.intro graph_search_axioms.intro)

lemma update_prevote_ghost_ok:
  assumes chain: "block_chain par number anc" and inv: "round_inv par number (r :: ('i, 'h::linorder, 's) Round)"
    and u: "update_prevote_ghost r = Some r'"
  shows "ghost_ok par r'"
proof (cases "round_threshold r \<le> vt_current_weight (rd_prevote r) \<and> \<not> prevoted r {}")
  case False
  have "\<not> prevoted r (votes_for par r h)" if "\<not> prevoted r {}" for h
    using False that prevoted_weight [of par number r h] inv by (auto simp: round_inv_def)
  moreover have "ghost_ok par r'" if "prevoted r {}"
    using u that by (auto simp: ghost_ok_def update_prevote_ghost_def split: if_splits)
  moreover have "r' = r" if "\<not> prevoted r {}" using that u False by (simp add: update_prevote_ghost_def)
  ultimately show ?thesis
    using inv by (fastforce simp: ghost_ok_def round_inv_def marked_def split: option.splits)
next
  case True
  have core: "round_core par number r" and m: "marked par number r (prevoted r) (rd_prevote_ghost r)"
    using inv by (simp_all add: round_inv_def)
  note search = prevote_search [OF chain core conjunct2 [OF True]]
  obtain x where x: "find_ghost vote_weight_add (rd_graph r) (rd_prevote_ghost r) (prevote_supermajority r) = Some x"
    "r' = r\<lparr>rd_prevote_ghost := x\<rparr>" using u True by (auto simp: update_prevote_ghost_def)
  have "case x of None \<Rightarrow> \<not> prevoted r (votes_for par r (round_base r))
      | Some (h, n) \<Rightarrow> prevoted r (votes_for par r h) \<and> (\<forall>c. par c = Some h \<longrightarrow> \<not> prevoted r (votes_for par r c))"
  proof (cases "rd_prevote_ghost r")
    case None
    then show ?thesis using graph_search.find_ghost_base [OF search] x(1) by (auto simp: graph_search.top_block_def [OF search])
  next
    case (Some y)
    then obtain t where t: "rd_prevote_ghost r = Some (t, number t)" "prevoted r (votes_for par r t)" "descends par (round_base r) t"
      using m by (cases y) (auto simp: marked_def)
    show ?thesis
      by (rule graph_search.find_ghost_current [OF search t(2,3)])
        (use x(1) t(1) in \<open>auto simp: graph_search.top_block_def [OF search]\<close>)
  qed
  then show ?thesis using x(2) by (auto simp: ghost_ok_def split: option.splits)
qed

section \<open>Counting a vote\<close>

lemma voter_bits_less:
  assumes "voters_ok vs" "voter_info vs i = Some info"
  shows "canon_idx info * 2 < 2 * voters_len vs" "canon_idx info * 2 + 1 < 2 * voters_len vs"
    "canon_idx info = voter_index vs i"
  using voters_ok_info(1) [OF assms] assms(2) by (simp_all add: voter_index_def)

lemma count_vote:
  assumes chain: "block_chain par number anc" and g: "graph_inv par number (weight_ok n) weight_votes cast g"
    and p: "p < 2 * n"
  obtains bits where "live_set_bit p n (with_voters n) = Inr bits"
    "\<not> descends par (vg_base g) x \<Longrightarrow>
       graph_insert vote_weight_add vote_weight_default anc x (number x) \<lparr>vw_bitfield = Live bits\<rparr> g = Some (Inl ())"
    "descends par (vg_base g) x \<Longrightarrow>
       \<exists>g'. graph_insert vote_weight_add vote_weight_default anc x (number x) \<lparr>vw_bitfield = Live bits\<rparr> g = Some (Inr g')
         \<and> graph_inv par number (weight_ok n) weight_votes (cast(x := cast x \<union> {p})) g' \<and> vg_base g' = vg_base g"
proof -
  obtain bits where b: "live_set_bit p n (with_voters n) = Inr bits" "length bits = length (with_voters n)"
    "bf_set (Live bits) = insert p (bf_set (Live (with_voters n)))" using live_set_bit_voter [OF p refl] .
  have ok: "weight_ok n \<lparr>vw_bitfield = Live bits\<rparr>" using b(2) by (simp add: field_ok_def)
  have votes: "weight_votes \<lparr>vw_bitfield = Live bits\<rparr> = {p}" using b(3) by (simp only: VoteWeight.simps bf_set_with_voters)
  note laws = round_laws [OF chain, of n]
  show thesis
  proof (rule that [OF b(1)])
    assume "\<not> descends par (vg_base g) x"
    from vote_graph_laws.graph_insert_error [OF laws g this] show
      "graph_insert vote_weight_add vote_weight_default anc x (number x) \<lparr>vw_bitfield = Live bits\<rparr> g = Some (Inl ())" .
  next
    assume "descends par (vg_base g) x"
    from vote_graph_laws.graph_insert_spec [OF laws g ok this] obtain g' where
      "graph_insert vote_weight_add vote_weight_default anc x (number x) \<lparr>vw_bitfield = Live bits\<rparr> g = Some (Inr g')"
      "graph_inv par number (weight_ok n) weight_votes (cast(x := cast x \<union> {p})) g'" "vg_base g' = vg_base g"
      unfolding votes .
    then show "\<exists>g'. graph_insert vote_weight_add vote_weight_default anc x (number x) \<lparr>vw_bitfield = Live bits\<rparr> g = Some (Inr g')
         \<and> graph_inv par number (weight_ok n) weight_votes (cast(x := cast x \<union> {p})) g' \<and> vg_base g' = vg_base g" by blast
  qed
qed

text \<open>
  A first vote goes to a tracker and, when its block is above the base, to the graph: \<open>counts\<close>
  relates a round to the one with a vote \<open>p\<close> on block \<open>x\<close> in its trackers.
\<close>

definition counts :: "('i, 'h, 's) Round \<Rightarrow> ('i, 'h, 's) Round \<Rightarrow> 'h \<Rightarrow> nat \<Rightarrow> bool" where
  "counts r r' x p \<longleftrightarrow> (\<exists>pv pc. r' = r\<lparr>rd_prevote := pv, rd_precommit := pc\<rparr>
     \<and> tracker_ok (rd_voters r) pv \<and> tracker_ok (rd_voters r) pc
     \<and> equivocator_bits 0 (rd_voters r) (vt_votes pv) = equivocator_bits 0 (rd_voters r) (vt_votes (rd_prevote r))
     \<and> equivocator_bits 1 (rd_voters r) (vt_votes pc) = equivocator_bits 1 (rd_voters r) (vt_votes (rd_precommit r))
     \<and> (\<forall>t. round_votes (rd_voters r) pv pc t
           = round_votes (rd_voters r) (rd_prevote r) (rd_precommit r) t \<union> (if t = x then {p} else {})))"

lemma counts_prevote:
  assumes "round_core par number r" "voter_info (rd_voters r) i = Some info" "map_of (vt_votes (rd_prevote r)) i = None"
  shows "counts r (r\<lparr>rd_prevote := (rd_prevote r)\<lparr>vt_current_weight := vt_current_weight (rd_prevote r) + vi_weight info,
     vt_votes := vt_votes (rd_prevote r) @ [(i, Single v s)]\<rparr>\<rparr>) (pv_target_hash v) (2 * voter_index (rd_voters r) i)"
  unfolding counts_def
  using round_coreD [OF assms(1)] tracker_ok_new [OF round_coreD(1) [OF assms(1)] round_coreD(6) [OF assms(1)] assms(2,3)]
  by (intro exI [of _ "(rd_prevote r)\<lparr>vt_current_weight := vt_current_weight (rd_prevote r) + vi_weight info,
     vt_votes := vt_votes (rd_prevote r) @ [(i, Single v s)]\<rparr>"] exI [of _ "rd_precommit r"])
    (auto simp: round_votes_def equivocator_bits_new [OF assms(3)] vote_bits_new [OF assms(3)])

lemma counts_precommit:
  assumes "round_core par number r" "voter_info (rd_voters r) i = Some info" "map_of (vt_votes (rd_precommit r)) i = None"
  shows "counts r (r\<lparr>rd_precommit := (rd_precommit r)\<lparr>vt_current_weight := vt_current_weight (rd_precommit r) + vi_weight info,
     vt_votes := vt_votes (rd_precommit r) @ [(i, Single v s)]\<rparr>\<rparr>) (pc_target_hash v) (2 * voter_index (rd_voters r) i + 1)"
  unfolding counts_def
  using round_coreD [OF assms(1)] tracker_ok_new [OF round_coreD(1) [OF assms(1)] round_coreD(7) [OF assms(1)] assms(2,3)]
  by (intro exI [of _ "rd_prevote r"] exI [of _ "(rd_precommit r)\<lparr>vt_current_weight := vt_current_weight (rd_precommit r) + vi_weight info,
     vt_votes := vt_votes (rd_precommit r) @ [(i, Single v s)]\<rparr>"])
    (auto simp: round_votes_def equivocator_bits_new [OF assms(3)] vote_bits_new [OF assms(3)])

lemma counts_cast:
  assumes "counts r r' x p" "vg_base g = round_base r"
  shows "round_cast par (r'\<lparr>rd_graph := g\<rparr>)
    = (if descends par (round_base r) x then (round_cast par r)(x := round_cast par r x \<union> {p}) else round_cast par r)"
  using assms by (auto simp: counts_def round_cast_def fun_eq_iff split: if_splits)

lemma counts_inv:
  assumes inv: "round_inv par number r" and c: "counts r r' x p" and base: "vg_base g = round_base r"
    and g: "graph_inv par number (weight_ok (voters_len (rd_voters r))) weight_votes (round_cast par (r'\<lparr>rd_graph := g\<rparr>)) g"
  shows "round_inv par number (r'\<lparr>rd_graph := g\<rparr>)"
proof (rule round_inv_grows [OF inv])
  show "round_core par number (r'\<lparr>rd_graph := g\<rparr>)"
    using inv c g by (auto simp: round_inv_def round_core_def counts_def)
  show "round_cast par r t \<subseteq> round_cast par (r'\<lparr>rd_graph := g\<rparr>) t" for t unfolding counts_cast [OF c base] by auto
qed (use c base in \<open>auto simp: counts_def\<close>)

text \<open>
  The tail of an import after the first vote of a voter: the bitfield of the vote, its insertion,
  and \<open>finish\<close> on success.
\<close>

definition insert_vote ::
  "('h \<Rightarrow> 'h \<Rightarrow> 'h list option) \<Rightarrow> 'h \<Rightarrow> u64 \<Rightarrow> (bitfield_error + Bitfield)
     \<Rightarrow> (('i, 'h, 's) Round \<Rightarrow> ((unit + 'b) \<times> ('i, 'h, 's) Round) option) \<Rightarrow> ('i, 'h, 's) Round
     \<Rightarrow> ((unit + 'b) \<times> ('i, 'h, 's) Round) option" where
  "insert_vote anc x n bits finish r =
     (case bits of
        Inl e \<Rightarrow> None
      | Inr b \<Rightarrow>
          (case graph_insert vote_weight_add vote_weight_default anc x n \<lparr>vw_bitfield = b\<rparr> (rd_graph r) of
             None \<Rightarrow> None
           | Some (Inl e) \<Rightarrow> Some (Inl e, r)
           | Some (Inr g) \<Rightarrow> finish (r\<lparr>rd_graph := g\<rparr>)))"

lemma insert_vote_returns:
  assumes chain: "block_chain par number anc" and inv: "round_inv par number r" and c: "counts r r' x p"
    and p: "p < 2 * voters_len (rd_voters r)"
  shows "\<not> descends par (round_base r) x \<Longrightarrow>
      insert_vote anc x (number x) (map_sum id Live (live_set_bit p (voters_len (rd_voters r)) (with_voters (voters_len (rd_voters r)))))
        finish r' = Some (Inl (), r') \<and> round_inv par number r'"
    and "descends par (round_base r) x \<Longrightarrow>
      \<exists>g. insert_vote anc x (number x) (map_sum id Live (live_set_bit p (voters_len (rd_voters r)) (with_voters (voters_len (rd_voters r)))))
        finish r' = finish (r'\<lparr>rd_graph := g\<rparr>) \<and> round_inv par number (r'\<lparr>rd_graph := g\<rparr>) \<and> vg_base g = round_base r"
proof -
  have g: "graph_inv par number (weight_ok (voters_len (rd_voters r))) weight_votes (round_cast par r) (rd_graph r)"
    using inv by (simp add: round_inv_def round_core_def)
  have graph: "rd_graph r' = rd_graph r" "r'\<lparr>rd_graph := rd_graph r\<rparr> = r'" using c by (auto simp: counts_def)
  obtain bs where bs: "live_set_bit p (voters_len (rd_voters r)) (with_voters (voters_len (rd_voters r))) = Inr bs"
    "\<not> descends par (round_base r) x \<Longrightarrow>
       graph_insert vote_weight_add vote_weight_default anc x (number x) \<lparr>vw_bitfield = Live bs\<rparr> (rd_graph r) = Some (Inl ())"
    "descends par (round_base r) x \<Longrightarrow>
       \<exists>g'. graph_insert vote_weight_add vote_weight_default anc x (number x) \<lparr>vw_bitfield = Live bs\<rparr> (rd_graph r) = Some (Inr g')
         \<and> graph_inv par number (weight_ok (voters_len (rd_voters r))) weight_votes
             ((round_cast par r)(x := round_cast par r x \<union> {p})) g' \<and> vg_base g' = round_base r"
    by (rule count_vote [OF chain g p, of x]) simp
  {
    assume no: "\<not> descends par (round_base r) x"
    have "round_inv par number r'"
      using counts_inv [OF inv c refl] g no counts_cast [OF c refl, of par] graph(2) by simp
    then show "insert_vote anc x (number x) (map_sum id Live (live_set_bit p (voters_len (rd_voters r)) (with_voters (voters_len (rd_voters r)))))
        finish r' = Some (Inl (), r') \<and> round_inv par number r'"
      using bs(1) bs(2) [OF no] graph(1) by (simp add: insert_vote_def)
  next
    assume yes: "descends par (round_base r) x"
    obtain g' where g': "graph_insert vote_weight_add vote_weight_default anc x (number x) \<lparr>vw_bitfield = Live bs\<rparr> (rd_graph r) = Some (Inr g')"
      "graph_inv par number (weight_ok (voters_len (rd_voters r))) weight_votes
             ((round_cast par r)(x := round_cast par r x \<union> {p})) g'" "vg_base g' = round_base r" using bs(3) [OF yes] by blast
    have "round_inv par number (r'\<lparr>rd_graph := g'\<rparr>)"
      using counts_inv [OF inv c g'(3)] g'(2) yes counts_cast [OF c g'(3), of par] by simp
    then show "\<exists>g. insert_vote anc x (number x) (map_sum id Live (live_set_bit p (voters_len (rd_voters r)) (with_voters (voters_len (rd_voters r)))))
        finish r' = finish (r'\<lparr>rd_graph := g\<rparr>) \<and> round_inv par number (r'\<lparr>rd_graph := g\<rparr>) \<and> vg_base g = round_base r"
      using bs(1) g'(1,3) graph(1) by (auto simp: insert_vote_def)
  }
qed

section \<open>Equivocations\<close>

lemma equivocation_inv:
  assumes inv: "round_inv par number r" and t: "tracker_ok (rd_voters r) pv" "tracker_ok (rd_voters r) pc"
    and votes: "\<And>t. round_votes (rd_voters r) pv pc t = round_votes (rd_voters r) (rd_prevote r) (rd_precommit r) t"
    and eq: "equivocator_bits 0 (rd_voters r) (vt_votes pv) \<union> equivocator_bits 1 (rd_voters r) (vt_votes pc)
      = insert p (round_equivocators r)"
    and p: "p < 2 * voters_len (rd_voters r)"
  obtains b where "bitfield_set_bit p (sh_n_voters (rd_bitfield_context r)) (sh_equivocators (rd_bitfield_context r)) = (Inr (), b)"
    "round_inv par number (r\<lparr>rd_prevote := pv, rd_precommit := pc,
       rd_bitfield_context := rd_bitfield_context r\<lparr>sh_equivocators := b\<rparr>\<rparr>)"
    "bf_set b = insert p (round_equivocators r)"
proof -
  have core: "round_core par number r" using inv by (simp add: round_inv_def)
  note c = round_coreD [OF core]
  obtain bits where b: "bitfield_set_bit p (voters_len (rd_voters r)) (sh_equivocators (rd_bitfield_context r)) = (Inr (), Live bits)"
    "length bits = length (with_voters (voters_len (rd_voters r)))"
    "bf_set (Live bits) = insert p (round_equivocators r)"
    using bitfield_set_bit_voter [OF p, of "sh_equivocators (rd_bitfield_context r)"] c(4) unfolding field_ok_def by blast
  let ?r = "r\<lparr>rd_prevote := pv, rd_precommit := pc, rd_bitfield_context := rd_bitfield_context r\<lparr>sh_equivocators := Live bits\<rparr>\<rparr>"
  have cast: "round_cast par ?r = round_cast par r" using votes by (simp add: round_cast_def fun_eq_iff)
  have "round_inv par number ?r"
  proof (rule round_inv_grows [OF inv])
    show "round_core par number ?r" using c t eq b(2,3) cast by (simp add: round_core_def del: bf_set.simps) (simp add: field_ok_def)
  qed (use b(3) cast in \<open>auto simp del: bf_set.simps\<close>)
  then show thesis using that [of "Live bits"] b(1,3) c(3) by (simp del: bf_set.simps)
qed

section \<open>The imports\<close>

definition finish_prevote ::
  "('i, 'h Prevote, 's) Equivocation option \<Rightarrow> ('i, 'h::linorder, 's) Round \<Rightarrow> ('i, 'h, 's, 'h Prevote) import_result" where
  "finish_prevote equivocation r =
     (case update_prevote_ghost r of None \<Rightarrow> None
      | Some r \<Rightarrow> map_option (\<lambda>r. (Inr equivocation, r)) (round_update r))"

definition finish_precommit ::
  "('i, 'h Precommit, 's) Equivocation option \<Rightarrow> ('i, 'h::linorder, 's) Round \<Rightarrow> ('i, 'h, 's, 'h Precommit) import_result" where
  "finish_precommit equivocation r = map_option (\<lambda>r. (Inr equivocation, r)) (round_update r)"

lemma finish_prevote_returns:
  assumes "block_chain par number anc" "round_inv par number r"
  shows "\<exists>r'. finish_prevote e r = Some (Inr e, r') \<and> same_votes r r' \<and> round_inv par number r' \<and> ghost_ok par r'"
proof -
  obtain r1 where r1: "update_prevote_ghost r = Some r1" "same_votes r r1" "round_inv par number r1"
    using update_prevote_ghost_returns [OF assms] by blast
  obtain r2 where r2: "round_update r1 = Some r2" "same_votes r1 r2" "round_inv par number r2"
    using round_update_returns [OF assms(1) r1(3)] by blast
  have "ghost_ok par r2"
    using update_prevote_ghost_ok [OF assms r1(1)] ghost_ok_same [of r2 r1 par] round_update_ghost [OF r2(1)]
      same_votes_fields [OF r2(2), of par] by simp
  then show ?thesis using r1 r2 same_votes_trans [of r r1 r2] by (simp add: finish_prevote_def)
qed

lemma finish_precommit_returns:
  assumes "block_chain par number anc" "round_inv par number r"
  shows "\<exists>r'. finish_precommit e r = Some (Inr e, r') \<and> same_votes r r' \<and> round_inv par number r'
    \<and> rd_prevote_ghost r' = rd_prevote_ghost r"
  using round_update_returns [OF assms] round_update_ghost [of r] by (auto simp: finish_precommit_def)

text \<open>The imports by the state of the tracker.\<close>

lemma import_prevote_unknown: "voter_info (rd_voters r) i = None \<Longrightarrow> import_prevote anc v i s r = Some (Inr None, r)"
  by (simp add: import_prevote_def Let_def)

lemma import_prevote_known:
  assumes "voter_info (rd_voters r) i = Some info" "add_vote i v s (vi_weight info) (rd_prevote r) = (None, rd_prevote r)"
  shows "import_prevote anc v i s r = Some (Inr None, r)"
  using assms by (simp add: import_prevote_def Let_def)

lemma import_prevote_new:
  assumes "voter_info (rd_voters r) i = Some info" "add_vote i v s (vi_weight info) (rd_prevote r) = (Some (Single v s), t)"
  shows "import_prevote anc v i s r = insert_vote anc (pv_target_hash v) (pv_target_number v)
    (prevote_bitfield (rd_bitfield_context r) info) (finish_prevote None) (r\<lparr>rd_prevote := t\<rparr>)"
  using assms by (simp add: import_prevote_def insert_vote_def finish_prevote_def [abs_def] Let_def)

lemma import_prevote_equivocation:
  assumes "voter_info (rd_voters r) i = Some info" "add_vote i v s (vi_weight info) (rd_prevote r) = (Some (Equivocated a b), t)"
    "bitfield_set_bit (canon_idx info * 2) (sh_n_voters (rd_bitfield_context r)) (sh_equivocators (rd_bitfield_context r)) = (Inr (), bf)"
  shows "import_prevote anc v i s r = finish_prevote
      (Some \<lparr>eq_round_number = rd_round_number r, eq_identity = i, eq_first = a, eq_second = b\<rparr>)
      (r\<lparr>rd_prevote := t, rd_bitfield_context := rd_bitfield_context r\<lparr>sh_equivocators := bf\<rparr>\<rparr>)"
  using assms by (simp add: import_prevote_def finish_prevote_def equivocated_prevote_def Let_def)

lemma import_precommit_unknown: "voter_info (rd_voters r) i = None \<Longrightarrow> import_precommit anc v i s r = Some (Inr None, r)"
  by (simp add: import_precommit_def Let_def)

lemma import_precommit_known:
  assumes "voter_info (rd_voters r) i = Some info" "add_vote i v s (vi_weight info) (rd_precommit r) = (None, rd_precommit r)"
  shows "import_precommit anc v i s r = Some (Inr None, r)"
  using assms by (simp add: import_precommit_def Let_def)

lemma import_precommit_new:
  assumes "voter_info (rd_voters r) i = Some info" "add_vote i v s (vi_weight info) (rd_precommit r) = (Some (Single v s), t)"
  shows "import_precommit anc v i s r = insert_vote anc (pc_target_hash v) (pc_target_number v)
    (precommit_bitfield (rd_bitfield_context r) info) (finish_precommit None) (r\<lparr>rd_precommit := t\<rparr>)"
  using assms by (simp add: import_precommit_def insert_vote_def finish_precommit_def [abs_def] Let_def)

lemma import_precommit_equivocation:
  assumes "voter_info (rd_voters r) i = Some info" "add_vote i v s (vi_weight info) (rd_precommit r) = (Some (Equivocated a b), t)"
    "bitfield_set_bit (canon_idx info * 2 + 1) (sh_n_voters (rd_bitfield_context r)) (sh_equivocators (rd_bitfield_context r)) = (Inr (), bf)"
  shows "import_precommit anc v i s r = finish_precommit
      (Some \<lparr>eq_round_number = rd_round_number r, eq_identity = i, eq_first = a, eq_second = b\<rparr>)
      (r\<lparr>rd_precommit := t, rd_bitfield_context := rd_bitfield_context r\<lparr>sh_equivocators := bf\<rparr>\<rparr>)"
  using assms by (simp add: import_precommit_def finish_precommit_def equivocated_precommit_def Let_def)

end
