(* ===== verification/Dummy_Chain.thy ===== *)
theory Dummy_Chain
  imports Block_Tree "HOL-Library.List_Lexorder" "HOL-Library.Char_ord"
begin

text \<open>
  The chain that \<open>core/finality-grandpa/src/testing.rs\<close> implements for the gadget's own tests:
  block records by hash, with the parent's hash. It provides \<open>Chain::ancestry\<close>; the laws the
  gadget relies on hold for every chain that \<open>push_blocks\<close> builds.
\<close>

record BlockRecord =
  br_number :: u32
  br_parent :: string

type_synonym block_records = "string \<rightharpoonup> BlockRecord"

definition GENESIS_HASH :: string where "GENESIS_HASH = ''genesis''"
definition NULL_HASH :: string where "NULL_HASH = ''NULL''"

definition dummy_new :: block_records where
  "dummy_new = [GENESIS_HASH \<mapsto> \<lparr>br_number = 1, br_parent = NULL_HASH\<rparr>]"

text \<open>The records of \<open>push_blocks\<close>; \<open>None\<close> is the panic on an unknown parent.\<close>

fun push_records :: "u32 \<Rightarrow> string \<Rightarrow> string list \<Rightarrow> block_records \<Rightarrow> block_records" where
  "push_records n parent [] inner = inner"
| "push_records n parent (descendent # blocks) inner =
     push_records (n + 1) descendent blocks (inner(descendent \<mapsto> \<lparr>br_number = n, br_parent = parent\<rparr>))"

definition push_blocks :: "string \<Rightarrow> string list \<Rightarrow> block_records \<Rightarrow> block_records option" where
  "push_blocks parent blocks inner =
     (if blocks = [] then Some inner
      else (case inner parent of
              None \<Rightarrow> None
            | Some r \<Rightarrow> Some (push_records (br_number r + 1) parent blocks inner)))"

text \<open>\<open>ancestry\<close>: \<open>Inl ()\<close> is \<open>NotDescendent\<close>; \<open>None\<close> that the loop does not end.\<close>

partial_function (option) dummy_ancestry :: "block_records \<Rightarrow> string \<Rightarrow> string \<Rightarrow> string list \<Rightarrow> (unit + string list) option" where
  "dummy_ancestry inner base block acc =
     (case inner block of
        None \<Rightarrow> Some (Inl ())
      | Some r \<Rightarrow>
          if br_parent r = NULL_HASH then Some (Inl ())
          else if br_parent r = base then Some (Inr acc)
          else dummy_ancestry inner base (br_parent r) (acc @ [br_parent r]))"

definition dummy_chain_ancestry :: "block_records \<Rightarrow> string \<Rightarrow> string \<Rightarrow> string list option" where
  "dummy_chain_ancestry inner base block =
     (case dummy_ancestry inner base block [] of Some (Inr xs) \<Rightarrow> Some xs | _ \<Rightarrow> None)"

section \<open>The laws of ancestry\<close>

definition dummy_par :: "block_records \<Rightarrow> string \<rightharpoonup> string" where
  "dummy_par inner b = (case inner b of None \<Rightarrow> None | Some r \<Rightarrow> if br_parent r = NULL_HASH then None else Some (br_parent r))"

definition dummy_number :: "block_records \<Rightarrow> string \<Rightarrow> u64" where
  "dummy_number inner b = (case inner b of None \<Rightarrow> 0 | Some r \<Rightarrow> ucast (br_number r))"

definition dummy_wf :: "block_records \<Rightarrow> bool" where
  "dummy_wf inner \<longleftrightarrow> inner NULL_HASH = None \<and> (\<forall>b r. inner b = Some r \<longrightarrow> br_parent r = NULL_HASH \<or>
     (\<exists>p. inner (br_parent r) = Some p \<and> unat (br_number r) = Suc (unat (br_number p))))"

lemma dummy_wf_new: "dummy_wf dummy_new"
  by (auto simp: dummy_wf_def dummy_new_def GENESIS_HASH_def NULL_HASH_def)

lemma push_records_wf:
  assumes "dummy_wf inner" and "inner parent = Some r" "n = br_number r + 1"
    and "distinct blocks" "\<forall>b\<in>set blocks. inner b = None \<and> b \<noteq> NULL_HASH" "unat (br_number r) + length blocks < 2 ^ 32"
  shows "dummy_wf (push_records n parent blocks inner)"
  using assms
proof (induction n parent blocks inner arbitrary: r rule: push_records.induct)
  case (2 n parent d blocks inner)
  let ?inner = "inner(d \<mapsto> \<lparr>br_number = n, br_parent = parent\<rparr>)"
  have n: "unat n = Suc (unat (br_number r))" using 2(4,7) by (simp add: unat_word_ariths(1))
  have d: "inner d = None" "d \<noteq> NULL_HASH" using 2(6) by auto
  have "dummy_wf ?inner"
    unfolding dummy_wf_def
  proof (intro conjI allI impI)
    show "?inner NULL_HASH = None" using 2(2) d by (auto simp: dummy_wf_def)
    fix b r'
    assume "?inner b = Some r'"
    then show "br_parent r' = NULL_HASH \<or> (\<exists>p. ?inner (br_parent r') = Some p \<and> unat (br_number r') = Suc (unat (br_number p)))"
      using 2(2,3) n d by (auto simp: dummy_wf_def split: if_splits) (metis option.discI)+
  qed
  moreover have "\<forall>b\<in>set blocks. ?inner b = None \<and> b \<noteq> NULL_HASH" using 2(5,6) by auto
  ultimately show ?case using 2(1) [of "\<lparr>br_number = n, br_parent = parent\<rparr>"] 2(5,7) n by (simp del: fun_upd_apply) simp
qed simp

lemma push_blocks_wf:
  assumes "dummy_wf inner" "inner parent = Some r" "distinct blocks" "\<forall>b\<in>set blocks. inner b = None \<and> b \<noteq> NULL_HASH"
    and "unat (br_number r) + length blocks < 2 ^ 32"
  shows "\<exists>inner'. push_blocks parent blocks inner = Some inner' \<and> dummy_wf inner'"
  using assms(1,2) push_records_wf [OF assms(1,2) refl assms(3-5)] by (simp add: push_blocks_def)

lemma dummy_par_Some:
  assumes "dummy_wf inner"
  shows "dummy_par inner b = Some p \<longleftrightarrow> (\<exists>r. inner b = Some r \<and> br_parent r = p \<and> p \<noteq> NULL_HASH)"
  by (auto simp: dummy_par_def split: option.splits if_splits)

lemma unat_dummy_number: "inner b = Some r \<Longrightarrow> unat (dummy_number inner b) = unat (br_number r)"
proof -
  assume "inner b = Some r"
  moreover have "unat (br_number r) < 2 ^ 64" using unsigned_less [of "br_number r", where ?'a = nat] by simp
  ultimately show ?thesis by (simp add: dummy_number_def unsigned_ucast_eq take_bit_nat_eq_self)
qed

lemma dummy_numbered:
  assumes "dummy_wf inner"
  shows "numbered_chain (dummy_par inner) (dummy_number inner)"
proof
  fix h p
  assume "dummy_par inner h = Some p"
  then obtain r where r: "inner h = Some r" "br_parent r = p" "p \<noteq> NULL_HASH" using dummy_par_Some [OF assms] by blast
  then obtain q where "inner p = Some q" "unat (br_number r) = Suc (unat (br_number q))"
    using assms by (auto simp: dummy_wf_def)
  then show "unat (dummy_number inner h) = Suc (unat (dummy_number inner p))" using r unat_dummy_number by simp
qed

lemma dummy_ancestry_spec:
  assumes wf: "dummy_wf inner"
  shows "\<exists>res. dummy_ancestry inner base block acc = Some res \<and>
    (case res of Inr xs \<Rightarrow> (\<exists>ys. xs = acc @ ys \<and> path (dummy_par inner) block (ys @ [base]))
     | Inl e \<Rightarrow> descends (dummy_par inner) base block \<longrightarrow> base = block)"
proof (induction "unat (dummy_number inner block)" arbitrary: block acc rule: less_induct)
  case less
  note nc = dummy_numbered [OF wf]
  show ?case
  proof (cases "dummy_par inner block")
    case None
    then have "dummy_ancestry inner base block acc = Some (Inl ())"
      by (subst dummy_ancestry.simps) (auto simp: dummy_par_def split: option.splits if_splits)
    then show ?thesis using None descends_step [of "dummy_par inner" base block] by auto
  next
    case (Some p)
    then obtain r where r: "inner block = Some r" "br_parent r = p" "p \<noteq> NULL_HASH" using dummy_par_Some [OF wf] by blast
    show ?thesis
    proof (cases "p = base")
      case True
      then show ?thesis using r Some by (subst dummy_ancestry.simps) simp
    next
      case False
      have "unat (dummy_number inner p) < unat (dummy_number inner block)"
        using numbered_chain.number_parent [OF nc Some] by simp
      from less.hyps [OF this, of "acc @ [p]"] obtain res where res: "dummy_ancestry inner base p (acc @ [p]) = Some res"
        "case res of Inr xs \<Rightarrow> (\<exists>ys. xs = (acc @ [p]) @ ys \<and> path (dummy_par inner) p (ys @ [base]))
           | Inl e \<Rightarrow> descends (dummy_par inner) base p \<longrightarrow> base = p" by blast
      have a: "dummy_ancestry inner base block acc = Some res"
        using r False res(1) by (subst dummy_ancestry.simps) simp
      show ?thesis
      proof (cases res)
        case (Inl e)
        then show ?thesis using a res(2) Some False descends_step [of "dummy_par inner" base block] by auto
      next
        case (Inr xs)
        then obtain ys where "xs = (acc @ [p]) @ ys" "path (dummy_par inner) p (ys @ [base])" using res(2) by auto
        then have "xs = acc @ p # ys" "path (dummy_par inner) block ((p # ys) @ [base])" using Some by simp_all
        then show ?thesis using a Inr by auto
      qed
    qed
  qed
qed

lemma dummy_block_chain:
  assumes "dummy_wf inner"
  shows "block_chain (dummy_par inner) (dummy_number inner) (dummy_chain_ancestry inner)"
  unfolding block_chain_def block_chain_axioms_def
proof (intro conjI allI impI dummy_numbered [OF assms])
  fix base block xs
  assume "dummy_chain_ancestry inner base block = Some xs"
  then show "path (dummy_par inner) block (xs @ [base])"
    using dummy_ancestry_spec [OF assms, of base block "[]"]
    by (auto simp: dummy_chain_ancestry_def split: option.splits sum.splits)
next
  fix base block
  assume "dummy_chain_ancestry inner base block = None" "base \<noteq> block"
  then show "\<not> descends (dummy_par inner) base block"
    using dummy_ancestry_spec [OF assms, of base block "[]"]
    by (auto simp: dummy_chain_ancestry_def split: option.splits sum.splits)
qed

text \<open>The forked chain of the tests of \<open>vote_graph.rs\<close>.\<close>

definition forked_chain :: block_records where
  "forked_chain = the (Option.bind (Option.bind (push_blocks GENESIS_HASH [''A'', ''B'', ''C''] dummy_new)
     (push_blocks ''C'' [''D1'', ''E1'', ''F1''])) (push_blocks ''C'' [''D2'', ''E2'', ''F2'']))"

lemma forked_chain_records:
  "forked_chain = [GENESIS_HASH \<mapsto> \<lparr>br_number = 1, br_parent = NULL_HASH\<rparr>,
     ''A'' \<mapsto> \<lparr>br_number = 2, br_parent = GENESIS_HASH\<rparr>, ''B'' \<mapsto> \<lparr>br_number = 3, br_parent = ''A''\<rparr>,
     ''C'' \<mapsto> \<lparr>br_number = 4, br_parent = ''B''\<rparr>, ''D1'' \<mapsto> \<lparr>br_number = 5, br_parent = ''C''\<rparr>,
     ''E1'' \<mapsto> \<lparr>br_number = 6, br_parent = ''D1''\<rparr>, ''F1'' \<mapsto> \<lparr>br_number = 7, br_parent = ''E1''\<rparr>,
     ''D2'' \<mapsto> \<lparr>br_number = 5, br_parent = ''C''\<rparr>, ''E2'' \<mapsto> \<lparr>br_number = 6, br_parent = ''D2''\<rparr>,
     ''F2'' \<mapsto> \<lparr>br_number = 7, br_parent = ''E2''\<rparr>]"
  by (simp add: forked_chain_def push_blocks_def dummy_new_def GENESIS_HASH_def)

lemma forked_chain_wf: "dummy_wf forked_chain"
  unfolding forked_chain_records dummy_wf_def by (auto simp: NULL_HASH_def GENESIS_HASH_def split: if_splits)

interpretation forked: block_chain "dummy_par forked_chain" "dummy_number forked_chain" "dummy_chain_ancestry forked_chain"
  by (rule dummy_block_chain [OF forked_chain_wf])

section \<open>Tree routes on such a chain\<close>

text \<open>
  The client's tree route, computed on the records: it satisfies the contract that the
  ancestry of \<open>environment.rs\<close> is built on, for chains with one root.
\<close>

fun dummy_line :: "nat \<Rightarrow> block_records \<Rightarrow> string \<Rightarrow> string list" where
  "dummy_line 0 inner b = []"
| "dummy_line (Suc fuel) inner b = (case dummy_par inner b of None \<Rightarrow> [] | Some p \<Rightarrow> p # dummy_line fuel inner p)"

definition dummy_ancestors :: "block_records \<Rightarrow> string \<Rightarrow> string list" where
  "dummy_ancestors inner b = b # dummy_line (unat (dummy_number inner b)) inner b"

definition dummy_route :: "block_records \<Rightarrow> string tree_route" where
  "dummy_route inner b a =
     (if inner b = None \<or> inner a = None then None
      else (case dropWhile (\<lambda>x. x \<notin> set (dummy_ancestors inner a)) (dummy_ancestors inner b) of
              [] \<Rightarrow> None
            | c # _ \<Rightarrow> Some (takeWhile (\<lambda>x. x \<notin> set (dummy_ancestors inner a)) (dummy_ancestors inner b), c)))"

lemma dummy_line_spec:
  assumes wf: "dummy_wf inner" and "unat (dummy_number inner b) \<le> fuel"
  shows "path (dummy_par inner) b (dummy_line fuel inner b)"
    "set (b # dummy_line fuel inner b) = {x. descends (dummy_par inner) x b}"
proof -
  have "path (dummy_par inner) b (dummy_line fuel inner b)
      \<and> set (b # dummy_line fuel inner b) = {x. descends (dummy_par inner) x b}"
    using assms(2)
  proof (induction fuel arbitrary: b)
    case 0
    then have "dummy_par inner b = None"
      using numbered_chain.number_parent [OF dummy_numbered [OF wf], of b] by (cases "dummy_par inner b") auto
    then show ?case using descends_step [of "dummy_par inner" _ b] by auto
  next
    case (Suc fuel)
    show ?case
    proof (cases "dummy_par inner b")
      case None
      then show ?thesis using descends_step [of "dummy_par inner" _ b] by auto
    next
      case (Some p)
      have "unat (dummy_number inner p) \<le> fuel"
        using Suc.prems numbered_chain.number_parent [OF dummy_numbered [OF wf] Some] by simp
      from Suc.IH [OF this] show ?thesis using Some descends_step [of "dummy_par inner" _ b] by auto
    qed
  qed
  then show "path (dummy_par inner) b (dummy_line fuel inner b)"
    "set (b # dummy_line fuel inner b) = {x. descends (dummy_par inner) x b}" by blast+
qed

lemma dummy_ancestors_set: "dummy_wf inner \<Longrightarrow> set (dummy_ancestors inner b) = {x. descends (dummy_par inner) x b}"
  unfolding dummy_ancestors_def by (rule dummy_line_spec(2)) simp_all

lemma dummy_route_split:
  assumes wf: "dummy_wf inner" and r: "dummy_route inner b a = Some (retracted, c)"
  obtains rest where "dummy_ancestors inner b = retracted @ c # rest" "descends (dummy_par inner) c a"
    "\<forall>x\<in>set retracted. \<not> descends (dummy_par inner) x a"
proof -
  let ?out = "\<lambda>x. x \<notin> set (dummy_ancestors inner a)"
  obtain rest where d: "dropWhile ?out (dummy_ancestors inner b) = c # rest" "retracted = takeWhile ?out (dummy_ancestors inner b)"
    using r by (auto simp: dummy_route_def split: if_splits list.splits)
  have "dummy_ancestors inner b = retracted @ c # rest" using d takeWhile_dropWhile_id by metis
  moreover have "\<not> ?out c" using d(1) by (metis dropWhile_eq_Cons_conv)
  moreover have "\<forall>x\<in>set retracted. ?out x" using d(2) by (auto dest: set_takeWhileD)
  ultimately show thesis using that dummy_ancestors_set [OF wf] by auto
qed

lemma dummy_route_path:
  assumes wf: "dummy_wf inner" and r: "dummy_route inner b a = Some (retracted, c)"
  shows "b = c \<and> retracted = [] \<or> (\<exists>xs. retracted = b # xs \<and> path (dummy_par inner) b (xs @ [c]))"
proof -
  obtain rest where s: "dummy_ancestors inner b = retracted @ c # rest" using dummy_route_split [OF wf r] .
  have p: "path (dummy_par inner) b (dummy_line (unat (dummy_number inner b)) inner b)"
    using dummy_line_spec(1) [OF wf] by simp
  show ?thesis
  proof (cases retracted)
    case (Cons y ys)
    then have "y = b" "dummy_line (unat (dummy_number inner b)) inner b = (ys @ [c]) @ rest"
      using s by (auto simp: dummy_ancestors_def)
    then show ?thesis using p Cons path_append [of "dummy_par inner" b "ys @ [c]" rest] by simp
  qed (use s in \<open>simp add: dummy_ancestors_def\<close>)
qed

lemma dummy_tree_routes:
  assumes wf: "dummy_wf inner" and root: "\<And>b. inner b \<noteq> None \<Longrightarrow> descends (dummy_par inner) root b"
  shows "tree_routes (dummy_par inner) (dummy_number inner) (dummy_route inner) (\<lambda>b. inner b \<noteq> None)"
  unfolding tree_routes_def tree_routes_axioms_def
proof (intro conjI allI impI dummy_numbered [OF wf])
  fix b p
  show "inner b \<noteq> None \<Longrightarrow> dummy_par inner b = Some p \<Longrightarrow> inner p \<noteq> None"
    using wf dummy_par_Some [OF wf] by (fastforce simp: dummy_wf_def)
  show "\<not> inner b \<noteq> None \<Longrightarrow> dummy_par inner b = None" by (simp add: dummy_par_def)
next
  fix a b
  assume n: "dummy_route inner b a = None"
  show "\<not> inner b \<noteq> None \<or> \<not> inner a \<noteq> None"
  proof (rule ccontr)
    assume k: "\<not> (\<not> inner b \<noteq> None \<or> \<not> inner a \<noteq> None)"
    then have "root \<in> set (dummy_ancestors inner b)" "root \<in> set (dummy_ancestors inner a)"
      using root dummy_ancestors_set [OF wf] by auto
    then show False using n k by (auto simp: dummy_route_def split: if_splits list.splits)
  qed
next
  fix a b retracted c
  assume r: "dummy_route inner b a = Some (retracted, c)"
  show "(b = c \<and> retracted = []) \<or> (\<exists>xs. retracted = b # xs \<and> path (dummy_par inner) b (xs @ [c]))"
    by (rule dummy_route_path [OF wf r])
  obtain rest where s: "dummy_ancestors inner b = retracted @ c # rest" "descends (dummy_par inner) c a"
    "\<forall>x\<in>set retracted. \<not> descends (dummy_par inner) x a" using dummy_route_split [OF wf r] .
  show "descends (dummy_par inner) c a" by fact
  fix x
  assume x: "descends (dummy_par inner) x b" "descends (dummy_par inner) x a"
  then have "x \<in> set (c # rest)" using s dummy_ancestors_set [OF wf, of b] by auto
  moreover have "path (dummy_par inner) b (tl (dummy_ancestors inner b))"
    using dummy_line_spec(1) [OF wf] by (simp add: dummy_ancestors_def)
  then have "path (dummy_par inner) c rest"
    using s(1) by (cases retracted) (auto simp: dummy_ancestors_def path_append split: if_splits)
  ultimately show "descends (dummy_par inner) x c" using descends_path by fastforce
qed

lemma forked_par:
  "dummy_par forked_chain ''A'' = Some GENESIS_HASH" "dummy_par forked_chain ''B'' = Some ''A''"
  "dummy_par forked_chain ''C'' = Some ''B''" "dummy_par forked_chain ''D1'' = Some ''C''"
  "dummy_par forked_chain ''E1'' = Some ''D1''" "dummy_par forked_chain ''F1'' = Some ''E1''"
  "dummy_par forked_chain ''D2'' = Some ''C''" "dummy_par forked_chain ''E2'' = Some ''D2''"
  "dummy_par forked_chain ''F2'' = Some ''E2''"
  by (simp_all add: forked_chain_records dummy_par_def GENESIS_HASH_def NULL_HASH_def)

lemma forked_root: "forked_chain b \<noteq> None \<Longrightarrow> descends (dummy_par forked_chain) GENESIS_HASH b"
proof -
  assume "forked_chain b \<noteq> None"
  then have b: "b \<in> {GENESIS_HASH, ''A'', ''B'', ''C'', ''D1'', ''E1'', ''F1'', ''D2'', ''E2'', ''F2''}"
    by (auto simp: forked_chain_records split: if_splits)
  have up: "dummy_par forked_chain c = Some p \<Longrightarrow> descends (dummy_par forked_chain) GENESIS_HASH p
      \<Longrightarrow> descends (dummy_par forked_chain) GENESIS_HASH c" for c p
    using descends_step [of "dummy_par forked_chain" GENESIS_HASH c] by auto
  note c = up [OF forked_par(3) up [OF forked_par(2) up [OF forked_par(1) descends_refl]]]
  note d1 = up [OF forked_par(4) c] and d2 = up [OF forked_par(7) c]
  note e1 = up [OF forked_par(5) d1] and e2 = up [OF forked_par(8) d2]
  show ?thesis
    using b c d1 d2 e1 e2 up [OF forked_par(6) e1] up [OF forked_par(9) e2] up [OF forked_par(1) descends_refl]
      up [OF forked_par(2) up [OF forked_par(1) descends_refl]] by blast
qed

interpretation forked_routes: tree_routes "dummy_par forked_chain" "dummy_number forked_chain" "dummy_route forked_chain"
    "\<lambda>b. forked_chain b \<noteq> None"
  by (rule dummy_tree_routes [OF forked_chain_wf forked_root])

end
