(* ===== verification/Round_Examples.thy ===== *)
theory Round_Examples
  imports Grandpa_Round Dummy_Chain
begin

text \<open>
  Rounds evaluated on concrete chains, for the examples in the theories of rounds: the equations
  that compute the operations, and a run of imports from a list of messages.
\<close>

lemma word_loop_numeral:
  "word_loop lookup val_idx i (numeral k) word (prevote, precommit) =
     (if word = 0 then (prevote, precommit)
      else word_loop lookup val_idx (Suc i) (pred_numeral k) (push_bit 2 word)
        (if word AND push_bit 63 1 = push_bit 63 1 then prevote + lookup (val_idx + i) else prevote,
         if word AND push_bit 62 1 = push_bit 62 1 then precommit + lookup (val_idx + i) else precommit))"
  by (simp add: numeral_eq_Suc)

lemma numeral_le_one: "(numeral k :: 'w::len word) \<le> 1 \<longleftrightarrow> unat (numeral k :: 'w word) \<le> unat (1 :: 'w word)"
  by (simp add: word_le_nat_alt)

lemmas chain_eval = dummy_chain_ancestry_def dummy_ancestry.simps GENESIS_HASH_def NULL_HASH_def
lemmas graph_eval = graph_new_def graph_insert_def find_containing_nodes_def containing_loop.simps in_direct_ancestry_def
  ancestor_block_def append_node_def find_index_def add_vote_loop.simps ancestor_node_def find_ghost_def ghost_start_def
  ghost_loop.simps ghost_find_merge_point_def merge_loop.simps subchain_best_def constrained_def has_block_def
  block_search_def find_ancestor_def back_loop.simps blocks_reverse_def introduce_branch_def
lemmas weight_eval = vote_weight_add_def vote_weight_default_def vote_total_weight_def lookup_weight_def
  weight_by_index_def live_set_bit_def with_voters_def bitfield_set_bit_def word_loop_numeral numeral_le_one saturating_sub_def
  saturating_add_def prevote_bitfield_def precommit_bitfield_def equivocated_prevote_def equivocated_precommit_def
  shared_new_def voter_set_from_iter_def voter_info_def voters_len_def voters_total_weight_def threshold_def
lemmas round_eval = import_prevote_def import_precommit_def round_new_def tracker_new_def add_vote_def
  update_prevote_ghost_def round_update_def round_threshold_def prevote_supermajority_def precommit_supermajority_def
  possible_to_precommit_def update_finalized_def update_estimate_def update_completable_def precommit_ghost_def Let_def

text \<open>Importing signed messages in turn; \<open>None\<close> when an import fails or panics.\<close>

fun import_messages ::
  "('h \<Rightarrow> 'h \<Rightarrow> 'h list option) \<Rightarrow> ('i \<times> 's \<times> 'h::linorder Message) list \<Rightarrow> ('i, 'h, 's) Round \<Rightarrow> ('i, 'h, 's) Round option" where
  "import_messages anc [] r = Some r"
| "import_messages anc ((i, s, PrevoteMsg v) # ms) r =
     (case import_prevote anc v i s r of Some (Inr e, r') \<Rightarrow> import_messages anc ms r' | _ \<Rightarrow> None)"
| "import_messages anc ((i, s, PrecommitMsg v) # ms) r =
     (case import_precommit anc v i s r of Some (Inr e, r') \<Rightarrow> import_messages anc ms r' | _ \<Rightarrow> None)"

definition prevote_on :: "string \<Rightarrow> u64 \<Rightarrow> nat \<Rightarrow> nat \<times> nat \<times> string Message" where
  "prevote_on h n i = (i, 0, PrevoteMsg \<lparr>pv_target_hash = h, pv_target_number = n\<rparr>)"

definition precommit_on :: "string \<Rightarrow> u64 \<Rightarrow> nat \<Rightarrow> nat \<times> nat \<times> string Message" where
  "precommit_on h n i = (i, 0, PrecommitMsg \<lparr>pc_target_hash = h, pc_target_number = n\<rparr>)"

text \<open>A round on the forked chain with four voters of weight 1, so the threshold is 3, and one with a single voter.\<close>

definition four_voters :: "(nat, string) RoundParams" where
  "four_voters = \<lparr>rp_round_number = 1, rp_voters = voter_set_from_iter [(0, 1), (1, 1), (2, 1), (3, 1)],
     rp_base = (GENESIS_HASH, 1)\<rparr>"

definition one_voter :: "(nat, string) RoundParams" where
  "one_voter = \<lparr>rp_round_number = 1, rp_voters = voter_set_from_iter [(0, 1)], rp_base = (GENESIS_HASH, 1)\<rparr>"


text \<open>A chain with two forks, \<open>genesis - A - {B - {C1, C2}, D}\<close>.\<close>

definition branching_chain :: block_records where
  "branching_chain = the (Option.bind (Option.bind (push_blocks GENESIS_HASH [''A'', ''B'', ''C1''] dummy_new)
     (push_blocks ''B'' [''C2''])) (push_blocks ''A'' [''D'']))"

lemma branching_chain_records:
  "branching_chain = [GENESIS_HASH \<mapsto> \<lparr>br_number = 1, br_parent = NULL_HASH\<rparr>,
     ''A'' \<mapsto> \<lparr>br_number = 2, br_parent = GENESIS_HASH\<rparr>, ''B'' \<mapsto> \<lparr>br_number = 3, br_parent = ''A''\<rparr>,
     ''C1'' \<mapsto> \<lparr>br_number = 4, br_parent = ''B''\<rparr>, ''C2'' \<mapsto> \<lparr>br_number = 4, br_parent = ''B''\<rparr>,
     ''D'' \<mapsto> \<lparr>br_number = 3, br_parent = ''A''\<rparr>]"
  by (simp add: branching_chain_def push_blocks_def dummy_new_def GENESIS_HASH_def)

lemma branching_chain_wf: "dummy_wf branching_chain"
  unfolding branching_chain_records dummy_wf_def by (auto simp: NULL_HASH_def GENESIS_HASH_def split: if_splits)


end
