(* ===== verification/Round_Theorems.thy ===== *)
theory Round_Theorems
  imports Round_Safety Round_Examples
begin

text \<open>
  What holds of every round that imports can reach from a new one: the prevote-GHOST is right,
  a finalized block has a supermajority of precommits, and conflicting finalized blocks convict more
  weight of equivocation than the protocol tolerates. Weights are stated over the identities of the voters.
\<close>

section \<open>Reachable rounds\<close>

inductive reachable_round ::
  "('h \<Rightarrow> u64) \<Rightarrow> ('h \<Rightarrow> 'h \<Rightarrow> 'h list option) \<Rightarrow> ('i, 'h::linorder) RoundParams \<Rightarrow> ('i, 'h, 's) Round \<Rightarrow> bool"
  for number anc params where
  start: "reachable_round number anc params (round_new params)"
| prevote: "reachable_round number anc params r \<Longrightarrow> pv_target_number v = number (pv_target_hash v) \<Longrightarrow>
    import_prevote anc v i s r = Some (res, r') \<Longrightarrow> reachable_round number anc params r'"
| precommit: "reachable_round number anc params r \<Longrightarrow> pc_target_number w = number (pc_target_hash w) \<Longrightarrow>
    import_precommit anc w i s r = Some (res', r') \<Longrightarrow> reachable_round number anc params r'"
| ghost: "reachable_round number anc params r \<Longrightarrow> precommit_ghost r = Some (g, r') \<Longrightarrow> reachable_round number anc params r'"

lemma precommit_ghost_returns:
  assumes chain: "block_chain par number anc" and inv: "round_inv par number (r :: ('i, 'h::linorder, 's) Round)"
  shows "\<exists>x. precommit_ghost r = Some (x, r\<lparr>rd_precommit_ghost := x\<rparr>) \<and> round_inv par number (r\<lparr>rd_precommit_ghost := x\<rparr>)"
proof (cases "round_threshold r \<le> vt_current_weight (rd_precommit r)")
  case True
  have core: "round_core par number r" and m: "marked par number r (precommitted r) (rd_precommit_ghost r)"
    using inv by (simp_all add: round_inv_def)
  obtain b where b: "rd_precommit_ghost r = map_option (\<lambda>t. (t, number t)) b" using marked_numbered [OF m] .
  obtain c where c: "find_ghost vote_weight_add (rd_graph r) (rd_precommit_ghost r) (precommit_supermajority r)
      = Some (map_option (\<lambda>t. (t, number t)) c)"
    "\<forall>t. c = Some t \<longrightarrow> precommitted r (votes_for par r t) \<and> descends par (round_base r) t"
    using graph_scan.find_ghost_returns [OF precommit_scan [OF chain core], of b] b by auto
  then show ?thesis using True inv search_marked [OF c(2)] by (simp add: precommit_ghost_def round_inv_def)
qed (use inv in \<open>auto simp: precommit_ghost_def\<close>)

lemma ghost_ok_precommit_ghost: "ghost_ok par (r\<lparr>rd_precommit_ghost := x\<rparr>) = ghost_ok par r"
  by (rule ghost_ok_same) simp_all

lemma round_new_fields:
  "rd_voters (round_new params) = rp_voters params" "round_base (round_new params) = fst (rp_base params)"
  "rd_prevote_ghost (round_new params) = None" "rd_prevote (round_new params) = tracker_new"
  "rd_precommit (round_new params) = tracker_new" "rd_precommit_ghost (round_new params) = None"
  by (simp_all add: round_new_def graph_new_def split: prod.split)

lemma ghost_ok_new:
  assumes "voters_ok (rp_voters params)"
  shows "ghost_ok par (round_new params)"
proof -
  have "round_cast par (round_new params :: ('a, 'b, 'c) Round) = (\<lambda>_. {})"
    by (simp add: fun_eq_iff round_cast_def round_new_fields round_votes_def tracker_new_def vote_bits_def)
  then have "votes_for par (round_new params :: ('a, 'b, 'c) Round) h = {}" for h by (simp add: cast_above_def)
  then show ?thesis by (simp add: ghost_ok_def round_new_fields)
qed

definition round_reached ::
  "('h \<rightharpoonup> 'h) \<Rightarrow> ('h \<Rightarrow> u64) \<Rightarrow> ('i, 'h) RoundParams \<Rightarrow> ('i, 'h, 's) Round \<Rightarrow> bool" where
  "round_reached par number params r \<longleftrightarrow> round_inv par number r \<and> ghost_ok par r
     \<and> rd_voters r = rp_voters params \<and> round_base r = fst (rp_base params)"

lemma reachable_inv:
  assumes chain: "block_chain par number anc" and p: "voters_ok (rp_voters params)" "rp_base params = (base, number base)"
  shows "reachable_round number anc params r \<Longrightarrow> round_reached par number params r"
proof (induction rule: reachable_round.induct)
  case start
  show ?case by (simp add: round_reached_def round_new_fields round_new_inv [where number = number, OF p] ghost_ok_new [OF p(1)])
next
  case (prevote r v i s res r')
  then show ?case using import_prevote_spec [OF chain _ prevote(2), of r i s] by (auto simp: round_reached_def kept_def)
next
  case (precommit r v i s res r')
  then show ?case using import_precommit_spec [OF chain _ precommit(2), of r i s] by (auto simp: round_reached_def kept_def)
next
  case (ghost r g r')
  then show ?case
    using precommit_ghost_returns [OF chain, of r] by (auto simp: round_reached_def ghost_ok_precommit_ghost)
qed

lemma reachable_messages:
  "import_messages anc ms r = Some r' \<Longrightarrow> reachable_round number anc params r \<Longrightarrow>
     \<forall>(i, s, m)\<in>set ms. snd (message_target m) = number (fst (message_target m)) \<Longrightarrow> reachable_round number anc params r'"
proof (induction anc ms r rule: import_messages.induct)
  case (2 anc i s v ms r)
  then show ?case using reachable_round.prevote [OF 2(3)] by (auto split: option.splits sum.splits)
next
  case (3 anc i s v ms r)
  then show ?case using reachable_round.precommit [OF 3(3)] by (auto split: option.splits sum.splits)
qed simp

section \<open>Weights of identities\<close>

text \<open>The voters that back a block: those whose first vote is at or above it, and all equivocators.\<close>

definition backing :: "('v \<Rightarrow> 'h) \<Rightarrow> ('h \<rightharpoonup> 'h) \<Rightarrow> ('i \<times> ('v, 's) VoteMultiplicity) list \<Rightarrow> 'h \<Rightarrow> 'i set" where
  "backing target par votes h = {i. \<exists>m. map_of votes i = Some m
     \<and> ((\<exists>a b. m = Equivocated a b) \<or> descends par h (target (first_vote m)))}"

abbreviation weight_of :: "'i VoterSet \<Rightarrow> 'i set \<Rightarrow> nat" where "weight_of vs I \<equiv> \<Sum>i\<in>I. voter_weight vs i"

lemma backing_finite: "finite (backing target par votes h)"
  by (rule finite_subset [of _ "fst ` set votes"]) (force simp: backing_def dest: map_of_SomeD)+

lemma index_weight_image:
  assumes vs: "voters_ok vs"
  shows "finite I \<Longrightarrow> \<forall>i\<in>I. voter_info vs i \<noteq> None \<Longrightarrow> index_weight vs (voter_index vs ` I) = weight_of vs I"
proof (induction I rule: finite_induct)
  case empty
  show ?case by (simp add: index_weight_def)
next
  case (insert i I)
  obtain info where i: "voter_info vs i = Some info" using insert.prems by auto
  have "voter_index vs i \<notin> voter_index vs ` I"
    using voter_index_inj [OF vs, of i] insert.prems insert.hyps(2) i by force
  then show ?case using index_weight_insert [OF vs i] insert i by (simp add: voter_weight_def)
qed

lemma odd_bits:
  "2 * k + 1 \<in> vote_bits 0 target vs votes t \<longleftrightarrow> False" "2 * k + 1 \<in> equivocator_bits 0 vs votes \<longleftrightarrow> False"
proof -
  have "2 * k + 1 \<noteq> 2 * l" for l by presburger
  then show "2 * k + 1 \<in> vote_bits 0 target vs votes t \<longleftrightarrow> False" "2 * k + 1 \<in> equivocator_bits 0 vs votes \<longleftrightarrow> False"
    by (auto simp: vote_bits_def equivocator_bits_def)
qed

lemma precommitting_votes:
  assumes core: "round_core par number r" and h: "descends par (round_base r) h"
  shows "precommitting (votes_for par r h \<union> round_equivocators r)
    = voter_index (rd_voters r) ` backing pc_target_hash par (vt_votes (rd_precommit r)) h"
proof -
  have d: "descends par (round_base r) t" if "descends par h t" for t using descends_trans [OF h that] .
  have "2 * k + 1 \<in> votes_for par r h \<union> round_equivocators r \<longleftrightarrow>
      (\<exists>t. descends par h t \<and> 2 * k + 1 \<in> vote_bits 1 pc_target_hash (rd_voters r) (vt_votes (rd_precommit r)) t)
      \<or> 2 * k + 1 \<in> equivocator_bits 1 (rd_voters r) (vt_votes (rd_precommit r))" for k
    unfolding round_coreD(5) [OF core] cast_above_def Un_iff odd_bits using d
    by (auto simp: round_cast_def round_votes_def odd_bits [simplified])
  then show ?thesis
    unfolding precommitting_def backing_def vote_bits_def equivocator_bits_def by auto
qed

lemma precommitted_weight:
  assumes core: "round_core par number r" and h: "descends par (round_base r) h"
  shows "precommitted r (votes_for par r h) \<longleftrightarrow>
    unat (vs_threshold (rd_voters r)) \<le> weight_of (rd_voters r) (backing pc_target_hash par (vt_votes (rd_precommit r)) h)"
proof -
  have "\<forall>i\<in>backing pc_target_hash par (vt_votes (rd_precommit r)) h. voter_info (rd_voters r) i \<noteq> None"
    using round_coreD(7) [OF core] by (force simp: backing_def tracker_ok_def dest: map_of_SomeD)
  then show ?thesis
    using index_weight_image [OF round_coreD(1) [OF core] backing_finite, of pc_target_hash par "vt_votes (rd_precommit r)" h]
    by (simp add: precommit_quorum_def precommitting_votes [OF assms])
qed

text \<open>The same for prevotes, and for the equivocators alone.\<close>

lemma even_bits:
  "2 * k \<in> vote_bits 1 target vs votes t \<longleftrightarrow> False" "2 * k \<in> equivocator_bits 1 vs votes \<longleftrightarrow> False"
proof -
  have "2 * k \<noteq> 2 * l + 1" for l by presburger
  then show "2 * k \<in> vote_bits 1 target vs votes t \<longleftrightarrow> False" "2 * k \<in> equivocator_bits 1 vs votes \<longleftrightarrow> False"
    by (auto simp: vote_bits_def equivocator_bits_def)
qed

definition equivocators_of :: "('i, 'v, 's) VoteTracker \<Rightarrow> 'i set" where
  "equivocators_of t = {i. \<exists>a b. map_of (vt_votes t) i = Some (Equivocated a b)}"

lemma prevoting_votes:
  assumes core: "round_core par number r" and h: "descends par (round_base r) h"
  shows "prevoting (votes_for par r h \<union> round_equivocators r)
      = voter_index (rd_voters r) ` backing pv_target_hash par (vt_votes (rd_prevote r)) h"
    and "prevoting (round_equivocators r) = voter_index (rd_voters r) ` equivocators_of (rd_prevote r)"
proof -
  have d: "descends par (round_base r) t" if "descends par h t" for t using descends_trans [OF h that] .
  have "2 * k \<in> votes_for par r h \<union> round_equivocators r \<longleftrightarrow>
      (\<exists>t. descends par h t \<and> 2 * k \<in> vote_bits 0 pv_target_hash (rd_voters r) (vt_votes (rd_prevote r)) t)
      \<or> 2 * k \<in> equivocator_bits 0 (rd_voters r) (vt_votes (rd_prevote r))" for k
    unfolding round_coreD(5) [OF core] cast_above_def Un_iff even_bits using d
    by (auto simp: round_cast_def round_votes_def even_bits [simplified])
  then show "prevoting (votes_for par r h \<union> round_equivocators r)
      = voter_index (rd_voters r) ` backing pv_target_hash par (vt_votes (rd_prevote r)) h"
    unfolding prevoting_def backing_def vote_bits_def equivocator_bits_def by auto
  show "prevoting (round_equivocators r) = voter_index (rd_voters r) ` equivocators_of (rd_prevote r)"
    unfolding round_coreD(5) [OF core] prevoting_def Un_iff even_bits
    by (auto simp: equivocators_of_def equivocator_bits_def)
qed

lemma prevoted_weights:
  assumes core: "round_core par number r" and h: "descends par (round_base r) h"
  shows "prevoted r (votes_for par r h) \<longleftrightarrow>
      unat (vs_threshold (rd_voters r)) \<le> weight_of (rd_voters r) (backing pv_target_hash par (vt_votes (rd_prevote r)) h)"
    and "prevoted r {} \<longleftrightarrow> unat (vs_threshold (rd_voters r)) \<le> weight_of (rd_voters r) (equivocators_of (rd_prevote r))"
proof -
  have known: "\<forall>i\<in>backing pv_target_hash par (vt_votes (rd_prevote r)) h. voter_info (rd_voters r) i \<noteq> None"
    "\<forall>i\<in>equivocators_of (rd_prevote r). voter_info (rd_voters r) i \<noteq> None"
    using round_coreD(6) [OF core] by (force simp: backing_def equivocators_of_def tracker_ok_def dest: map_of_SomeD)+
  have sub: "equivocators_of (rd_prevote r) \<subseteq> backing pv_target_hash par (vt_votes (rd_prevote r)) h"
    by (auto simp: equivocators_of_def backing_def)
  note image = index_weight_image [OF round_coreD(1) [OF core]]
  show "prevoted r (votes_for par r h) \<longleftrightarrow>
      unat (vs_threshold (rd_voters r)) \<le> weight_of (rd_voters r) (backing pv_target_hash par (vt_votes (rd_prevote r)) h)"
    using image [OF backing_finite known(1)] by (simp add: prevote_quorum_def prevoting_votes(1) [OF assms])
  show "prevoted r {} \<longleftrightarrow> unat (vs_threshold (rd_voters r)) \<le> weight_of (rd_voters r) (equivocators_of (rd_prevote r))"
    using image [OF finite_subset [OF sub backing_finite] known(2)] by (simp add: prevote_quorum_def prevoting_votes(2) [OF assms])
qed

text \<open>What a voter has signed, in the order of the tracker.\<close>

definition signed_votes :: "('i, 'v, 's) VoteTracker \<Rightarrow> 'i \<Rightarrow> ('v \<times> 's) set" where
  "signed_votes t i = {(v, s). (i, v, s) \<in> set (tracker_votes t)}"

lemma signed_iff:
  assumes "tracker_ok vs t"
  shows "signed_votes t i = (case map_of (vt_votes t) i of None \<Rightarrow> {} | Some m \<Rightarrow> set (multiplicity_votes m))"
proof -
  have "(i, m) \<in> set (vt_votes t) \<longleftrightarrow> map_of (vt_votes t) i = Some m" for m
    using assms by (simp add: tracker_ok_def)
  then have "(i, v, s) \<in> set (tracker_votes t) \<longleftrightarrow> (\<exists>m. map_of (vt_votes t) i = Some m \<and> (v, s) \<in> set (multiplicity_votes m))" for v s
    by (force simp: tracker_votes_def)
  then show ?thesis by (auto simp: signed_votes_def split: option.splits)
qed

lemma signed_tracked: "a \<in> signed_votes t i \<Longrightarrow> i \<in> fst ` set (vt_votes t)"
  by (auto simp: signed_votes_def tracker_votes_def image_iff) force

lemma backing_signed:
  assumes t: "tracker_ok vs t" and i: "i \<in> backing target par (vt_votes t) h"
  shows "(\<exists>a b. a \<in> signed_votes t i \<and> b \<in> signed_votes t i \<and> a \<noteq> b) \<or> (\<exists>a. a \<in> signed_votes t i \<and> descends par h (target (fst a)))"
proof -
  obtain m where m: "map_of (vt_votes t) i = Some m" "(\<exists>a b. m = Equivocated a b) \<or> descends par h (target (first_vote m))"
    using i by (auto simp: backing_def)
  show ?thesis
  proof (cases m)
    case (Single v s)
    then show ?thesis using m by (auto simp: signed_iff [OF t])
  next
    case (Equivocated a b)
    moreover from this have "a \<noteq> b" using t m(1) unfolding tracker_ok_def by blast
    ultimately have "a \<in> signed_votes t i \<and> b \<in> signed_votes t i \<and> a \<noteq> b" using m by (simp add: signed_iff [OF t])
    then show ?thesis by blast
  qed
qed

lemma double_vote:
  assumes "(\<exists>a b. a \<in> X \<and> b \<in> X \<and> a \<noteq> b) \<or> (\<exists>a. a \<in> X \<and> P (f a))"
    and "(\<exists>a b. a \<in> Y \<and> b \<in> Y \<and> a \<noteq> b) \<or> (\<exists>a. a \<in> Y \<and> Q (f a))" and "\<And>x. \<not> (P x \<and> Q x)"
  shows "\<exists>a b. a \<noteq> b \<and> {a, b} \<subseteq> X \<union> Y"
proof -
  from assms(1,2) consider a b where "{a, b} \<subseteq> X \<union> Y" "a \<noteq> b" | a b where "a \<in> X" "P (f a)" "b \<in> Y" "Q (f b)" by blast
  then show ?thesis
  proof cases
    case (2 a b)
    then have "a \<noteq> b" using assms(3) by auto
    then show ?thesis using 2 by (intro exI [of _ a] exI [of _ b]) simp
  qed blast
qed

lemma finalized_backing:
  assumes r: "round_reached par number params r" and f: "rd_finalized r = Some (h, n)"
  shows "n = number h" "descends par (fst (rp_base params)) h"
    "unat (vs_threshold (rp_voters params)) \<le> weight_of (rp_voters params) (backing pc_target_hash par (vt_votes (rd_precommit r)) h)"
proof -
  have "round_core par number r" "marked par number r (precommitted r) (rd_finalized r)" "rd_voters r = rp_voters params"
    "round_base r = fst (rp_base params)" using r unfolding round_reached_def round_inv_def by blast+
  then show "n = number h" "descends par (fst (rp_base params)) h"
    "unat (vs_threshold (rp_voters params)) \<le> weight_of (rp_voters params) (backing pc_target_hash par (vt_votes (rd_precommit r)) h)"
    using f precommitted_weight [of par number r h] by (simp_all add: marked_def)
qed

lemma weight_inter:
  assumes vs: "voters_ok vs" and "finite A" "finite B" "\<forall>i\<in>A \<union> B. voter_info vs i \<noteq> None"
  shows "weight_of vs A + weight_of vs B \<le> unat (voters_total_weight vs) + weight_of vs (A \<inter> B)"
proof -
  have "weight_of vs A + weight_of vs B = weight_of vs (A \<union> B) + weight_of vs (A \<inter> B)"
    using sum.union_inter [OF assms(2,3), of "voter_weight vs"] by simp
  moreover have "weight_of vs (A \<union> B) \<le> unat (voters_total_weight vs)"
    using index_weight_image [OF vs _ assms(4)] assms(2,3) index_weight_le_total [OF vs, of "voter_index vs ` (A \<union> B)"] by simp
  ultimately show ?thesis by simp
qed

lemma one_voter_ok:
  "voters_ok (rp_voters one_voter)" "rp_base one_voter = (GENESIS_HASH, dummy_number forked_chain GENESIS_HASH)"
  by (auto simp: one_voter_def voters_ok_def intro!: exI [of _ "[(0, 1)]"])
    (simp add: dummy_number_def forked_chain_records GENESIS_HASH_def)

lemma four_voters_ok:
  "voters_ok (rp_voters four_voters)" "rp_base four_voters = (GENESIS_HASH, dummy_number forked_chain GENESIS_HASH)"
  by (auto simp: four_voters_def voters_ok_def intro!: exI [of _ "[(0, 1), (1, 1), (2, 1), (3, 1)]"])
    (simp add: dummy_number_def forked_chain_records GENESIS_HASH_def)

section \<open>Safety\<close>

text \<open>
  C19: accountable safety. Take two states of one round, as two nodes may have reached by importing
  votes in any order. If they finalize blocks neither of which is above the other, then the voters of whom the two
  states together hold two different signed precommits weigh more than the weight the threshold
  tolerates as faulty.
\<close>

theorem round_accountable_safety:
  assumes chain: "block_chain par number anc"
    and params: "voters_ok (rp_voters params)" "rp_base params = (base, number base)"
    and reach: "reachable_round number anc params r1" "reachable_round number anc params r2"
    and final: "rd_finalized r1 = Some (h1, n1)" "rd_finalized r2 = Some (h2, n2)"
    and conflict: "\<not> descends par h1 h2" "\<not> descends par h2 h1"
  shows "unat (voters_total_weight (rp_voters params)) - unat (vs_threshold (rp_voters params))
    < (\<Sum>i | \<exists>a b. a \<noteq> b \<and> {a, b} \<subseteq> signed_votes (rd_precommit r1) i \<union> signed_votes (rd_precommit r2) i. voter_weight (rp_voters params) i)"
    (is "_ < sum _ ?guilty")
proof -
  let ?vs = "rp_voters params"
  note r1 = reachable_inv [OF chain params reach(1)] and r2 = reachable_inv [OF chain params reach(2)]
  let ?A = "backing pc_target_hash par (vt_votes (rd_precommit r1)) h1"
    and ?B = "backing pc_target_hash par (vt_votes (rd_precommit r2)) h2"
  have t: "tracker_ok ?vs (rd_precommit r1)" "tracker_ok ?vs (rd_precommit r2)"
    using r1 r2 by (auto simp: round_reached_def round_inv_def round_core_def)
  have known: "\<forall>i\<in>?A \<union> ?B. voter_info ?vs i \<noteq> None"
    using t by (force simp: backing_def tracker_ok_def dest: map_of_SomeD)
  have "i \<in> ?guilty" if "i \<in> ?A \<inter> ?B" for i
  proof -
    have "\<not> (descends par h1 x \<and> descends par h2 x)" for x using descends_linear [of par h1 x h2] conflict by blast
    then have "\<exists>a b. a \<noteq> b \<and> {a, b} \<subseteq> signed_votes (rd_precommit r1) i \<union> signed_votes (rd_precommit r2) i"
      using that backing_signed [OF t(1), of i pc_target_hash par h1] backing_signed [OF t(2), of i pc_target_hash par h2]
      by (intro double_vote [of _ "descends par h1" "\<lambda>a. pc_target_hash (fst a)" _ "descends par h2"]) blast+
    then show ?thesis by simp
  qed
  moreover have "finite ?guilty"
  proof (rule finite_subset)
    show "?guilty \<subseteq> fst ` set (vt_votes (rd_precommit r1)) \<union> fst ` set (vt_votes (rd_precommit r2))"
      using signed_tracked by fastforce
  qed simp
  ultimately have "weight_of ?vs (?A \<inter> ?B) \<le> weight_of ?vs ?guilty" by (intro sum_mono2) auto
  moreover have "weight_of ?vs ?A + weight_of ?vs ?B \<le> unat (voters_total_weight ?vs) + weight_of ?vs (?A \<inter> ?B)"
    by (rule weight_inter [OF params(1) backing_finite backing_finite known])
  moreover have "unat (vs_threshold ?vs) \<le> weight_of ?vs ?A" "unat (vs_threshold ?vs) \<le> weight_of ?vs ?B"
    using finalized_backing(3) [OF r1 final(1)] finalized_backing(3) [OF r2 final(2)] by simp_all
  moreover have "3 * (unat (voters_total_weight ?vs) - unat (vs_threshold ?vs)) < unat (voters_total_weight ?vs)"
    using grandpa_quorum.faulty_third [of "voters_total_weight ?vs"] voters_ok_total [OF params(1)] by simp
  ultimately show ?thesis by linarith
qed

theorem round_accountable_safety_witness:
  "let r = (\<lambda>h. the (import_messages (dummy_chain_ancestry forked_chain) [prevote_on h 5 0, precommit_on h 5 0] (round_new one_voter)))
   in 0 < (\<Sum>i | \<exists>a b. a \<noteq> b \<and> {a, b} \<subseteq> signed_votes (rd_precommit (r ''D1'')) i \<union> signed_votes (rd_precommit (r ''D2'')) i.
        voter_weight (rp_voters one_voter) i)"
proof -
  let ?run = "\<lambda>h. import_messages (dummy_chain_ancestry forked_chain) [prevote_on h 5 0, precommit_on h 5 0] (round_new one_voter)"
  have run: "\<exists>r. ?run h = Some r \<and> reachable_round (dummy_number forked_chain) (dummy_chain_ancestry forked_chain) one_voter r
      \<and> rd_finalized r = Some (h, 5)" if h: "h = ''D1'' \<or> h = ''D2''" for h
  proof -
    have "map_option rd_finalized (?run h) = Some (Some (h, 5))"
      using h by (elim disjE) (simp_all add: one_voter_def prevote_on_def precommit_on_def chain_eval graph_eval weight_eval
        round_eval forked_chain_records)
    then obtain r where "?run h = Some r" "rd_finalized r = Some (h, 5)" by auto
    moreover from this(1) have "reachable_round (dummy_number forked_chain) (dummy_chain_ancestry forked_chain) one_voter r"
      using h by (elim reachable_messages) (auto intro: reachable_round.start simp: prevote_on_def precommit_on_def dummy_number_def forked_chain_records GENESIS_HASH_def)
    ultimately show ?thesis by blast
  qed
  obtain r1 r2 where r: "?run ''D1'' = Some r1" "?run ''D2'' = Some r2"
    "reachable_round (dummy_number forked_chain) (dummy_chain_ancestry forked_chain) one_voter r1"
    "reachable_round (dummy_number forked_chain) (dummy_chain_ancestry forked_chain) one_voter r2"
    "rd_finalized r1 = Some (''D1'', 5)" "rd_finalized r2 = Some (''D2'', 5)" using run [of "''D1''"] run [of "''D2''"] by blast
  have conflict: "\<not> descends (dummy_par forked_chain) ''D1'' ''D2''" "\<not> descends (dummy_par forked_chain) ''D2'' ''D1''"
    using forked.descends_number [of "''D1''" "''D2''"] forked.descends_number [of "''D2''" "''D1''"]
    by (auto simp: dummy_number_def forked_chain_records GENESIS_HASH_def)
  have "0 < (\<Sum>i | \<exists>a b. a \<noteq> b \<and> {a, b} \<subseteq> signed_votes (rd_precommit r1) i \<union> signed_votes (rd_precommit r2) i.
        voter_weight (rp_voters one_voter) i)"
    using round_accountable_safety [OF forked.block_chain_axioms one_voter_ok r(3-6) conflict] by simp
  then show ?thesis using r(1,2) by simp
qed

section \<open>The results of a round\<close>

text \<open>
  A block that a round reports as finalized is above the base of the round and has a
  supermajority: the voters whose first precommit is on it or above it, together with the voters caught
  precommitting twice, reach the threshold.
\<close>

theorem finalized_supermajority:
  assumes "block_chain par number anc" and "voters_ok (rp_voters params)" "rp_base params = (base, number base)"
    and "reachable_round number anc params r" and "rd_finalized r = Some (h, n)"
  shows "n = number h \<and> descends par base h \<and>
    unat (vs_threshold (rp_voters params)) \<le> weight_of (rp_voters params) (backing pc_target_hash par (vt_votes (rd_precommit r)) h)"
  using finalized_backing [OF reachable_inv [OF assms(1-4)] assms(5)] assms(3) by simp

theorem finalized_supermajority_witness:
  "let r = the (import_messages (dummy_chain_ancestry forked_chain) (map (prevote_on ''D1'' 5) [0, 1, 2] @ map (precommit_on ''D1'' 5) [0, 1, 2])
       (round_new four_voters))
   in 3 \<le> weight_of (rp_voters four_voters) (backing pc_target_hash (dummy_par forked_chain) (vt_votes (rd_precommit r)) ''D1'')"
proof -
  let ?run = "import_messages (dummy_chain_ancestry forked_chain) (map (prevote_on ''D1'' 5) [0, 1, 2] @ map (precommit_on ''D1'' 5) [0, 1, 2])
       (round_new four_voters)"
  have "map_option rd_finalized ?run = Some (Some (''D1'', 5))"
    by (simp add: four_voters_def prevote_on_def precommit_on_def chain_eval graph_eval weight_eval round_eval forked_chain_records)
  then obtain r where r: "?run = Some r" "rd_finalized r = Some (''D1'', 5)" by auto
  moreover from this(1) have reach: "reachable_round (dummy_number forked_chain) (dummy_chain_ancestry forked_chain) four_voters r"
    by (elim reachable_messages) (auto intro: reachable_round.start
        simp: prevote_on_def precommit_on_def dummy_number_def forked_chain_records GENESIS_HASH_def)
  moreover have "unat (vs_threshold (rp_voters four_voters)) = 3"
    by (simp add: four_voters_def from_iter_spec(2) unat_threshold)
  ultimately show ?thesis
    using finalized_supermajority [OF forked.block_chain_axioms four_voters_ok reach r(2)] by (simp del: list.map)
qed

text \<open>
  C22: the prevote-GHOST. In every reachable round, unless the voters caught prevoting twice alone reach the
  threshold, the prevote-GHOST is a block above the base with a supermajority of
  prevotes none of whose children has one; when there is none, the base itself lacks the supermajority.
\<close>

theorem prevote_ghost_correct:
  assumes "block_chain par number anc" and "voters_ok (rp_voters params)" "rp_base params = (base, number base)"
    and "reachable_round number anc params r"
    and "weight_of (rp_voters params) (equivocators_of (rd_prevote r)) < unat (vs_threshold (rp_voters params))"
  shows "case rd_prevote_ghost r of
      None \<Rightarrow> weight_of (rp_voters params) (backing pv_target_hash par (vt_votes (rd_prevote r)) base) < unat (vs_threshold (rp_voters params))
    | Some (h, n) \<Rightarrow> n = number h \<and> descends par base h
        \<and> unat (vs_threshold (rp_voters params)) \<le> weight_of (rp_voters params) (backing pv_target_hash par (vt_votes (rd_prevote r)) h)
        \<and> (\<forall>c. par c = Some h \<longrightarrow>
             weight_of (rp_voters params) (backing pv_target_hash par (vt_votes (rd_prevote r)) c) < unat (vs_threshold (rp_voters params)))"
proof -
  have r: "round_core par number r" "ghost_ok par r" "marked par number r (prevoted r) (rd_prevote_ghost r)"
    "rd_voters r = rp_voters params" "round_base r = base"
    using reachable_inv [OF assms(1-4)] assms(3) unfolding round_reached_def round_inv_def by auto
  have w: "prevoted r (votes_for par r h) \<longleftrightarrow>
      unat (vs_threshold (rp_voters params)) \<le> weight_of (rp_voters params) (backing pv_target_hash par (vt_votes (rd_prevote r)) h)"
    if "descends par base h" for h using prevoted_weights(1) [OF r(1), of h] that r(4,5) by simp
  have e: "\<not> prevoted r {}" using prevoted_weights(2) [OF r(1), of base] assms(5) r(4,5) by simp
  have c: "descends par base c" if "descends par base h" "par c = Some h" for h c
    using descends_trans [OF that(1) descends_parent [of par, OF that(2)]] .
  show ?thesis
  proof (cases "rd_prevote_ghost r")
    case None
    then show ?thesis using r(2) e w [of base] r(5) by (simp add: ghost_ok_def)
  next
    case (Some x)
    then obtain h where h: "x = (h, number h)" "descends par base h" using r(3,5) by (cases x) (auto simp: marked_def)
    then show ?thesis using Some r(2) e w [OF h(2)] w [OF c [OF h(2)]] by (auto simp: ghost_ok_def not_le)
  qed
qed

theorem prevote_ghost_correct_witness:
  "let r = the (import_messages (dummy_chain_ancestry forked_chain) [prevote_on ''D1'' 5 0, prevote_on ''D2'' 5 1, prevote_on ''D1'' 5 2]
       (round_new four_voters))
   in rd_prevote_ghost r = Some (''C'', 4)
      \<and> 3 \<le> weight_of (rp_voters four_voters) (backing pv_target_hash (dummy_par forked_chain) (vt_votes (rd_prevote r)) ''C'')"
proof -
  let ?run = "import_messages (dummy_chain_ancestry forked_chain) [prevote_on ''D1'' 5 0, prevote_on ''D2'' 5 1, prevote_on ''D1'' 5 2]
       (round_new four_voters)"
  have "map_option (\<lambda>r. (rd_prevote_ghost r, map snd (vt_votes (rd_prevote r)))) ?run = Some (Some (''C'', 4),
      [Single \<lparr>pv_target_hash = ''D1'', pv_target_number = 5\<rparr> 0, Single \<lparr>pv_target_hash = ''D2'', pv_target_number = 5\<rparr> 0,
       Single \<lparr>pv_target_hash = ''D1'', pv_target_number = 5\<rparr> 0])"
    by (simp add: four_voters_def prevote_on_def precommit_on_def chain_eval graph_eval weight_eval round_eval forked_chain_records)
  then obtain r where r: "?run = Some r" "rd_prevote_ghost r = Some (''C'', 4)"
    "\<forall>m\<in>snd ` set (vt_votes (rd_prevote r)). \<exists>v s. m = Single v s" by (auto simp: map_eq_Cons_conv)
  have reach: "reachable_round (dummy_number forked_chain) (dummy_chain_ancestry forked_chain) four_voters r"
    using r(1) by (elim reachable_messages) (auto intro: reachable_round.start
        simp: prevote_on_def precommit_on_def dummy_number_def forked_chain_records GENESIS_HASH_def)
  have t: "unat (vs_threshold (rp_voters four_voters)) = 3"
    by (simp add: four_voters_def from_iter_spec(2) unat_threshold)
  have "equivocators_of (rd_prevote r) = {}" using r(3) by (force simp: equivocators_of_def dest: map_of_SomeD)
  then show ?thesis
    using prevote_ghost_correct [OF forked.block_chain_axioms four_voters_ok reach] r(1,2) t by simp
qed

text \<open>
  C23: importing a prevote never panics and never diverges, and reports exactly this: nothing for strangers, for
  repeated votes and for voters already caught; the equivocation when a voter's second, different vote comes in; and an error
  for a first vote on a block that is not above the base of the round. The round it leaves counts the vote in every case.
\<close>

theorem import_prevote_result:
  assumes "block_chain par number anc" and "voters_ok (rp_voters params)" "rp_base params = (base, number base)"
    and "reachable_round number anc params r" and "pv_target_number v = number (pv_target_hash v)"
  shows "\<exists>r'. import_prevote anc v i s r = Some (vote_result par pv_target_hash r (rd_prevote r) i v s, r')
    \<and> rd_prevote r' = tracked (rp_voters params) (rd_prevote r) i v s \<and> rd_precommit r' = rd_precommit r"
proof -
  have r: "round_inv par number r" "rd_voters r = rp_voters params"
    using reachable_inv [OF assms(1-4)] by (simp_all add: round_reached_def)
  show ?thesis using import_prevote_spec [OF assms(1) r(1) assms(5), of i s] r(2) by auto
qed

theorem import_prevote_result_witness:
  "\<exists>r'. import_prevote (dummy_chain_ancestry forked_chain) \<lparr>pv_target_hash = ''unknown'', pv_target_number = 0\<rparr> 0 (0::nat) (round_new one_voter)
    = Some (Inl (), r')"
proof -
  have "\<not> descends (dummy_par forked_chain) GENESIS_HASH ''unknown''"
    using forked.descends_number [of GENESIS_HASH "''unknown''"] by (auto simp: dummy_number_def forked_chain_records GENESIS_HASH_def)
  then have "vote_result (dummy_par forked_chain) pv_target_hash (round_new one_voter) (rd_prevote (round_new one_voter)) 0
      \<lparr>pv_target_hash = ''unknown'', pv_target_number = 0\<rparr> (0::nat) = Inl ()"
    by (simp add: vote_result_def round_new_fields tracker_new_def) (simp add: one_voter_def weight_eval)
  then show ?thesis
    using import_prevote_result [OF forked.block_chain_axioms one_voter_ok reachable_round.start,
        of "\<lparr>pv_target_hash = ''unknown'', pv_target_number = 0\<rparr>" 0 "0::nat"]
    by (auto simp: dummy_number_def forked_chain_records GENESIS_HASH_def)
qed

section \<open>The searches on a round of the forked chain\<close>

text \<open>The contracts of the graph operations, on the round of four voters in which three prevoted for different forks.\<close>

definition forked_round :: "(nat, string, nat) Round" where
  "forked_round = the (import_messages (dummy_chain_ancestry forked_chain)
     [prevote_on ''D1'' 5 0, prevote_on ''D2'' 5 1, prevote_on ''D1'' 5 2, precommit_on ''C'' 4 0] (round_new four_voters))"

lemma forked_round_reached:
  "round_reached (dummy_par forked_chain) (dummy_number forked_chain) four_voters forked_round" "round_equivocators forked_round = {}"
proof -
  let ?run = "import_messages (dummy_chain_ancestry forked_chain)
     [prevote_on ''D1'' 5 0, prevote_on ''D2'' 5 1, prevote_on ''D1'' 5 2, precommit_on ''C'' 4 0] (round_new four_voters)"
  have "map_option (\<lambda>r. sh_equivocators (rd_bitfield_context r)) ?run = Some Blank"
    by (simp add: four_voters_def prevote_on_def precommit_on_def chain_eval graph_eval weight_eval round_eval forked_chain_records)
  then obtain r where r: "?run = Some r" "sh_equivocators (rd_bitfield_context r) = Blank" by auto
  have "reachable_round (dummy_number forked_chain) (dummy_chain_ancestry forked_chain) four_voters r"
    using r(1) by (elim reachable_messages) (auto intro: reachable_round.start
        simp: prevote_on_def precommit_on_def dummy_number_def forked_chain_records GENESIS_HASH_def)
  from reachable_inv [OF forked.block_chain_axioms four_voters_ok this] show
    "round_reached (dummy_par forked_chain) (dummy_number forked_chain) four_voters forked_round" "round_equivocators forked_round = {}"
    using r by (simp_all add: forked_round_def)
qed

lemma forked_round_core: "round_core (dummy_par forked_chain) (dummy_number forked_chain) forked_round"
  using forked_round_reached(1) by (simp add: round_reached_def round_inv_def)

interpretation forked_votes: vote_graph_laws "dummy_par forked_chain" "dummy_number forked_chain" "dummy_chain_ancestry forked_chain"
  vote_weight_add vote_weight_default "weight_ok n" weight_votes for n
  by (rule round_laws [OF forked.block_chain_axioms])

interpretation forked_possible: graph_scan "dummy_par forked_chain" "dummy_number forked_chain" "dummy_chain_ancestry forked_chain"
  vote_weight_add vote_weight_default "weight_ok (voters_len (rd_voters forked_round))" weight_votes
  "round_cast (dummy_par forked_chain) forked_round" "rd_graph forked_round" "possible_to_precommit forked_round" "possible_quorum forked_round"
  by (rule possible_scan [OF forked.block_chain_axioms forked_round_core])

lemma forked_round_honest: "\<not> prevoted forked_round {}"
proof -
  have "rd_voters forked_round = rp_voters four_voters" using forked_round_reached(1) by (simp add: round_reached_def)
  then show ?thesis
    by (simp add: prevote_quorum_def forked_round_reached(2) prevoting_def index_weight_def)
      (simp add: four_voters_def from_iter_spec(2) unat_threshold)
qed

interpretation forked_prevotes: graph_search "dummy_par forked_chain" "dummy_number forked_chain" "dummy_chain_ancestry forked_chain"
  vote_weight_add vote_weight_default "weight_ok (voters_len (rd_voters forked_round))" weight_votes
  "round_cast (dummy_par forked_chain) forked_round" "rd_graph forked_round" "prevote_supermajority forked_round" "prevoted forked_round"
  by (rule prevote_search [OF forked.block_chain_axioms forked_round_core forked_round_honest])

end
