(* ===== verification/Round_Finality.thy ===== *)
theory Round_Finality
  imports Round_Theorems
begin

text \<open>
  Which block a round finalizes. While the voters caught precommitting twice weigh no more than
  tolerated, only one of two conflicting blocks can have a supermajority, and the search from a prevote-GHOST that is a
  vote-node finds the highest block at or below it that has one.
\<close>

section \<open>Supermajorities exclude each other\<close>

definition precommit_faults :: "('i, 'h, 's) Round \<Rightarrow> nat" where
  "precommit_faults r = weight_of (rd_voters r) (equivocators_of (rd_precommit r))"

definition tolerated :: "('i, 'h, 's) Round \<Rightarrow> nat" where
  "tolerated r = unat (voters_total_weight (rd_voters r)) - unat (vs_threshold (rd_voters r))"

lemma faults_weight:
  assumes core: "round_core par number r"
  shows "index_weight (rd_voters r) (precommitting (round_equivocators r)) = precommit_faults r"
proof -
  have "precommitting (round_equivocators r) = voter_index (rd_voters r) ` equivocators_of (rd_precommit r)"
    unfolding round_coreD(5) [OF core] precommitting_def Un_iff odd_bits
    by (auto simp: equivocators_of_def equivocator_bits_def)
  moreover have "equivocators_of (rd_precommit r) \<subseteq> fst ` set (vt_votes (rd_precommit r))"
    by (force simp: equivocators_of_def dest: map_of_SomeD)
  moreover from this have "finite (equivocators_of (rd_precommit r))" by (rule finite_subset) simp
  moreover have "\<forall>i\<in>equivocators_of (rd_precommit r). voter_info (rd_voters r) i \<noteq> None"
    using round_coreD(7) [OF core] by (force simp: equivocators_of_def tracker_ok_def dest: map_of_SomeD)
  ultimately show ?thesis
    using index_weight_image [OF round_coreD(1) [OF core]] by (simp add: precommit_faults_def)
qed

lemma precommits_disjoint:
  assumes core: "round_core par number r" and "\<not> descends par a b" "\<not> descends par b a"
  shows "precommitting (votes_for par r a) \<inter> precommitting (votes_for par r b) = {}"
proof (rule equals0I)
  fix k
  assume "k \<in> precommitting (votes_for par r a) \<inter> precommitting (votes_for par r b)"
  then obtain s t where st: "descends par a s" "2 * k + 1 \<in> round_cast par r s" "descends par b t" "2 * k + 1 \<in> round_cast par r t"
    by (auto simp: precommitting_def cast_above_def)
  have voter: "\<exists>i m. map_of (vt_votes (rd_precommit r)) i = Some m \<and> voter_index (rd_voters r) i = k \<and> pc_target_hash (first_vote m) = x"
    if "2 * k + 1 \<in> round_cast par r x" for x
  proof -
    have "2 * k + 1 \<in> vote_bits 1 pc_target_hash (rd_voters r) (vt_votes (rd_precommit r)) x"
      using that by (simp add: round_cast_def round_votes_def odd_bits [simplified] split: if_splits)
    then show ?thesis by (auto simp: vote_bits_def)
  qed
  obtain i m where i: "map_of (vt_votes (rd_precommit r)) i = Some m" "voter_index (rd_voters r) i = k" "pc_target_hash (first_vote m) = s"
    using voter [OF st(2)] by blast
  obtain j m' where j: "map_of (vt_votes (rd_precommit r)) j = Some m'" "voter_index (rd_voters r) j = k" "pc_target_hash (first_vote m') = t"
    using voter [OF st(4)] by blast
  have "voter_info (rd_voters r) i \<noteq> None" "voter_info (rd_voters r) j \<noteq> None"
    using i(1) j(1) round_coreD(7) [OF core] by (force simp: tracker_ok_def dest: map_of_SomeD)+
  then have "i = j" using voter_index_inj [OF round_coreD(1) [OF core], of i j] i(2) j(2) by simp
  then have "s = t" using i j by simp
  then show False using descends_linear [of par a t b] st assms(2,3) by auto
qed

lemma precommitted_exclusive:
  assumes core: "round_core par number r" and f: "precommit_faults r \<le> tolerated r"
    and ab: "precommitted r (votes_for par r a)" "precommitted r (votes_for par r b)"
  shows "descends par a b \<or> descends par b a"
proof (rule ccontr)
  assume "\<not> (descends par a b \<or> descends par b a)"
  then have d: "precommitting (votes_for par r a) \<inter> precommitting (votes_for par r b) = {}"
    using precommits_disjoint [OF core, of a b] by simp
  let ?vs = "rd_voters r" and ?E = "precommitting (round_equivocators r)"
  let ?A = "precommitting (votes_for par r a) - ?E" and ?B = "precommitting (votes_for par r b) - ?E"
  have "index_weight ?vs (?A \<union> ?E) = index_weight ?vs ?A + index_weight ?vs ?E" "index_weight ?vs (?B \<union> ?E) = index_weight ?vs ?B + index_weight ?vs ?E"
    "index_weight ?vs ((?A \<union> ?B) \<union> ?E) = index_weight ?vs (?A \<union> ?B) + index_weight ?vs ?E"
    "index_weight ?vs (?A \<union> ?B) = index_weight ?vs ?A + index_weight ?vs ?B"
    using d by (intro index_weight_disjoint; blast)+
  moreover have "unat (vs_threshold ?vs) \<le> index_weight ?vs (?A \<union> ?E)" "unat (vs_threshold ?vs) \<le> index_weight ?vs (?B \<union> ?E)"
    using ab by (simp_all add: precommit_quorum_def voting_Un)
  moreover have "index_weight ?vs ((?A \<union> ?B) \<union> ?E) \<le> unat (voters_total_weight ?vs)"
    by (rule index_weight_le_total [OF round_coreD(1) [OF core]])
  moreover have "3 * (unat (voters_total_weight ?vs) - unat (vs_threshold ?vs)) < unat (voters_total_weight ?vs)"
    using grandpa_quorum.faulty_third [of "voters_total_weight ?vs"] voters_ok_total [OF round_coreD(1) [OF core]] by simp
  ultimately show False using f faults_weight [OF core] unfolding tolerated_def by linarith
qed

lemma precommitted_not_empty:
  assumes core: "round_core par number r" and f: "precommit_faults r \<le> tolerated r"
  shows "\<not> precommitted r {}"
  using f faults_weight [OF core] grandpa_quorum.faulty_third [of "voters_total_weight (rd_voters r)"]
    voters_ok_total [OF round_coreD(1) [OF core]]
  by (simp add: precommit_quorum_def tolerated_def)

lemma precommit_search:
  assumes chain: "block_chain par number anc" and core: "round_core par number (r :: ('i, 'h::linorder, 's) Round)"
    and f: "precommit_faults r \<le> tolerated r"
  shows "graph_search par number anc vote_weight_add vote_weight_default (weight_ok (voters_len (rd_voters r))) weight_votes
     (round_cast par r) (rd_graph r) (precommit_supermajority r) (precommitted r)"
  using precommit_scan [OF chain core] precommitted_not_empty [OF core f] by (intro graph_search.intro graph_search_axioms.intro)



end
