(* ===== verification/Round_Commit.thy ===== *)
theory Round_Commit
  imports Round_Theorems
begin

text \<open>
  Commits: \<open>validate_commit\<close> accepts a commit only with a block above the commit's target that the precommits of the
  commit give a supermajority, and it accepts the commits that rounds produce from their
  finalizing precommits, as long as these are all at or above the finalized block.
\<close>

section \<open>Soundness\<close>

definition commit_signed :: "('h, 's, 'i) SignedPrecommit list \<Rightarrow> 'i \<Rightarrow> ('h Precommit \<times> 's) set" where
  "commit_signed sps i = {(sp_precommit sp, sp_signature sp) |sp. sp \<in> set sps \<and> sp_id sp = i}"

lemma signed_tracked_new:
  assumes "tracker_ok vs t" "tracker_ok vs (tracked vs t i v s)"
  shows "signed_votes (tracked vs t i v s) j \<subseteq> signed_votes t j \<union> (if j = i then {(v, s)} else {})"
proof (cases "voter_info vs i")
  case None
  then show ?thesis by (simp add: tracked_def)
next
  case (Some info)
  show ?thesis
  proof (cases rule: add_vote_cases [of t i v s "vi_weight info"])
    case new
    then show ?thesis using Some by (auto simp: signed_votes_def tracked_def tracker_votes_def)
  next
    case (equivocation v' s')
    then show ?thesis
      unfolding signed_iff [OF assms(1)] signed_iff [OF assms(2)]
      using Some by (auto simp: tracked_def AList.update_conv' split: option.splits)
  next
    case known
    then show ?thesis using Some by (simp add: tracked_def)
  qed
qed

lemma round_inv_tracker: "round_inv par number r \<Longrightarrow> tracker_ok (rd_voters r) (rd_precommit r)"
  by (simp add: round_inv_def round_core_def)

lemma import_commit_returns:
  assumes chain: "block_chain par number anc"
  shows "round_inv par number r \<Longrightarrow> \<forall>sp\<in>set sps. pc_target_number (sp_precommit sp) = number (pc_target_hash (sp_precommit sp)) \<Longrightarrow>
    \<exists>x. import_commit anc sps eqs r = Some x \<and> (\<forall>r'. x = Inr (Some r') \<longrightarrow> round_inv par number r' \<and> kept r r'
      \<and> (\<forall>i. signed_votes (rd_precommit r') i \<subseteq> signed_votes (rd_precommit r) i \<union> commit_signed sps i))"
proof (induction sps arbitrary: eqs r)
  case Nil
  then show ?case by (simp add: kept_def)
next
  case (Cons sp sps)
  obtain r1 where r1: "import_precommit anc (sp_precommit sp) (sp_id sp) (sp_signature sp) r
      = Some (vote_result par pc_target_hash r (rd_precommit r) (sp_id sp) (sp_precommit sp) (sp_signature sp), r1)"
    "round_inv par number r1" "kept r r1"
    "rd_precommit r1 = tracked (rd_voters r) (rd_precommit r) (sp_id sp) (sp_precommit sp) (sp_signature sp)"
    using import_precommit_spec [OF chain Cons.prems(1), of "sp_precommit sp" "sp_id sp" "sp_signature sp"] Cons.prems(2) by auto
  have v: "rd_voters r1 = rd_voters r" using r1(3) by (simp add: kept_def)
  have one: "signed_votes (rd_precommit r1) i \<subseteq> signed_votes (rd_precommit r) i \<union> commit_signed [sp] i" for i
    using signed_tracked_new [OF round_inv_tracker [OF Cons.prems(1)], of "sp_id sp" "sp_precommit sp" "sp_signature sp" i]
      round_inv_tracker [OF r1(2)] unfolding r1(4) v by (auto simp: commit_signed_def split: if_splits)
  have IH: "\<exists>x. import_commit anc sps eqs' r1 = Some x \<and> (\<forall>r'. x = Inr (Some r') \<longrightarrow> round_inv par number r' \<and> kept r1 r'
      \<and> (\<forall>i. signed_votes (rd_precommit r') i \<subseteq> signed_votes (rd_precommit r1) i \<union> commit_signed sps i))" for eqs'
    using Cons.IH [OF r1(2)] Cons.prems(2) by simp
  have sub: "commit_signed [sp] i \<union> commit_signed sps i = commit_signed (sp # sps) i" for i by (auto simp: commit_signed_def)
  have step: "\<exists>x. import_commit anc sps eqs' r1 = Some x \<and> (\<forall>r'. x = Inr (Some r') \<longrightarrow> round_inv par number r' \<and> kept r r'
      \<and> (\<forall>i. signed_votes (rd_precommit r') i \<subseteq> signed_votes (rd_precommit r) i \<union> commit_signed (sp # sps) i))" for eqs'
    using IH [of eqs'] r1(3) one sub by (fastforce simp: kept_def)
  show ?case
    using r1(1) step
    by (cases "vote_result par pc_target_hash r (rd_precommit r) (sp_id sp) (sp_precommit sp) (sp_signature sp)")
      (auto split: option.splits)
qed

lemma validate_commit_backed:
  assumes chain: "block_chain par number anc" and voters: "voters_ok voters"
    and numbers: "cm_target_number c = number (cm_target_hash c)"
      "\<forall>sp\<in>set (cm_precommits c). pc_target_number (sp_precommit sp) = number (pc_target_hash (sp_precommit sp))"
    and valid: "validate_commit anc c voters = Some (Inr (Some (h, n)))"
  shows "n = number h \<and> descends par (cm_target_hash c) h \<and> unat (vs_threshold voters) \<le>
    (\<Sum>i | voter_info voters i \<noteq> None \<and>
       ((\<exists>a\<in>commit_signed (cm_precommits c) i. descends par h (pc_target_hash (fst a)))
        \<or> (\<exists>a b. {a, b} \<subseteq> commit_signed (cm_precommits c) i \<and> a \<noteq> b)). voter_weight voters i)"
    (is "_ \<and> _ \<and> _ \<le> sum _ ?I")
proof -
  let ?params = "\<lparr>rp_round_number = 0, rp_voters = voters, rp_base = (cm_target_hash c, cm_target_number c)\<rparr>"
  have new: "round_inv par number (round_new ?params)"
    using round_new_inv [where params = ?params and base = "cm_target_hash c" and number = number] voters numbers(1) by simp
  obtain r where r: "import_commit anc (cm_precommits c) [] (round_new ?params) = Some (Inr (Some r))"
    "map_option (\<lambda>(g, r). Inr g) (precommit_ghost r) = Some (Inr (Some (h, n)))"
    using valid by (auto simp: validate_commit_def split: if_splits option.splits sum.splits)
  have inv: "round_inv par number r" "kept (round_new ?params) r"
    and signed: "\<And>i. signed_votes (rd_precommit r) i \<subseteq> commit_signed (cm_precommits c) i"
    using import_commit_returns [OF chain new numbers(2), of "[]"] r(1)
    by (auto simp: round_new_fields signed_votes_def tracker_votes_def tracker_new_def)
  have vs: "rd_voters r = voters" "round_base r = cm_target_hash c" using inv(2) by (simp_all add: kept_def round_new_fields)
  obtain r' where r': "precommit_ghost r = Some (Some (h, n), r')" using r(2) by auto
  have core: "round_core par number r" using inv(1) by (simp add: round_inv_def)
  have "marked par number r (precommitted r) (Some (h, n))"
    using precommit_ghost_returns [OF chain inv(1)] r' by (auto simp: round_inv_def)
  then have h: "n = number h" "descends par (cm_target_hash c) h" "precommitted r (votes_for par r h)"
    using vs(2) by (auto simp: marked_def)
  have t: "tracker_ok voters (rd_precommit r)" using round_inv_tracker [OF inv(1)] vs(1) by simp
  have "backing pc_target_hash par (vt_votes (rd_precommit r)) h \<subseteq> ?I"
  proof
    fix i
    assume i: "i \<in> backing pc_target_hash par (vt_votes (rd_precommit r)) h"
    have "voter_info voters i \<noteq> None" using i t by (force simp: backing_def tracker_ok_def dest: map_of_SomeD)
    then show "i \<in> ?I" using backing_signed [OF t i] signed [of i] by blast
  qed
  moreover have "finite ?I"
    by (rule finite_subset [of _ "sp_id ` set (cm_precommits c)"]) (auto simp: commit_signed_def)
  ultimately have "weight_of voters (backing pc_target_hash par (vt_votes (rd_precommit r)) h) \<le> weight_of voters ?I"
    by (intro sum_mono2) auto
  then show ?thesis using h precommitted_weight [OF core, of h] vs by simp
qed

text \<open>
  C20: commits are validated soundly. When \<open>validate_commit\<close> returns a block, that block is at or above the target of the commit,
  and the voters who signed in the commit either a precommit for a block at or above it or two different
  precommits reach the threshold.
\<close>

theorem validate_commit_sound:
  assumes chain: "block_chain par number anc" and voters: "voters_ok voters"
    and numbers: "cm_target_number c = number (cm_target_hash c)"
      "\<forall>sp\<in>set (cm_precommits c). pc_target_number (sp_precommit sp) = number (pc_target_hash (sp_precommit sp))"
    and valid: "validate_commit anc c voters = Some (Inr (Some (h, n)))"
  shows "n = number h \<and> descends par (cm_target_hash c) h \<and> unat (vs_threshold voters) \<le>
    (\<Sum>i | voter_info voters i \<noteq> None \<and>
       ((\<exists>a\<in>commit_signed (cm_precommits c) i. descends par h (pc_target_hash (fst a)))
        \<or> (\<exists>a b. {a, b} \<subseteq> commit_signed (cm_precommits c) i \<and> a \<noteq> b)). voter_weight voters i)"
  by (rule validate_commit_backed [OF chain voters numbers valid])

section \<open>The commits of a round\<close>

text \<open>Precommits grouped by voter, as \<open>finalizing_precommits\<close> yields them.\<close>

definition voter_precommits :: "'i \<times> ('h Precommit, 's) VoteMultiplicity \<Rightarrow> ('h, 's, 'i) SignedPrecommit list" where
  "voter_precommits = (\<lambda>(i, m). map (\<lambda>(v, s). \<lparr>sp_precommit = v, sp_signature = s, sp_id = i\<rparr>) (multiplicity_votes m))"

definition group_ok ::
  "('h \<rightharpoonup> 'h) \<Rightarrow> ('h \<Rightarrow> u64) \<Rightarrow> ('i, 'h, 's) Round \<Rightarrow> 'i \<times> ('h Precommit, 's) VoteMultiplicity \<Rightarrow> bool" where
  "group_ok par number r = (\<lambda>(i, m). voter_info (rd_voters r) i \<noteq> None
     \<and> (\<forall>(v, s)\<in>set (multiplicity_votes m). descends par (round_base r) (pc_target_hash v) \<and> pc_target_number v = number (pc_target_hash v))
     \<and> (\<forall>a b. m = Equivocated a b \<longrightarrow> a \<noteq> b))"

lemma update_snoc: "k \<notin> fst ` set xs \<Longrightarrow> AList.update k v (xs @ [(k, w)]) = xs @ [(k, v)]"
  by (induction xs) auto

lemma import_first:
  assumes chain: "block_chain par number anc" and inv: "round_inv par number r"
    and i: "voter_info (rd_voters r) i \<noteq> None" "i \<notin> fst ` set (vt_votes (rd_precommit r))"
    and v: "descends par (round_base r) (pc_target_hash v)" "pc_target_number v = number (pc_target_hash v)"
  obtains r' where "import_precommit anc v i s r = Some (Inr None, r')" "round_inv par number r'" "kept r r'"
    "vt_votes (rd_precommit r') = vt_votes (rd_precommit r) @ [(i, Single v s)]"
proof -
  obtain info where info: "voter_info (rd_voters r) i = Some info" using i(1) by auto
  have fresh: "map_of (vt_votes (rd_precommit r)) i = None" using i(2) by (simp add: map_of_eq_None_iff)
  have "vote_result par pc_target_hash r (rd_precommit r) i v s = Inr None" using fresh v(1) by (simp add: vote_result_def)
  moreover have "vt_votes (tracked (rd_voters r) (rd_precommit r) i v s) = vt_votes (rd_precommit r) @ [(i, Single v s)]"
    using fresh info by (simp add: tracked_def add_vote_def)
  ultimately show thesis using that import_precommit_spec [OF chain inv v(2), of i s] by auto
qed

lemma import_second:
  assumes chain: "block_chain par number anc" and inv: "round_inv par number r"
    and votes: "vt_votes (rd_precommit r) = xs @ [(i, Single v s)]" "i \<notin> fst ` set xs" and w: "(v, s) \<noteq> (w, z)"
    and i: "voter_info (rd_voters r) i \<noteq> None" and n: "pc_target_number w = number (pc_target_hash w)"
  obtains e r' where "import_precommit anc w i z r = Some (Inr (Some e), r')" "round_inv par number r'" "kept r r'"
    "vt_votes (rd_precommit r') = xs @ [(i, Equivocated (v, s) (w, z))]"
proof -
  obtain info where info: "voter_info (rd_voters r) i = Some info" using i by auto
  have m: "map_of (vt_votes (rd_precommit r)) i = Some (Single v s)"
    using votes by (simp add: map_add_Some_iff map_of_eq_None_iff)
  then have "\<exists>e. vote_result par pc_target_hash r (rd_precommit r) i w z = Inr (Some e)" using w info by (auto simp: vote_result_def)
  moreover have "vt_votes (tracked (rd_voters r) (rd_precommit r) i w z) = xs @ [(i, Equivocated (v, s) (w, z))]"
    using m info w votes(1) update_snoc [OF votes(2)] by (auto simp: tracked_def add_vote_def Let_def)
  ultimately show thesis using that import_precommit_spec [OF chain inv n, of i z] by auto
qed

lemma import_groups:
  assumes chain: "block_chain par number anc"
  shows "round_inv par number r \<Longrightarrow> distinct (map fst gs) \<Longrightarrow> fst ` set gs \<inter> (fst ` set (vt_votes (rd_precommit r)) \<union> set eqs) = {} \<Longrightarrow>
    \<forall>gp\<in>set gs. group_ok par number r gp \<Longrightarrow>
    \<exists>r'. import_commit anc (concat (map voter_precommits gs)) eqs r = Some (Inr (Some r')) \<and> round_inv par number r' \<and> kept r r'
      \<and> vt_votes (rd_precommit r') = vt_votes (rd_precommit r) @ gs"
proof (induction gs arbitrary: eqs r)
  case Nil
  then show ?case by (simp add: kept_def)
next
  case (Cons gp gs)
  obtain i m where gp: "gp = (i, m)" by (cases gp)
  have ok: "voter_info (rd_voters r) i \<noteq> None" "i \<notin> fst ` set (vt_votes (rd_precommit r))" "i \<notin> set eqs"
    "\<And>v s. (v, s) \<in> set (multiplicity_votes m) \<Longrightarrow> descends par (round_base r) (pc_target_hash v) \<and> pc_target_number v = number (pc_target_hash v)"
    using Cons.prems gp by (auto simp: group_ok_def)
  have rest: "\<exists>r'. import_commit anc (concat (map voter_precommits gs)) eqs' r1 = Some (Inr (Some r')) \<and> round_inv par number r' \<and> kept r r'
      \<and> vt_votes (rd_precommit r') = vt_votes (rd_precommit r) @ gp # gs"
    if r1: "round_inv par number r1" "kept r r1" "vt_votes (rd_precommit r1) = vt_votes (rd_precommit r) @ [gp]" "set eqs' \<subseteq> insert i (set eqs)"
    for r1 eqs'
  proof -
    have "\<forall>gp\<in>set gs. group_ok par number r1 gp" using Cons.prems(4) r1(2) by (auto simp: group_ok_def kept_def)
    moreover have "i \<notin> fst ` set gs" "fst ` set gs \<inter> (fst ` set (vt_votes (rd_precommit r)) \<union> set eqs) = {}"
      using Cons.prems(2,3) gp by auto
    then have "fst ` set gs \<inter> (fst ` set (vt_votes (rd_precommit r1)) \<union> set eqs') = {}" unfolding r1(3) gp using r1(4) by auto
    moreover have "distinct (map fst gs)" using Cons.prems(2) by simp
    ultimately show ?thesis using Cons.IH [OF r1(1)] r1(2,3) by (fastforce simp: kept_def)
  qed
  show ?case
  proof (cases m)
    case (Single v s)
    then obtain r1 where r1: "import_precommit anc v i s r = Some (Inr None, r1)" "round_inv par number r1" "kept r r1"
      "vt_votes (rd_precommit r1) = vt_votes (rd_precommit r) @ [(i, Single v s)]"
      using import_first [OF chain Cons.prems(1) ok(1,2), of v s] ok(4) by auto
    have "vt_votes (rd_precommit r1) = vt_votes (rd_precommit r) @ [gp]" using r1(4) gp Single by simp
    from rest [OF r1(2,3) this subset_insertI] show ?thesis using r1(1) gp Single by (simp add: voter_precommits_def)
  next
    case (Equivocated a b)
    obtain v s w z where ab: "a = (v, s)" "b = (w, z)" by (cases a, cases b)
    have d: "(v, s) \<noteq> (w, z)" using Cons.prems(4) gp Equivocated ab by (auto simp: group_ok_def)
    obtain r1 where r1: "import_precommit anc v i s r = Some (Inr None, r1)" "round_inv par number r1" "kept r r1"
      "vt_votes (rd_precommit r1) = vt_votes (rd_precommit r) @ [(i, Single v s)]"
      using import_first [OF chain Cons.prems(1) ok(1,2), of v s] ok(4) Equivocated ab by auto
    have known: "voter_info (rd_voters r1) i \<noteq> None" using ok(1) r1(3) by (simp add: kept_def)
    obtain e r2 where r2: "import_precommit anc w i z r1 = Some (Inr (Some e), r2)" "round_inv par number r2" "kept r1 r2"
      "vt_votes (rd_precommit r2) = vt_votes (rd_precommit r) @ [(i, Equivocated (v, s) (w, z))]"
      using import_second [OF chain r1(2,4) ok(2) d known] ok(4) [of w z] Equivocated ab by auto
    have "kept r r2" "vt_votes (rd_precommit r2) = vt_votes (rd_precommit r) @ [gp]"
      using r1(3) r2(3,4) gp Equivocated ab by (simp_all add: kept_def)
    from rest [OF r2(2) this, of "i # eqs"] show ?thesis
      using r1(1) r2(1) gp Equivocated ab ok(3) by (simp add: voter_precommits_def)
  qed
qed

text \<open>A search from a base that meets the condition finds a block.\<close>

lemma precommit_ghost_found:
  assumes chain: "block_chain par number anc" and inv: "round_inv par number (r :: ('i, 'h::linorder, 's) Round)"
    and none: "rd_precommit_ghost r = None" and base: "precommitted r (votes_for par r (round_base r))"
    and weight: "round_threshold r \<le> vt_current_weight (rd_precommit r)"
  shows "\<exists>h r'. precommit_ghost r = Some (Some (h, number h), r') \<and> descends par (round_base r) h"
proof -
  have core: "round_core par number r" using inv by (simp add: round_inv_def)
  obtain x where "find_ghost vote_weight_add (rd_graph r) None (precommit_supermajority r) = Some (map_option (\<lambda>t. (t, number t)) x)"
    "\<forall>t. x = Some t \<longrightarrow> precommitted r (votes_for par r t) \<and> descends par (round_base r) t" "x \<noteq> None"
    using graph_scan.find_ghost_returns [OF precommit_scan [OF chain core], of None] base by auto
  then show ?thesis using none weight by (auto simp: precommit_ghost_def)
qed

lemma tracked_precommitters:
  assumes core: "round_core par number r"
  shows "weight_of (rd_voters r) (backing pc_target_hash par (vt_votes (rd_precommit r)) h) \<le> unat (vt_current_weight (rd_precommit r))"
proof -
  let ?B = "backing pc_target_hash par (vt_votes (rd_precommit r)) h"
  have t: "tracker_ok (rd_voters r) (rd_precommit r)" using core by (simp add: round_core_def)
  have sub: "?B \<subseteq> fst ` set (vt_votes (rd_precommit r))" by (force simp: backing_def dest: map_of_SomeD)
  then have "\<forall>i\<in>?B. voter_info (rd_voters r) i \<noteq> None" using t by (auto simp: tracker_ok_def)
  then have "weight_of (rd_voters r) ?B = index_weight (rd_voters r) (voter_index (rd_voters r) ` ?B)"
    using index_weight_image [OF round_coreD(1) [OF core] backing_finite, of pc_target_hash par "vt_votes (rd_precommit r)" h] by simp
  also have "\<dots> \<le> unat (vt_current_weight (rd_precommit r))"
    using t index_weight_mono [OF image_mono [OF sub]] by (simp add: tracker_ok_def)
  finally show ?thesis .
qed

definition finalizing_groups ::
  "('h \<Rightarrow> 'h \<Rightarrow> 'h list option) \<Rightarrow> 'h \<Rightarrow> ('i, 'h Precommit, 's) VoteTracker \<Rightarrow> ('i \<times> ('h Precommit, 's) VoteMultiplicity) list" where
  "finalizing_groups anc f t = filter (\<lambda>(i, m). case m of Single v s \<Rightarrow> is_equal_or_descendent_of anc f (pc_target_hash v)
     | Equivocated _ _ \<Rightarrow> True) (vt_votes t)"

lemma finalizing_groups_precommits:
  "rd_finalized r = Some (f, n) \<Longrightarrow>
     finalizing_precommits anc r = Some (concat (map voter_precommits (finalizing_groups anc f (rd_precommit r))))"
  by (simp add: finalizing_precommits_def finalizing_groups_def voter_precommits_def)

lemma equal_or_descendent:
  assumes "block_chain par number anc"
  shows "is_equal_or_descendent_of anc f x \<longleftrightarrow> descends par f x"
  using block_chain.ancestry_iff [OF assms, of f x] by (auto simp: is_equal_or_descendent_of_def)

lemma finalizing_groups_backing:
  assumes chain: "block_chain par number anc" and t: "tracker_ok vs t"
  shows "backing pc_target_hash par (finalizing_groups anc f t) f = backing pc_target_hash par (vt_votes t) f"
proof -
  note desc = equal_or_descendent [OF chain]
  have d: "distinct (map fst (vt_votes t))" using t by (simp add: tracker_ok_def)
  have mem: "(i, m) \<in> set (finalizing_groups anc f t) \<longleftrightarrow> (i, m) \<in> set (vt_votes t)
      \<and> ((\<exists>a b. m = Equivocated a b) \<or> descends par f (pc_target_hash (first_vote m)))" for i m
    by (cases m) (auto simp: finalizing_groups_def desc)
  from d have "distinct (map fst (finalizing_groups anc f t))" by (simp add: finalizing_groups_def distinct_map_filter)
  then have "map_of (finalizing_groups anc f t) i = Some m \<longleftrightarrow> map_of (vt_votes t) i = Some m
      \<and> ((\<exists>a b. m = Equivocated a b) \<or> descends par f (pc_target_hash (first_vote m)))" for i m
    using mem by (simp only: map_of_eq_Some_iff [OF d] map_of_eq_Some_iff)
  then show ?thesis unfolding backing_def by blast
qed

text \<open>
  The commit may be validated over another chain, such as the headers that come with a justification, that has the
  precommits in it at or above the finalized block.
\<close>

lemma commit_accepted:
  assumes chain: "block_chain par number anc" and params: "voters_ok (rp_voters params)" "rp_base params = (base, number base)"
    and reach: "reachable_round number anc params r"
    and f: "rd_finalized r = Some (f, n)" and ps: "finalizing_precommits anc r = Some ps"
    and chain': "block_chain par' number anc'"
    and above: "\<forall>sp\<in>set ps. descends par' f (pc_target_hash (sp_precommit sp))
      \<and> pc_target_number (sp_precommit sp) = number (pc_target_hash (sp_precommit sp))"
  shows "\<exists>h. validate_commit anc' \<lparr>cm_target_hash = f, cm_target_number = n, cm_precommits = ps\<rparr> (rp_voters params)
      = Some (Inr (Some (h, number h))) \<and> descends par' f h"
proof -
  let ?gs = "finalizing_groups anc f (rd_precommit r)"
  let ?params = "\<lparr>rp_round_number = 0, rp_voters = rp_voters params, rp_base = (f, n)\<rparr>"
  note reached = reachable_inv [OF chain params reach]
  have n: "n = number f" using finalized_backing(1) [OF reached f] .
  have t: "tracker_ok (rp_voters params) (rd_precommit r)" using reached by (auto simp: round_reached_def round_inv_def round_core_def)
  have gs: "ps = concat (map voter_precommits ?gs)" using ps finalizing_groups_precommits [OF f, of anc] by simp
  have new: "round_inv par' number (round_new ?params)"
    using round_new_inv [where params = ?params and base = f and number = number] params(1) n by simp
  have "set ?gs \<subseteq> set (vt_votes (rd_precommit r))" "distinct (map fst ?gs)"
    using t by (auto simp: finalizing_groups_def tracker_ok_def distinct_map_filter)
  moreover have "\<forall>gp\<in>set ?gs. group_ok par' number (round_new ?params) gp"
  proof
    fix gp
    assume "gp \<in> set ?gs"
    moreover obtain i m where gp: "gp = (i, m)" by (cases gp)
    ultimately have im: "(i, m) \<in> set ?gs" "(i, m) \<in> set (vt_votes (rd_precommit r))" by (auto simp: finalizing_groups_def)
    have "\<forall>(v, s)\<in>set (multiplicity_votes m). \<lparr>sp_precommit = v, sp_signature = s, sp_id = i\<rparr> \<in> set ps"
      using im(1) gs by (force simp: voter_precommits_def)
    moreover have "\<forall>a b. m = Equivocated a b \<longrightarrow> a \<noteq> b" using t im(2) unfolding tracker_ok_def by (metis map_of_eq_Some_iff)
    ultimately show "group_ok par' number (round_new ?params) gp"
      using above t im(2) unfolding gp by (fastforce simp: group_ok_def round_new_fields tracker_ok_def)
  qed
  ultimately obtain r' where r': "import_commit anc' ps [] (round_new ?params) = Some (Inr (Some r'))" "round_inv par' number r'"
      "kept (round_new ?params) r'" "vt_votes (rd_precommit r') = ?gs"
    using import_groups [OF chain' new, of ?gs "[]"] unfolding gs by (auto simp: round_new_fields tracker_new_def)
  have k: "rd_voters r' = rp_voters params" "round_base r' = f" "rd_precommit_ghost r' = None"
    using r'(3) by (simp_all add: kept_def round_new_fields)
  have core: "round_core par' number r'" using r'(2) by (simp add: round_inv_def)
  have "backing pc_target_hash par ?gs f \<subseteq> backing pc_target_hash par' ?gs f"
  proof
    fix i
    assume "i \<in> backing pc_target_hash par ?gs f"
    then obtain m where m: "map_of ?gs i = Some m" by (auto simp: backing_def)
    then have "\<lparr>sp_precommit = v, sp_signature = s, sp_id = i\<rparr> \<in> set ps" if "(v, s) \<in> set (multiplicity_votes m)" for v s
      using that gs by (force simp: voter_precommits_def dest: map_of_SomeD)
    then show "i \<in> backing pc_target_hash par' ?gs f" using m above by (cases m) (force simp: backing_def)+
  qed
  then have "weight_of (rp_voters params) (backing pc_target_hash par ?gs f) \<le> weight_of (rp_voters params) (backing pc_target_hash par' ?gs f)"
    by (intro sum_mono2 backing_finite) auto
  then have "unat (vs_threshold (rp_voters params)) \<le> weight_of (rp_voters params) (backing pc_target_hash par' (vt_votes (rd_precommit r')) f)"
    using finalized_backing(3) [OF reached f] unfolding r'(4) finalizing_groups_backing [OF chain t, symmetric] by linarith
  then have "precommitted r' (votes_for par' r' (round_base r'))" "round_threshold r' \<le> vt_current_weight (rd_precommit r')"
    using precommitted_weight [OF core, of f] tracked_precommitters [OF core, of f] k
    by (simp_all add: round_threshold_def word_le_nat_alt)
  from precommit_ghost_found [OF chain' r'(2) k(3) this] obtain h r'' where
    "precommit_ghost r' = Some (Some (h, number h), r'')" "descends par' f h" using k(2) by auto
  moreover have "\<forall>sp\<in>set ps. n \<le> pc_target_number (sp_precommit sp)
      \<and> is_equal_or_descendent_of anc' f (pc_target_hash (sp_precommit sp))"
    using above n numbered_chain.descends_number [OF block_chain.axioms(1) [OF chain'], of f]
    by (fastforce simp: equal_or_descendent [OF chain'])
  ultimately show ?thesis using r'(1) by (auto simp: validate_commit_def list_all_iff)
qed


definition on_block :: "string \<Rightarrow> u64 \<Rightarrow> nat \<Rightarrow> (string, nat, nat) SignedPrecommit" where
  "on_block h n i = \<lparr>sp_precommit = \<lparr>pc_target_hash = h, pc_target_number = n\<rparr>, sp_signature = 0, sp_id = i\<rparr>"


theorem validate_commit_sound_witness:
  "\<exists>S. 3 \<le> sum (voter_weight (rp_voters four_voters)) S \<and> (\<forall>i\<in>S. commit_signed (map (on_block ''D1'' 5) [0, 1, 2]) i \<noteq> {})"
proof -
  let ?c = "\<lparr>cm_target_hash = ''D1'', cm_target_number = 5, cm_precommits = map (on_block ''D1'' 5) [0, 1, 2]\<rparr>"
  have v: "validate_commit (dummy_chain_ancestry forked_chain) ?c (rp_voters four_voters) = Some (Inr (Some (''D1'', 5)))"
    by (simp add: validate_commit_def on_block_def four_voters_def chain_eval graph_eval weight_eval round_eval
        forked_chain_records is_equal_or_descendent_of_def)
  have t: "unat (vs_threshold (rp_voters four_voters)) = 3"
    by (simp add: four_voters_def from_iter_spec(2) unat_threshold)
  let ?S = "{i. voter_info (rp_voters four_voters) i \<noteq> None \<and>
       ((\<exists>a\<in>commit_signed (cm_precommits ?c) i. descends (dummy_par forked_chain) ''D1'' (pc_target_hash (fst a)))
        \<or> (\<exists>a b. {a, b} \<subseteq> commit_signed (cm_precommits ?c) i \<and> a \<noteq> b))}"
  have "3 \<le> sum (voter_weight (rp_voters four_voters)) ?S"
    using validate_commit_sound [OF forked.block_chain_axioms four_voters_ok(1) _ _ v] t
    by (simp add: on_block_def dummy_number_def forked_chain_records GENESIS_HASH_def)
  then show ?thesis by (intro exI [of _ ?S]) auto
qed


end
