(* ===== verification/Justification.thy ===== *)
theory Justification
  imports Round_Commit
begin

text \<open>
  Finality justifications, \<open>core/crfg/src/justification.rs\<close>, with the signature check of
  \<open>core/crfg/src/communication.rs\<close>: a commit, with the headers that connect its precommits to its target. Headers are
  hashed and payloads are encoded and signatures are verified by code outside the repository: \<open>hash\<close>, \<open>encode\<close> and
  \<open>ed25519_verify\<close> are parameters. The headers of the client are a parameter too: \<open>header h\<close> is its answer
  for the hash \<open>h\<close>.
\<close>

section \<open>Headers and justifications\<close>

text \<open>Of a header the code reads the number and the parent; \<open>hd_rest\<close> is all else that is hashed.\<close>

record ('h, 'x) Header =
  hd_number :: u64
  hd_parent_hash :: 'h
  hd_rest :: 'x

record ('h, 's, 'i, 'x) CrfgJustification =
  cj_round :: u64
  cj_commit :: "('h, 's, 'i) Commit"
  cj_votes_ancestries :: "('h, 'x) Header list"

definition default_justification :: "'h \<Rightarrow> u64 \<Rightarrow> ('h, 's, 'i, 'x) CrfgJustification" where
  "default_justification hash number =
     \<lparr>cj_round = 0, cj_commit = \<lparr>cm_target_hash = hash, cm_target_number = number, cm_precommits = []\<rparr>, cj_votes_ancestries = []\<rparr>"

section \<open>Signatures\<close>

definition localized_payload :: "('e \<times> u64 \<times> u64 \<Rightarrow> u8 list) \<Rightarrow> u64 \<Rightarrow> u64 \<Rightarrow> 'e \<Rightarrow> u8 list" where
  "localized_payload encode round set_id message = encode (message, round, set_id)"

record ('h, 's, 'i) signing =
  payload_encode :: "'h Message \<times> u64 \<times> u64 \<Rightarrow> u8 list"
  ed25519_verify :: "'s \<Rightarrow> u8 list \<Rightarrow> 'i \<Rightarrow> bool"

definition check_message_sig :: "('h, 's, 'i) signing \<Rightarrow> 'h Message \<Rightarrow> 'i list \<Rightarrow> 's list \<Rightarrow> u64 \<Rightarrow> u64 \<Rightarrow> bool" where
  "check_message_sig sg message ids signatures round set_id \<longleftrightarrow>
     length ids = length signatures
     \<and> list_all (\<lambda>(i, s). ed25519_verify sg s (localized_payload (payload_encode sg) round set_id message) i) (zip ids signatures)"

section \<open>Chains of headers\<close>

text \<open>\<open>AncestryChain\<close>: a hash map of the headers by their hash, in which a later header replaces an earlier one.\<close>

definition ancestry_chain_new :: "(('h, 'x) Header \<Rightarrow> 'h) \<Rightarrow> ('h, 'x) Header list \<Rightarrow> 'h \<rightharpoonup> ('h, 'x) Header" where
  "ancestry_chain_new hash hs = map_of (rev (map (\<lambda>h. (hash h, h)) hs))"

text \<open>
  The loop of \<open>ancestry\<close>. It visits a header at most once unless the parent links are cyclic, so that as many
  steps as there are headers, and one for the base, are enough; \<open>None\<close> is a loop that does not end.
\<close>

fun ancestry_loop :: "nat \<Rightarrow> ('h \<rightharpoonup> ('h, 'x) Header) \<Rightarrow> 'h \<Rightarrow> 'h \<Rightarrow> 'h list \<Rightarrow> 'h list option option" where
  "ancestry_loop 0 chain base current_hash route = None"
| "ancestry_loop (Suc fuel) chain base current_hash route =
     (if current_hash = base then Some (Some (butlast route))
      else (case chain current_hash of
              None \<Rightarrow> Some None
            | Some current_header \<Rightarrow>
                ancestry_loop fuel chain base (hd_parent_hash current_header) (route @ [hd_parent_hash current_header])))"

definition chain_ancestry :: "(('h, 'x) Header \<Rightarrow> 'h) \<Rightarrow> ('h, 'x) Header list \<Rightarrow> 'h \<Rightarrow> 'h \<Rightarrow> 'h list option" where
  "chain_ancestry hash hs base block =
     (case ancestry_loop (Suc (length hs)) (ancestry_chain_new hash hs) base block [] of None \<Rightarrow> None | Some r \<Rightarrow> r)"

section \<open>Making and verifying justifications\<close>

text \<open>The loop of \<open>from_commit\<close> over the ancestors of a precommit; \<open>None\<close> is a loop that does not end.\<close>

partial_function (option) from_commit_loop ::
  "('h \<Rightarrow> ('h, 'x) Header option result) \<Rightarrow> 'h \<Rightarrow> u64 \<Rightarrow> 'h \<Rightarrow> 'h set \<Rightarrow> ('h, 'x) Header list
     \<Rightarrow> ('h set \<times> ('h, 'x) Header list) result option" where
  "from_commit_loop header target_hash target_number current_hash hashes headers =
     (if current_hash = target_hash then Some (Ok (hashes, headers))
      else (case header current_hash of
              Inl e \<Rightarrow> Some (Err e)
            | Inr None \<Rightarrow> Some (Err ''invalid precommits for target commit'')
            | Inr (Some current_header) \<Rightarrow>
                if hd_number current_header \<le> target_number then Some (Err ''invalid precommits for target commit'')
                else from_commit_loop header target_hash target_number (hd_parent_hash current_header)
                  (insert current_hash hashes)
                  (if current_hash \<in> hashes then headers else headers @ [current_header])))"

fun from_commit_votes ::
  "('h \<Rightarrow> ('h, 'x) Header option result) \<Rightarrow> 'h \<Rightarrow> u64 \<Rightarrow> ('h, 's, 'i) SignedPrecommit list \<Rightarrow> 'h set \<Rightarrow> ('h, 'x) Header list
     \<Rightarrow> ('h, 'x) Header list result option" where
  "from_commit_votes header target_hash target_number [] hashes headers = Some (Ok headers)"
| "from_commit_votes header target_hash target_number (vote # rest) hashes headers =
     (case from_commit_loop header target_hash target_number (pc_target_hash (sp_precommit vote)) hashes headers of
        None \<Rightarrow> None
      | Some (Inl e) \<Rightarrow> Some (Err e)
      | Some (Inr (hashes, headers)) \<Rightarrow> from_commit_votes header target_hash target_number rest hashes headers)"

definition from_commit ::
  "('h \<Rightarrow> ('h, 'x) Header option result) \<Rightarrow> u64 \<Rightarrow> ('h, 's, 'i) Commit \<Rightarrow> ('h, 's, 'i, 'x) CrfgJustification result option" where
  "from_commit header round commit =
     map_option (map_sum id (\<lambda>headers. \<lparr>cj_round = round, cj_commit = commit, cj_votes_ancestries = headers\<rparr>))
       (from_commit_votes header (cm_target_hash commit) (cm_target_number commit) (cm_precommits commit) {} [])"

text \<open>The loop of \<open>verify\<close> over the precommits, with the set of visited hashes.\<close>

fun verify_precommits ::
  "('h, 's, 'i) signing \<Rightarrow> ('h \<Rightarrow> 'h \<Rightarrow> 'h list option) \<Rightarrow> 'h \<Rightarrow> u64 \<Rightarrow> u64 \<Rightarrow> ('h, 's, 'i) SignedPrecommit list \<Rightarrow> 'h set \<Rightarrow> 'h set result" where
  "verify_precommits sg anc target_hash round set_id [] visited = Ok visited"
| "verify_precommits sg anc target_hash round set_id (vote # rest) visited =
     (if \<not> check_message_sig sg (PrecommitMsg (sp_precommit vote)) [sp_id vote] [sp_signature vote] round set_id
      then Err ''invalid signature for precommit in CRFG justification''
      else if target_hash = pc_target_hash (sp_precommit vote)
      then verify_precommits sg anc target_hash round set_id rest visited
      else (case anc target_hash (pc_target_hash (sp_precommit vote)) of
              None \<Rightarrow> Err ''invalid precommit ancestry proof in CRFG justification''
            | Some route \<Rightarrow> verify_precommits sg anc target_hash round set_id rest
                (insert (pc_target_hash (sp_precommit vote)) visited \<union> set route)))"

definition verify ::
  "('h, 's, 'i) signing \<Rightarrow> (('h::linorder, 'x) Header \<Rightarrow> 'h) \<Rightarrow> ('h, 's, 'i, 'x) CrfgJustification \<Rightarrow> u64 \<Rightarrow> 'i VoterSet
     \<Rightarrow> unit result option" where
  "verify sg hash self set_id voters =
     (let anc = chain_ancestry hash (cj_votes_ancestries self); commit = cj_commit self
      in case validate_commit anc commit voters of
           None \<Rightarrow> None
         | Some (Inr (Some _)) \<Rightarrow>
             Some (case verify_precommits sg anc (cm_target_hash commit) (cj_round self) set_id (cm_precommits commit) {} of
                     Inl e \<Rightarrow> Err e
                   | Inr visited \<Rightarrow>
                       if visited \<noteq> hash ` set (cj_votes_ancestries self)
                       then Err ''invalid precommit ancestries in CRFG justification with unused headers''
                       else Ok ())
         | Some _ \<Rightarrow> Some (Err ''invalid commit in CRFG justification''))"

definition decode_and_verify ::
  "(u8 list \<Rightarrow> ('h, 's, 'i, 'x) CrfgJustification option) \<Rightarrow> ('h, 's, 'i) signing \<Rightarrow> (('h::linorder, 'x) Header \<Rightarrow> 'h) \<Rightarrow> u8 list \<Rightarrow> u64
     \<Rightarrow> 'i VoterSet \<Rightarrow> ('h, 's, 'i, 'x) CrfgJustification result option" where
  "decode_and_verify decode sg hash encoded set_id voters =
     (case decode encoded of
        None \<Rightarrow> Some (Err ''failed to decode CRFG justification'')
      | Some just \<Rightarrow> map_option (map_sum id (\<lambda>_. just)) (verify sg hash just set_id voters))"

section \<open>The chain of the headers\<close>

definition chain_parent :: "(('h, 'x) Header \<Rightarrow> 'h) \<Rightarrow> ('h, 'x) Header list \<Rightarrow> 'h \<rightharpoonup> 'h" where
  "chain_parent hash hs h = map_option hd_parent_hash (ancestry_chain_new hash hs h)"

definition headers_numbered :: "('h \<Rightarrow> u64) \<Rightarrow> (('h, 'x) Header \<Rightarrow> 'h) \<Rightarrow> ('h, 'x) Header list \<Rightarrow> bool" where
  "headers_numbered number hash hs \<longleftrightarrow> (\<forall>h\<in>set hs. unat (number (hash h)) = Suc (unat (number (hd_parent_hash h))))"

lemma chain_header: "ancestry_chain_new hash hs h = Some x \<Longrightarrow> x \<in> set hs \<and> hash x = h"
  by (auto simp: ancestry_chain_new_def dest!: map_of_SomeD)

lemma chain_dom: "dom (ancestry_chain_new hash hs) = hash ` set hs"
  by (auto simp: ancestry_chain_new_def dom_map_of_conv_image_fst image_image)

lemma chain_parent_numbered:
  assumes "headers_numbered number hash hs"
  shows "numbered_chain (chain_parent hash hs) number"
proof
  fix h p
  assume "chain_parent hash hs h = Some p"
  then obtain x where "ancestry_chain_new hash hs h = Some x" "p = hd_parent_hash x" by (auto simp: chain_parent_def)
  then show "unat (number h) = Suc (unat (number p))"
    using assms chain_header [of hash hs h x] by (auto simp: headers_numbered_def)
qed

lemma ancestry_loop_spec:
  assumes n: "headers_numbered number hash hs"
  defines "par \<equiv> chain_parent hash hs"
  shows "card {h \<in> hash ` set hs. number h \<le> number cur} < fuel \<Longrightarrow>
    \<exists>r. ancestry_loop fuel (ancestry_chain_new hash hs) base cur route = Some r
      \<and> (r = None \<longrightarrow> \<not> descends par base cur)
      \<and> (\<forall>xs. r = Some xs \<longrightarrow> cur = base \<and> xs = butlast route \<or> (\<exists>ys. xs = route @ ys \<and> path par cur (ys @ [base])))"
proof (induction fuel arbitrary: cur route)
  case (Suc fuel)
  show ?case
  proof (cases "cur = base")
    case False
    show ?thesis
    proof (cases "ancestry_chain_new hash hs cur")
      case None
      then have "\<not> descends par base cur" using False descends_step [of par base cur] by (simp add: par_def chain_parent_def)
      then show ?thesis using None False by simp
    next
      case (Some x)
      let ?p = "hd_parent_hash x"
      have p: "par cur = Some ?p" using Some by (simp add: par_def chain_parent_def)
      have less: "number ?p < number cur"
        using numbered_chain.number_parent [OF chain_parent_numbered [OF n]] p by (fastforce simp: par_def word_less_nat_alt)
      have "cur \<in> hash ` set hs" using Some chain_dom [of hash hs] by blast
      then have "cur \<in> {h \<in> hash ` set hs. number h \<le> number cur} - {h \<in> hash ` set hs. number h \<le> number ?p}" using less by simp
      moreover have "{h \<in> hash ` set hs. number h \<le> number ?p} \<subseteq> {h \<in> hash ` set hs. number h \<le> number cur}" using less by auto
      ultimately have "{h \<in> hash ` set hs. number h \<le> number ?p} \<subset> {h \<in> hash ` set hs. number h \<le> number cur}" by blast
      then have "card {h \<in> hash ` set hs. number h \<le> number ?p} < card {h \<in> hash ` set hs. number h \<le> number cur}"
        by (intro psubset_card_mono) auto
      then have "card {h \<in> hash ` set hs. number h \<le> number ?p} < fuel" using Suc.prems by simp
      from Suc.IH [OF this, of "route @ [?p]"] obtain r where
        r: "ancestry_loop fuel (ancestry_chain_new hash hs) base ?p (route @ [?p]) = Some r"
        "r = None \<longrightarrow> \<not> descends par base ?p"
        "\<And>xs. r = Some xs \<Longrightarrow> ?p = base \<and> xs = route \<or> (\<exists>ys. xs = route @ ?p # ys \<and> path par ?p (ys @ [base]))"
        by auto
      have "\<exists>ys. xs = route @ ys \<and> path par cur (ys @ [base])" if "r = Some xs" for xs
        using r(3) [OF that] p
      proof (elim disjE exE conjE)
        assume "?p = base" "xs = route"
        then show ?thesis using p by (intro exI [of _ "[]"]) simp
      next
        fix ys
        assume "xs = route @ ?p # ys" "path par ?p (ys @ [base])"
        then show ?thesis using p by (intro exI [of _ "?p # ys"]) simp
      qed
      moreover have "r = None \<longrightarrow> \<not> descends par base cur" using r(2) p False descends_step [of par base cur] by auto
      ultimately show ?thesis using r(1) Some False by simp
    qed
  qed simp
qed simp

lemma headers_fuel: "card {h \<in> hash ` set hs. number h \<le> number cur} < Suc (length hs)"
proof -
  have "card {h \<in> hash ` set hs. number h \<le> number cur} \<le> card (hash ` set hs)" by (intro card_mono) auto
  also have "\<dots> \<le> length hs" using card_image_le [of "set hs" hash] card_length [of hs] by simp
  finally show ?thesis by simp
qed

lemma headers_block_chain:
  assumes n: "headers_numbered number hash hs"
  shows "block_chain (chain_parent hash hs) number (chain_ancestry hash hs)"
  unfolding block_chain_def block_chain_axioms_def
proof (intro conjI allI impI chain_parent_numbered [OF n])
  fix base block xs
  assume "chain_ancestry hash hs base block = Some xs" "base \<noteq> block"
  then show "path (chain_parent hash hs) block (xs @ [base])"
    using ancestry_loop_spec [OF n, where cur = block, OF headers_fuel, where base = base and route = "[]"]
    by (auto simp: chain_ancestry_def simp del: ancestry_loop.simps split: option.splits)
next
  fix base block
  assume "chain_ancestry hash hs base block = None" "base \<noteq> block"
  then show "\<not> descends (chain_parent hash hs) base block"
    using ancestry_loop_spec [OF n, where cur = block, OF headers_fuel, where base = base and route = "[]"]
    by (auto simp: chain_ancestry_def simp del: ancestry_loop.simps split: option.splits)
qed

text \<open>The blocks of a route: all those above the base, up to the block.\<close>

lemma route_blocks:
  assumes c: "numbered_chain par number" and p: "path par block (xs @ [base])"
  shows "insert block (set xs) = {b. b \<noteq> base \<and> descends par base b \<and> descends par b block}"
proof (intro equalityI subsetI)
  fix b
  assume b: "b \<in> insert block (set xs)"
  have "base \<notin> set xs" using numbered_chain.path_distinct [OF c p] by simp
  moreover have "base \<noteq> block" using numbered_chain.path_not_self [OF c p] by auto
  moreover have "descends par base b" using b path_last_descends [OF p, of b] by auto
  moreover have "descends par b block" using b descends_path [OF p, of b] by auto
  ultimately show "b \<in> {b. b \<noteq> base \<and> descends par base b \<and> descends par b block}" using b by auto
next
  fix b
  assume "b \<in> {b. b \<noteq> base \<and> descends par base b \<and> descends par b block}"
  then show "b \<in> insert block (set xs)"
    using numbered_chain.descends_path_cases [OF c p] numbered_chain.descends_antisym [OF c, of base b] by auto
qed

definition precommit_blocks :: "('h \<rightharpoonup> 'h) \<Rightarrow> 'h \<Rightarrow> ('h, 's, 'i) SignedPrecommit list \<Rightarrow> 'h set" where
  "precommit_blocks par t ps =
     {b. b \<noteq> t \<and> descends par t b \<and> (\<exists>sp\<in>set ps. descends par b (pc_target_hash (sp_precommit sp)))}"

lemma precommit_blocks_Cons:
  "precommit_blocks par t (sp # ps) =
     {b. b \<noteq> t \<and> descends par t b \<and> descends par b (pc_target_hash (sp_precommit sp))} \<union> precommit_blocks par t ps"
  by (auto simp: precommit_blocks_def)

lemma verify_precommits_iff:
  assumes c: "block_chain par number anc"
  shows "verify_precommits sg anc t rnd sid ps V = Ok W \<longleftrightarrow>
    (\<forall>sp\<in>set ps. check_message_sig sg (PrecommitMsg (sp_precommit sp)) [sp_id sp] [sp_signature sp] rnd sid
       \<and> descends par t (pc_target_hash (sp_precommit sp))) \<and> W = V \<union> precommit_blocks par t ps"
proof (induction ps arbitrary: V)
  case Nil
  then show ?case by (auto simp: precommit_blocks_def)
next
  case (Cons sp ps)
  let ?b = "pc_target_hash (sp_precommit sp)"
  note n = block_chain.axioms(1) [OF c]
  show ?case
  proof (cases "t = ?b")
    case True
    have "b = t" if "descends par t b" "descends par b ?b" for b
      by (rule numbered_chain.descends_antisym [OF n that(2) [folded True] that(1)])
    then have e: "{b. b \<noteq> t \<and> descends par t b \<and> descends par b ?b} = {}" by blast
    have "descends par t ?b" by (subst True) (rule descends_refl)
    then show ?thesis using True Cons.IH [of V] unfolding precommit_blocks_Cons e by simp
  next
    case False
    show ?thesis
    proof (cases "anc t ?b")
      case None
      then show ?thesis using False block_chain.ancestry_None [OF c None False] by simp
    next
      case (Some route)
      note p = block_chain.ancestry_Some [OF c Some False]
      have "descends par t ?b" by (rule descends_path [OF p]) simp
      moreover have "insert ?b V \<union> set route \<union> X = V \<union> ({b. b \<noteq> t \<and> descends par t b \<and> descends par b ?b} \<union> X)" for X
        using route_blocks [OF n p] by blast
      ultimately show ?thesis using False Some Cons.IH by (simp add: precommit_blocks_Cons)
    qed
  qed
qed

section \<open>Making a justification\<close>

text \<open>
  What the client promises of its headers: they are found by their hash, and the number of a header that is not the genesis is
  the one after its parent's.
\<close>

definition client_headers :: "('h \<Rightarrow> u64) \<Rightarrow> (('h, 'x) Header \<Rightarrow> 'h) \<Rightarrow> ('h \<Rightarrow> ('h, 'x) Header option result) \<Rightarrow> bool" where
  "client_headers number hash header \<longleftrightarrow> (\<forall>h x. header h = Ok (Some x) \<longrightarrow> hash x = h \<and> hd_number x = number h
     \<and> (0 < hd_number x \<longrightarrow> unat (number h) = Suc (unat (number (hd_parent_hash x)))))"

definition client_parent :: "('h \<Rightarrow> ('h, 'x) Header option result) \<Rightarrow> 'h \<rightharpoonup> 'h" where
  "client_parent header h =
     (case header h of Inr (Some x) \<Rightarrow> if 0 < hd_number x then Some (hd_parent_hash x) else None | _ \<Rightarrow> None)"

lemma client_headersD:
  "client_headers number hash header \<Longrightarrow> header h = Ok (Some x) \<Longrightarrow>
     hash x = h \<and> hd_number x = number h \<and> (0 < hd_number x \<longrightarrow> unat (number h) = Suc (unat (number (hd_parent_hash x))))"
  by (simp add: client_headers_def)

text \<open>
  The headers collected so far, \<open>C\<close> the precommit targets seen: they are the client's, above the target; each one's parent is the
  target, collected, or the next to visit; and each is a precommit target or the parent of another one.
\<close>

definition collected ::
  "('h \<Rightarrow> ('h, 'x) Header option result) \<Rightarrow> (('h, 'x) Header \<Rightarrow> 'h) \<Rightarrow> 'h \<Rightarrow> u64 \<Rightarrow> 'h set \<Rightarrow> 'h set \<Rightarrow> 'h set \<Rightarrow> ('h, 'x) Header list \<Rightarrow> bool" where
  "collected header hash t tn C open V hs \<longleftrightarrow> V = hash ` set hs \<and> t \<notin> V
     \<and> (\<forall>x\<in>set hs. header (hash x) = Ok (Some x) \<and> tn < hd_number x \<and> hd_parent_hash x \<in> insert t V \<union> open)
     \<and> (\<forall>b\<in>V \<union> open. b \<in> C \<or> (\<exists>x\<in>set hs. hd_parent_hash x = b))"

lemma collected_step:
  assumes c: "collected header hash t tn C {cur} V hs" and x: "header cur = Ok (Some x)" "tn < hd_number x" "hash x = cur" "cur \<noteq> t"
  shows "collected header hash t tn C {hd_parent_hash x} (insert cur V) (if cur \<in> V then hs else hs @ [x])"
proof -
  have "x \<in> set hs" if v: "cur \<in> V"
  proof -
    obtain y where "y \<in> set hs" "hash y = cur" using v c by (auto simp: collected_def)
    then show ?thesis using c x(1) by (auto simp: collected_def)
  qed
  then show ?thesis using c x unfolding collected_def by auto
qed

lemma from_commit_loop_spec:
  assumes cl: "client_headers number hash header"
  shows "collected header hash t tn C {cur} V hs \<Longrightarrow>
    \<exists>r. from_commit_loop header t tn cur V hs = Some r
      \<and> (\<forall>V' hs'. r = Ok (V', hs') \<longrightarrow> collected header hash t tn C {} V' hs' \<and> cur \<in> insert t V' \<and> V \<subseteq> V')
      \<and> (descends (client_parent header) t cur \<longrightarrow> tn = number t \<longrightarrow> is_ok r)"
proof (induction "unat (number cur)" arbitrary: cur V hs rule: less_induct)
  case less
  show ?case
  proof (cases "cur = t")
    case True
    then show ?thesis using less.prems by (subst from_commit_loop.simps) (auto simp: collected_def)
  next
    case neq: False
    have down: "\<exists>x. header cur = Ok (Some x) \<and> tn < hd_number x \<and> descends (client_parent header) t (hd_parent_hash x)"
      if d: "descends (client_parent header) t cur" "tn = number t"
    proof -
      obtain x where x: "header cur = Ok (Some x)" "0 < hd_number x" "descends (client_parent header) t (hd_parent_hash x)"
        using d(1) neq descends_step [of "client_parent header" t cur]
        by (auto simp: client_parent_def split: sum.splits option.splits if_splits)
      have "numbered_chain (client_parent header) number"
        using client_headersD [OF cl] by unfold_locales (auto simp: client_parent_def split: sum.splits option.splits if_splits)
      from numbered_chain.descends_number [OF this d(1)] have "number t < number cur" using neq by simp
      then show ?thesis using x d(2) client_headersD [OF cl x(1)] by auto
    qed
    show ?thesis
    proof (cases "\<exists>x. header cur = Ok (Some x) \<and> tn < hd_number x")
      case False
      then have "\<exists>e. from_commit_loop header t tn cur V hs = Some (Err e)"
        using neq by (subst from_commit_loop.simps) (auto simp: not_less split: sum.splits option.splits)
      then show ?thesis using down False by auto
    next
      case True
      then obtain x where x: "header cur = Ok (Some x)" "tn < hd_number x" by blast
      let ?hs = "if cur \<in> V then hs else hs @ [x]"
      have h: "hash x = cur" "unat (number (hd_parent_hash x)) < unat (number cur)"
        using client_headersD [OF cl x(1)] le_less_trans [OF word_zero_le x(2)] by auto
      note IH = less.hyps [OF h(2) collected_step [OF less.prems x h(1) neq]]
      obtain r where r: "from_commit_loop header t tn (hd_parent_hash x) (insert cur V) ?hs = Some r"
        "\<forall>V' hs'. r = Ok (V', hs') \<longrightarrow> collected header hash t tn C {} V' hs' \<and> hd_parent_hash x \<in> insert t V' \<and> insert cur V \<subseteq> V'"
        "descends (client_parent header) t (hd_parent_hash x) \<longrightarrow> tn = number t \<longrightarrow> is_ok r"
        using IH by (elim exE conjE) (rule that)
      have "from_commit_loop header t tn cur V hs = Some r"
        using r(1) x(1) x(2) [unfolded not_le [symmetric]] neq by (subst from_commit_loop.simps) simp
      moreover have "descends (client_parent header) t cur \<longrightarrow> tn = number t \<longrightarrow> is_ok r" using down r(3) x(1) by auto
      moreover have "\<forall>V' hs'. r = Ok (V', hs') \<longrightarrow> collected header hash t tn C {} V' hs' \<and> cur \<in> insert t V' \<and> V \<subseteq> V'"
        using r(2) by simp
      ultimately show ?thesis by (intro exI [of _ r]) simp
    qed
  qed
qed

lemma from_commit_votes_spec:
  assumes cl: "client_headers number hash header"
  shows "collected header hash t tn C {} V hs \<Longrightarrow> C \<subseteq> insert t V \<Longrightarrow>
    \<exists>r. from_commit_votes header t tn ps V hs = Some r
      \<and> (\<forall>hs'. r = Ok hs' \<longrightarrow> (\<exists>V'. collected header hash t tn (C \<union> (pc_target_hash \<circ> sp_precommit) ` set ps) {} V' hs'
           \<and> C \<union> (pc_target_hash \<circ> sp_precommit) ` set ps \<subseteq> insert t V'))
      \<and> ((\<forall>sp\<in>set ps. descends (client_parent header) t (pc_target_hash (sp_precommit sp))) \<longrightarrow> tn = number t \<longrightarrow> is_ok r)"
proof (induction ps arbitrary: C V hs)
  case (Cons sp ps)
  let ?b = "pc_target_hash (sp_precommit sp)"
  have "collected header hash t tn (insert ?b C) {?b} V hs" using Cons.prems(1) by (auto simp: collected_def)
  from from_commit_loop_spec [OF cl this] obtain r where r: "from_commit_loop header t tn ?b V hs = Some r"
    "\<And>V' hs'. r = Ok (V', hs') \<Longrightarrow> collected header hash t tn (insert ?b C) {} V' hs' \<and> ?b \<in> insert t V' \<and> V \<subseteq> V'"
    "descends (client_parent header) t ?b \<longrightarrow> tn = number t \<longrightarrow> is_ok r" by blast
  show ?case
  proof (cases r)
    case (Inl e)
    then show ?thesis using r(1,3) by auto
  next
    case (Inr p)
    then obtain V' hs' where p: "r = Ok (V', hs')" by (cases p) simp
    have "collected header hash t tn (insert ?b C) {} V' hs'" "insert ?b C \<subseteq> insert t V'" using r(2) [OF p] Cons.prems(2) by auto
    from Cons.IH [OF this] r(1) p show ?thesis by simp blast
  qed
qed auto

lemma collected_parent:
  assumes "collected header hash t tn C {} V hs" "x \<in> set hs"
  shows "chain_parent hash hs (hash x) = Some (hd_parent_hash x)"
proof -
  obtain y where y: "ancestry_chain_new hash hs (hash x) = Some y" using chain_dom [of hash hs] assms(2) by blast
  then have "header (hash x) = Ok (Some y)" using chain_header [OF y] assms(1) by (auto simp: collected_def)
  then have "y = x" using assms by (simp add: collected_def)
  then show ?thesis using y by (simp add: chain_parent_def)
qed

lemma collected_numbered:
  assumes "client_headers number hash header" "collected header hash t tn C {} V hs"
  shows "headers_numbered number hash hs"
  unfolding headers_numbered_def
proof
  fix x
  assume "x \<in> set hs"
  then have "header (hash x) = Ok (Some x)" "tn < hd_number x" using assms(2) by (auto simp: collected_def)
  then show "unat (number (hash x)) = Suc (unat (number (hd_parent_hash x)))"
    using client_headersD [OF assms(1)] le_less_trans [OF word_zero_le] by blast
qed

lemma collected_descends:
  assumes cl: "client_headers number hash header" and c: "collected header hash t tn C {} V hs"
  shows "b \<in> V \<Longrightarrow> descends (chain_parent hash hs) t b"
proof (induction "unat (number b)" arbitrary: b rule: less_induct)
  case less
  then obtain x where x: "x \<in> set hs" "hash x = b" "hd_parent_hash x = t \<or> hd_parent_hash x \<in> V" using c by (auto simp: collected_def)
  have p: "chain_parent hash hs b = Some (hd_parent_hash x)" using collected_parent [OF c x(1)] x(2) by simp
  have n: "unat (number (hd_parent_hash x)) < unat (number b)"
    using collected_numbered [OF cl c] x by (auto simp: headers_numbered_def)
  have "descends (chain_parent hash hs) t (hd_parent_hash x)" using x(3) less.hyps [OF n] by auto
  then show ?case using p descends_step [of "chain_parent hash hs" t b] by auto
qed

lemma collected_above:
  assumes cl: "client_headers number hash header" and c: "collected header hash t tn C {} V hs"
  shows "b \<in> V \<Longrightarrow> \<exists>d\<in>C. descends (chain_parent hash hs) b d"
proof (induction "2 ^ 64 - unat (number b)" arbitrary: b rule: less_induct)
  case less
  show ?case
  proof (cases "b \<in> C")
    case False
    then obtain x where x: "x \<in> set hs" "hd_parent_hash x = b" using c less.prems by (auto simp: collected_def)
    have "unat (number b) < unat (number (hash x))" using collected_numbered [OF cl c] x by (auto simp: headers_numbered_def)
    moreover have "unat (number (hash x)) < 2 ^ 64" using unsigned_less [of "number (hash x)"] by simp
    ultimately have "2 ^ 64 - unat (number (hash x)) < 2 ^ 64 - unat (number b)" by linarith
    moreover have "hash x \<in> V" using c x(1) by (auto simp: collected_def)
    ultimately obtain d where d: "d \<in> C" "descends (chain_parent hash hs) (hash x) d" using less.hyps by blast
    have "descends (chain_parent hash hs) b (hash x)" using collected_parent [OF c x(1)] x(2) by (simp add: descends_parent)
    from descends_trans [OF this d(2)] show ?thesis using d(1) by (rule bexI)
  qed auto
qed

lemma collected_blocks:
  assumes cl: "client_headers number hash header"
    and c: "collected header hash t tn ((pc_target_hash \<circ> sp_precommit) ` set ps) {} V hs"
  shows "V = precommit_blocks (chain_parent hash hs) t ps"
proof (intro equalityI subsetI)
  fix b
  assume b: "b \<in> V"
  moreover have "b \<noteq> t" using b c by (auto simp: collected_def)
  ultimately show "b \<in> precommit_blocks (chain_parent hash hs) t ps"
    using collected_descends [OF cl c b] collected_above [OF cl c b] by (auto simp: precommit_blocks_def)
next
  fix b
  assume "b \<in> precommit_blocks (chain_parent hash hs) t ps"
  then have "chain_parent hash hs b \<noteq> None" using descends_step [of "chain_parent hash hs" t b] by (auto simp: precommit_blocks_def)
  then show "b \<in> V" using chain_dom [of hash hs] c by (auto simp: chain_parent_def collected_def)
qed

lemma from_commit_spec:
  assumes cl: "client_headers number hash header"
  obtains r where "from_commit header round c = Some r"
    "\<And>j. r = Ok j \<Longrightarrow> cj_round j = round \<and> cj_commit j = c \<and> headers_numbered number hash (cj_votes_ancestries j)
       \<and> hash ` set (cj_votes_ancestries j) =
           precommit_blocks (chain_parent hash (cj_votes_ancestries j)) (cm_target_hash c) (cm_precommits c)
       \<and> (\<forall>sp\<in>set (cm_precommits c).
            descends (chain_parent hash (cj_votes_ancestries j)) (cm_target_hash c) (pc_target_hash (sp_precommit sp)))"
    "(\<forall>sp\<in>set (cm_precommits c). descends (client_parent header) (cm_target_hash c) (pc_target_hash (sp_precommit sp)))
       \<Longrightarrow> cm_target_number c = number (cm_target_hash c) \<Longrightarrow> is_ok r"
proof -
  let ?t = "cm_target_hash c" and ?n = "cm_target_number c" and ?ps = "cm_precommits c"
  let ?C = "(pc_target_hash \<circ> sp_precommit) ` set ?ps"
  have "collected header hash ?t ?n {} {} {} []" by (simp add: collected_def)
  from from_commit_votes_spec [OF cl this, of ?ps] obtain v where v: "from_commit_votes header ?t ?n ?ps {} [] = Some v"
    "\<forall>hs. v = Ok hs \<longrightarrow> (\<exists>V. collected header hash ?t ?n ?C {} V hs \<and> ?C \<subseteq> insert ?t V)"
    "(\<forall>sp\<in>set ?ps. descends (client_parent header) ?t (pc_target_hash (sp_precommit sp))) \<longrightarrow> ?n = number ?t \<longrightarrow> is_ok v"
    by auto
  show thesis
  proof (rule that)
    show "from_commit header round c = Some (map_sum id (\<lambda>hs. \<lparr>cj_round = round, cj_commit = c, cj_votes_ancestries = hs\<rparr>) v)"
      using v(1) by (simp add: from_commit_def)
  next
    fix j
    assume "map_sum id (\<lambda>hs. \<lparr>cj_round = round, cj_commit = c, cj_votes_ancestries = hs\<rparr>) v = Ok j"
    then obtain hs V where j: "j = \<lparr>cj_round = round, cj_commit = c, cj_votes_ancestries = hs\<rparr>"
      and hs: "collected header hash ?t ?n ?C {} V hs" "?C \<subseteq> insert ?t V"
      using v(2) by (cases v) auto
    have "descends (chain_parent hash hs) ?t (pc_target_hash (sp_precommit sp))" if "sp \<in> set ?ps" for sp
      using collected_descends [OF cl hs(1)] hs(2) that by fastforce
    moreover have "hash ` set hs = V" using hs(1) by (simp add: collected_def)
    ultimately show "cj_round j = round \<and> cj_commit j = c \<and> headers_numbered number hash (cj_votes_ancestries j)
       \<and> hash ` set (cj_votes_ancestries j) = precommit_blocks (chain_parent hash (cj_votes_ancestries j)) ?t ?ps
       \<and> (\<forall>sp\<in>set ?ps. descends (chain_parent hash (cj_votes_ancestries j)) ?t (pc_target_hash (sp_precommit sp)))"
      using collected_numbered [OF cl hs(1)] collected_blocks [OF cl hs(1)] j by simp
  next
    assume "\<forall>sp\<in>set ?ps. descends (client_parent header) ?t (pc_target_hash (sp_precommit sp))" "?n = number ?t"
    then show "is_ok (map_sum id (\<lambda>hs. \<lparr>cj_round = round, cj_commit = c, cj_votes_ancestries = hs\<rparr>) v)"
      using v(3) by (cases v) auto
  qed
qed

section \<open>Justifications prove finality\<close>


text \<open>
  C30: a justification can be made in bounded time. With the headers of a client, \<open>from_commit\<close> always returns, for any
  commit at all, and it succeeds when the precommits are at or above the target.
\<close>

theorem from_commit_returns:
  assumes "client_headers number hash header"
  shows "\<exists>r. from_commit header round c = Some r
    \<and> ((\<forall>sp\<in>set (cm_precommits c). descends (client_parent header) (cm_target_hash c) (pc_target_hash (sp_precommit sp)))
        \<longrightarrow> cm_target_number c = number (cm_target_hash c) \<longrightarrow> is_ok r)"
proof -
  obtain r where "from_commit header round c = Some r"
    "(\<forall>sp\<in>set (cm_precommits c). descends (client_parent header) (cm_target_hash c) (pc_target_hash (sp_precommit sp)))
       \<Longrightarrow> cm_target_number c = number (cm_target_hash c) \<Longrightarrow> is_ok r"
    by (rule from_commit_spec [OF assms]) blast
  then show ?thesis by blast
qed


text \<open>
  C31: the justification made up for block one is never accepted. \<open>import_block\<close> makes one without precommits for a first block that comes
  without a justification; \<open>verify\<close> rejects it for every set of voters that has any weight.
\<close>

theorem default_justification_rejected:
  fixes sg :: "('h::linorder, 's, 'i) signing"
  assumes "voters_ok voters"
  shows "verify sg hash (default_justification h n) set_id voters = Some (Err ''invalid commit in CRFG justification'')"
proof -
  let ?r = "round_new \<lparr>rp_round_number = 0, rp_voters = voters, rp_base = (h, n)\<rparr> :: ('i, 'h, 's) Round"
  have "0 < unat (vs_threshold voters)"
    using voters_ok_total [OF assms] by (simp add: unat_threshold)
  then have "\<not> round_threshold ?r \<le> vt_current_weight (rd_precommit ?r)"
    by (simp add: round_threshold_def round_new_fields tracker_new_def word_le_nat_alt)
  then have "precommit_ghost ?r = Some (None, ?r)" by (simp add: precommit_ghost_def round_new_fields)
  then show ?thesis by (simp add: verify_def default_justification_def validate_commit_def)
qed

section \<open>Examples\<close>

text \<open>A client with the headers of the forked chain above its first block, each hashed to its name.\<close>

definition forked_header :: "string \<Rightarrow> (string, string) Header option result" where
  "forked_header b = Ok (map_option (\<lambda>p. \<lparr>hd_number = dummy_number forked_chain b, hd_parent_hash = p, hd_rest = b\<rparr>) (dummy_par forked_chain b))"

lemma forked_headers: "client_headers (dummy_number forked_chain) hd_rest forked_header"
  using forked.number_parent by (auto simp: client_headers_def forked_header_def)

lemma forked_client_parent: "client_parent forked_header = dummy_par forked_chain"
proof
  fix b
  show "client_parent forked_header b = dummy_par forked_chain b"
    using forked.number_parent [of b] by (cases "dummy_par forked_chain b") (auto simp: client_parent_def forked_header_def word_greater_zero_iff)
qed

text \<open>Signatures of which only \<open>0\<close> is valid.\<close>

definition zero_signing :: "(string, nat, nat) signing" where
  "zero_signing = \<lparr>payload_encode = (\<lambda>_. []), ed25519_verify = (\<lambda>s _ _. s = 0)\<rparr>"

definition forked_precommits :: "(string, nat, nat) SignedPrecommit list" where
  "forked_precommits = [on_block ''D1'' 5 0, on_block ''D1'' 5 1, on_block ''E1'' 6 2]"

definition forked_justification :: "(string, nat, nat, string) CrfgJustification" where
  "forked_justification = \<lparr>cj_round = 1, cj_commit = \<lparr>cm_target_hash = ''D1'', cm_target_number = 5, cm_precommits = forked_precommits\<rparr>,
     cj_votes_ancestries = [\<lparr>hd_number = 6, hd_parent_hash = ''D1'', hd_rest = ''E1''\<rparr>]\<rparr>"

lemma forked_from_commit:
  "from_commit forked_header 1 \<lparr>cm_target_hash = ''D1'', cm_target_number = 5, cm_precommits = forked_precommits\<rparr> = Some (Ok forked_justification)"
  by (simp add: from_commit_def forked_precommits_def on_block_def from_commit_loop.simps forked_header_def dummy_par_def dummy_number_def
      forked_chain_records GENESIS_HASH_def NULL_HASH_def forked_justification_def)

lemma forked_finalized:
  obtains r where "reachable_round (dummy_number forked_chain) (dummy_chain_ancestry forked_chain) four_voters r"
    "rd_finalized r = Some (''D1'', 5)" "finalizing_precommits (dummy_chain_ancestry forked_chain) r = Some forked_precommits"
proof -
  let ?anc = "dummy_chain_ancestry forked_chain"
  let ?run = "import_messages ?anc (map (prevote_on ''D1'' 5) [0, 1, 2] @ [precommit_on ''D1'' 5 0, precommit_on ''D1'' 5 1, precommit_on ''E1'' 6 2])
     (round_new four_voters)"
  have "map_option (\<lambda>r. (rd_finalized r, finalizing_precommits ?anc r)) ?run = Some (Some (''D1'', 5), Some forked_precommits)"
    by (simp add: forked_precommits_def on_block_def four_voters_def prevote_on_def precommit_on_def chain_eval graph_eval weight_eval round_eval
        forked_chain_records finalizing_precommits_def is_equal_or_descendent_of_def)
  then obtain r where r: "?run = Some r" "rd_finalized r = Some (''D1'', 5)" "finalizing_precommits ?anc r = Some forked_precommits"
    by (auto simp del: list.map)
  have "reachable_round (dummy_number forked_chain) ?anc four_voters r"
    using r(1) by (elim reachable_messages) (auto intro: reachable_round.start
        simp: prevote_on_def precommit_on_def dummy_number_def forked_chain_records GENESIS_HASH_def)
  then show thesis using r that by blast
qed

lemma forked_precommits_above:
  "\<forall>sp\<in>set forked_precommits. descends (client_parent forked_header) ''D1'' (pc_target_hash (sp_precommit sp))
      \<and> pc_target_number (sp_precommit sp) = dummy_number forked_chain (pc_target_hash (sp_precommit sp))
      \<and> ed25519_verify zero_signing (sp_signature sp) (payload_encode zero_signing (PrecommitMsg (sp_precommit sp), 1, 0)) (sp_id sp)"
  unfolding forked_client_parent
  by (simp add: forked_precommits_def on_block_def zero_signing_def descends_step [of _ "''D1''" "''E1''"] dummy_par_def dummy_number_def
      forked_chain_records GENESIS_HASH_def NULL_HASH_def)


theorem from_commit_returns_witness:
  "\<exists>j. from_commit forked_header 1 \<lparr>cm_target_hash = ''D1'', cm_target_number = 5, cm_precommits = forked_precommits\<rparr> = Some (Ok j)"
  using from_commit_returns [OF forked_headers, of 1 "\<lparr>cm_target_hash = ''D1'', cm_target_number = 5, cm_precommits = forked_precommits\<rparr>"]
    forked_precommits_above
  by (auto simp: is_ok_iff dummy_number_def forked_chain_records GENESIS_HASH_def)

lemma forked_verify: "verify zero_signing hd_rest forked_justification 0 (rp_voters four_voters) = Some (Ok ())"
  by (simp add: verify_def forked_justification_def validate_commit_def forked_precommits_def on_block_def four_voters_def chain_ancestry_def
      ancestry_chain_new_def graph_eval weight_eval round_eval is_equal_or_descendent_of_def check_message_sig_def zero_signing_def)


theorem default_justification_rejected_witness:
  "verify zero_signing hd_rest (default_justification ''A'' 1) 0 (rp_voters four_voters) = Some (Err ''invalid commit in CRFG justification'')"
  by (rule default_justification_rejected [OF four_voters_ok(1)])

end
