(* ===== verification/Authorities.thy ===== *)
theory Authorities
  imports Yee_Base "HOL-Library.Product_Lexorder"
begin

text \<open>
  The authority sets of the finality client, \<open>core/crfg/src/authorities.rs\<close>: the current authorities
  with the id of their set, the standard changes pending on a fork tree, and the
  forced changes. The fork tree is Substrate's: its operations are a parameter, with their
  documented behaviour as the predicate \<open>fork_tree_ok\<close>. Errors of the client are strings.
\<close>

section \<open>Pending changes\<close>

datatype DelayKind = Finalized | Best u64

record ('i, 'h) PendingChange =
  next_authorities :: "('i \<times> u64) list"
  delay :: u64
  canon_height :: u64
  canon_hash :: 'h
  delay_kind :: DelayKind

definition effective_number :: "('i, 'h) PendingChange \<Rightarrow> u64" where
  "effective_number c = canon_height c + delay c"

text \<open>
  The binary search of the standard library by a key, on a list sorted by it: \<open>Inr\<close> an index with the key, or
  \<open>Inl\<close> the index at which to insert it.
\<close>

definition binary_search_by_key :: "'k::linorder \<Rightarrow> ('x \<Rightarrow> 'k) \<Rightarrow> 'x list \<Rightarrow> nat + nat" where
  "binary_search_by_key key f xs =
     (let i = length (takeWhile (\<lambda>x. f x < key) xs)
      in if i < length xs \<and> f (xs ! i) = key then Inr i else Inl i)"

definition insert_at :: "nat \<Rightarrow> 'x \<Rightarrow> 'x list \<Rightarrow> 'x list" where
  "insert_at i x xs = take i xs @ x # drop i xs"

definition search_index :: "nat + nat \<Rightarrow> nat" where
  "search_index r = (case r of Inr i \<Rightarrow> i | Inl i \<Rightarrow> i)"

section \<open>The fork tree\<close>

datatype 'c FinalizationResult = Changed "'c option" | Unchanged

type_synonym 'h descendence = "'h \<Rightarrow> 'h \<Rightarrow> bool result"

record ('t, 'h, 'c) fork_tree =
  ft_new :: 't
  ft_import :: "'h \<Rightarrow> u64 \<Rightarrow> 'c \<Rightarrow> 'h descendence \<Rightarrow> 't \<Rightarrow> bool result \<times> 't"
  ft_roots :: "'t \<Rightarrow> ('h \<times> u64 \<times> 'c) list"
  ft_iter :: "'t \<Rightarrow> ('h \<times> u64 \<times> 'c) list"
  finalize_with_descendent_if :: "'h \<Rightarrow> u64 \<Rightarrow> 'h descendence \<Rightarrow> ('c \<Rightarrow> bool) \<Rightarrow> 't \<Rightarrow> 'c FinalizationResult result \<times> 't"
  finalizes_any_with_descendent_if :: "'h \<Rightarrow> u64 \<Rightarrow> 'h descendence \<Rightarrow> ('c \<Rightarrow> bool) \<Rightarrow> 't \<Rightarrow> bool option result"

definition ft_data :: "('t, 'h, 'c) fork_tree \<Rightarrow> 't \<Rightarrow> 'c set" where
  "ft_data ft t = (snd \<circ> snd) ` set (ft_iter ft t)"

text \<open>
  A new tree is empty, an import adds at most the imported value, and finalization only removes values,
  returns one of the tree that satisfies the predicate, and leaves the tree as it is if it reports no change.
\<close>

definition fork_tree_ok :: "('t, 'h, 'c) fork_tree \<Rightarrow> bool" where
  "fork_tree_ok ft \<longleftrightarrow> ft_iter ft (ft_new ft) = []
     \<and> (\<forall>h n c isd t. ft_data ft (snd (ft_import ft h n c isd t)) \<subseteq> insert c (ft_data ft t))
     \<and> (\<forall>h n isd P t. ft_data ft (snd (finalize_with_descendent_if ft h n isd P t)) \<subseteq> ft_data ft t)
     \<and> (\<forall>h n isd P t c. fst (finalize_with_descendent_if ft h n isd P t) = Ok (Changed (Some c)) \<longrightarrow> c \<in> ft_data ft t \<and> P c)
     \<and> (\<forall>h n isd P t. fst (finalize_with_descendent_if ft h n isd P t) = Ok Unchanged \<longrightarrow> snd (finalize_with_descendent_if ft h n isd P t) = t)"

lemma fork_tree_okD:
  assumes "fork_tree_ok ft"
  shows "ft_iter ft (ft_new ft) = []" "ft_data ft (snd (ft_import ft h n c isd t)) \<subseteq> insert c (ft_data ft t)"
    "ft_data ft (snd (finalize_with_descendent_if ft h n isd P t)) \<subseteq> ft_data ft t"
    "fst (finalize_with_descendent_if ft h n isd P t) = Ok (Changed (Some c)) \<Longrightarrow> c \<in> ft_data ft t \<and> P c"
    "fst (finalize_with_descendent_if ft h n isd P t) = Ok Unchanged \<Longrightarrow> snd (finalize_with_descendent_if ft h n isd P t) = t"
proof -
  note ok = assms [unfolded fork_tree_ok_def]
  show "ft_iter ft (ft_new ft) = []" using ok by (rule conjunct1)
  show "ft_data ft (snd (ft_import ft h n c isd t)) \<subseteq> insert c (ft_data ft t)"
    using ok [THEN conjunct2, THEN conjunct1] by simp
  show "ft_data ft (snd (finalize_with_descendent_if ft h n isd P t)) \<subseteq> ft_data ft t"
    using ok [THEN conjunct2, THEN conjunct2, THEN conjunct1] by simp
  show "fst (finalize_with_descendent_if ft h n isd P t) = Ok (Changed (Some c)) \<Longrightarrow> c \<in> ft_data ft t \<and> P c"
    by (rule ok [THEN conjunct2, THEN conjunct2, THEN conjunct2, THEN conjunct1, rule_format])
  show "fst (finalize_with_descendent_if ft h n isd P t) = Ok Unchanged \<Longrightarrow> snd (finalize_with_descendent_if ft h n isd P t) = t"
    by (rule ok [THEN conjunct2, THEN conjunct2, THEN conjunct2, THEN conjunct2, rule_format])
qed

section \<open>Authority sets\<close>

record ('i, 'h, 't) AuthoritySet =
  current_authorities :: "('i \<times> u64) list"
  set_id :: u64
  pending_standard_changes :: 't
  pending_forced_changes :: "('i, 'h) PendingChange list"

record 'h Status =
  changed :: bool
  new_set_block :: "('h \<times> u64) option"

definition authorities_genesis :: "('t, 'h, ('i, 'h) PendingChange) fork_tree \<Rightarrow> ('i \<times> u64) list \<Rightarrow> ('i, 'h, 't) AuthoritySet" where
  "authorities_genesis ft initial = \<lparr>current_authorities = initial, set_id = 0, pending_standard_changes = ft_new ft,
     pending_forced_changes = []\<rparr>"

definition current :: "('i, 'h, 't) AuthoritySet \<Rightarrow> u64 \<times> ('i \<times> u64) list" where
  "current self = (set_id self, current_authorities self)"

definition add_standard_change ::
  "('t, 'h, ('i, 'h) PendingChange) fork_tree \<Rightarrow> ('i, 'h) PendingChange \<Rightarrow> 'h descendence \<Rightarrow> ('i, 'h, 't) AuthoritySet
     \<Rightarrow> unit result \<times> ('i, 'h, 't) AuthoritySet" where
  "add_standard_change ft pending is_descendent_of self =
     (case ft_import ft (canon_hash pending) (canon_height pending) pending is_descendent_of (pending_standard_changes self) of
        (r, t) \<Rightarrow> (map_sum id (\<lambda>_. ()) r, self\<lparr>pending_standard_changes := t\<rparr>))"

definition add_forced_change ::
  "('i, 'h) PendingChange \<Rightarrow> 'h descendence \<Rightarrow> ('i, 'h, 't) AuthoritySet \<Rightarrow> unit result \<times> ('i, 'h, 't) AuthoritySet" where
  "add_forced_change pending is_descendent_of self =
     (let self = self\<lparr>pending_forced_changes := []\<rparr>;
          key = (effective_number pending, canon_height pending);
          idx = search_index (binary_search_by_key key (\<lambda>change. (effective_number change, canon_height change))
                  (pending_forced_changes self))
      in (Ok (), self\<lparr>pending_forced_changes := insert_at idx pending (pending_forced_changes self)\<rparr>))"

definition add_pending_change ::
  "('t, 'h, ('i, 'h) PendingChange) fork_tree \<Rightarrow> ('i, 'h) PendingChange \<Rightarrow> 'h descendence \<Rightarrow> ('i, 'h, 't) AuthoritySet
     \<Rightarrow> unit result \<times> ('i, 'h, 't) AuthoritySet" where
  "add_pending_change ft pending is_descendent_of self =
     (case delay_kind pending of
        Best _ \<Rightarrow> add_forced_change pending is_descendent_of self
      | Finalized \<Rightarrow> add_standard_change ft pending is_descendent_of self)"

definition pending_changes :: "('t, 'h, ('i, 'h) PendingChange) fork_tree \<Rightarrow> ('i, 'h, 't) AuthoritySet \<Rightarrow> ('i, 'h) PendingChange list" where
  "pending_changes ft self = map (\<lambda>(_, _, c). c) (ft_iter ft (pending_standard_changes self)) @ pending_forced_changes self"

definition current_limit :: "('t, 'h, ('i, 'h) PendingChange) fork_tree \<Rightarrow> ('i, 'h, 't) AuthoritySet \<Rightarrow> u64 option" where
  "current_limit ft self =
     (case map (\<lambda>(_, _, c). effective_number c) (ft_roots ft (pending_standard_changes self)) of
        [] \<Rightarrow> None
      | n # ns \<Rightarrow> Some (fold min ns n))"

text \<open>The loop of \<open>apply_forced_changes\<close>: the first change signaled on the branch of the best block.\<close>

fun forced_search :: "'h \<Rightarrow> 'h descendence \<Rightarrow> ('i, 'h) PendingChange list \<Rightarrow> ('i, 'h) PendingChange option result" where
  "forced_search best_hash is_descendent_of [] = Ok None"
| "forced_search best_hash is_descendent_of (change # changes) =
     (if canon_hash change = best_hash then Ok (Some change)
      else (case is_descendent_of (canon_hash change) best_hash of
              Inl e \<Rightarrow> Err e
            | Inr True \<Rightarrow> Ok (Some change)
            | Inr False \<Rightarrow> forced_search best_hash is_descendent_of changes))"

text \<open>\<open>None\<close> is the panic at a forced change of the wrong kind.\<close>

definition apply_forced_changes ::
  "('t, 'h, ('i, 'h) PendingChange) fork_tree \<Rightarrow> 'h \<Rightarrow> u64 \<Rightarrow> 'h descendence \<Rightarrow> ('i, 'h, 't) AuthoritySet
     \<Rightarrow> (u64 \<times> ('i, 'h, 't) AuthoritySet) option result option" where
  "apply_forced_changes ft best_hash best_number is_descendent_of self =
     (case forced_search best_hash is_descendent_of
             (filter (\<lambda>c. effective_number c = best_number)
               (takeWhile (\<lambda>c. effective_number c \<le> best_number) (pending_forced_changes self))) of
        Inl e \<Rightarrow> Some (Err e)
      | Inr None \<Rightarrow> Some (Ok None)
      | Inr (Some change) \<Rightarrow>
          (case delay_kind change of
             Finalized \<Rightarrow> None
           | Best median_last_finalized \<Rightarrow>
               Some (Ok (Some (median_last_finalized,
                 \<lparr>current_authorities = next_authorities change, set_id = set_id self + 1,
                  pending_standard_changes = ft_new ft, pending_forced_changes = []\<rparr>)))))"

definition apply_standard_changes ::
  "('t, 'h, ('i, 'h) PendingChange) fork_tree \<Rightarrow> 'h \<Rightarrow> u64 \<Rightarrow> 'h descendence \<Rightarrow> ('i, 'h, 't) AuthoritySet
     \<Rightarrow> 'h Status result \<times> ('i, 'h, 't) AuthoritySet" where
  "apply_standard_changes ft finalized_hash finalized_number is_descendent_of self =
     (case finalize_with_descendent_if ft finalized_hash finalized_number is_descendent_of
             (\<lambda>change. effective_number change \<le> finalized_number) (pending_standard_changes self) of
        (Inl e, t) \<Rightarrow> (Err e, self\<lparr>pending_standard_changes := t\<rparr>)
      | (Inr Unchanged, t) \<Rightarrow> (Ok \<lparr>changed = False, new_set_block = None\<rparr>, self\<lparr>pending_standard_changes := t\<rparr>)
      | (Inr (Changed None), t) \<Rightarrow>
          (Ok \<lparr>changed = True, new_set_block = None\<rparr>, self\<lparr>pending_standard_changes := t, pending_forced_changes := []\<rparr>)
      | (Inr (Changed (Some change)), t) \<Rightarrow>
          (Ok \<lparr>changed = True, new_set_block = Some (finalized_hash, finalized_number)\<rparr>,
           self\<lparr>pending_standard_changes := t, pending_forced_changes := [],
             current_authorities := next_authorities change, set_id := set_id self + 1\<rparr>))"

definition enacts_standard_change ::
  "('t, 'h, ('i, 'h) PendingChange) fork_tree \<Rightarrow> 'h \<Rightarrow> u64 \<Rightarrow> 'h descendence \<Rightarrow> ('i, 'h, 't) AuthoritySet \<Rightarrow> bool option result" where
  "enacts_standard_change ft finalized_hash finalized_number is_descendent_of self =
     finalizes_any_with_descendent_if ft finalized_hash finalized_number is_descendent_of
       (\<lambda>change. effective_number change = finalized_number) (pending_standard_changes self)"

section \<open>Handoffs\<close>

text \<open>
  The sets that the operations can reach from a genesis set, with the changes announced so far and the number of times
  the authorities were replaced.
\<close>

inductive reachable_set ::
  "('t, 'h, ('i, 'h) PendingChange) fork_tree \<Rightarrow> ('i \<times> u64) list \<Rightarrow> ('i, 'h) PendingChange set \<Rightarrow> nat \<Rightarrow> ('i, 'h, 't) AuthoritySet \<Rightarrow> bool"
  for ft initial where
  genesis: "reachable_set ft initial {} 0 (authorities_genesis ft initial)"
| announce: "reachable_set ft initial A k s \<Longrightarrow> add_pending_change ft c isd s = (res, s') \<Longrightarrow>
    reachable_set ft initial (insert c A) k s'"
| forced: "reachable_set ft initial A k s \<Longrightarrow> apply_forced_changes ft h n isd s = Some (Ok (Some (m, s'))) \<Longrightarrow>
    reachable_set ft initial A (Suc k) s'"
| standard: "reachable_set ft initial A k s \<Longrightarrow> apply_standard_changes ft h n isd s = (r, s') \<Longrightarrow>
    reachable_set ft initial A (if \<exists>st. r = Ok st \<and> new_set_block st \<noteq> None then Suc k else k) s'"

lemma forced_search_in:
  "forced_search b isd cs = Ok (Some c) \<Longrightarrow> c \<in> set cs \<and> (canon_hash c = b \<or> isd (canon_hash c) b = Ok True)"
  by (induction cs) (auto split: if_splits sum.splits bool.splits)

lemma add_forced_change_single: "pending_forced_changes (snd (add_forced_change c isd s)) = [c]"
  by (simp add: add_forced_change_def binary_search_by_key_def search_index_def insert_at_def Let_def)

definition set_inv ::
  "('t, 'h, ('i, 'h) PendingChange) fork_tree \<Rightarrow> ('i \<times> u64) list \<Rightarrow> ('i, 'h) PendingChange set \<Rightarrow> nat \<Rightarrow> ('i, 'h, 't) AuthoritySet \<Rightarrow> bool" where
  "set_inv ft initial A k s \<longleftrightarrow> set_id s = of_nat k \<and> set (pending_changes ft s) \<subseteq> A
     \<and> (current_authorities s = initial \<or> (\<exists>c\<in>A. current_authorities s = next_authorities c))
     \<and> (\<forall>c\<in>set (pending_forced_changes s). delay_kind c \<noteq> Finalized) \<and> length (pending_forced_changes s) \<le> 1"

lemma pending_changes_set: "set (pending_changes ft s) = ft_data ft (pending_standard_changes s) \<union> set (pending_forced_changes s)"
  by (force simp: pending_changes_def ft_data_def)

lemma set_inv_announce:
  assumes ft: "fork_tree_ok ft" and s: "set_inv ft initial A k s" and c: "add_pending_change ft c isd s = (res, s')"
  shows "set_inv ft initial (insert c A) k s'"
proof (cases "delay_kind c")
  case Finalized
  then have "s' = s\<lparr>pending_standard_changes := snd (ft_import ft (canon_hash c) (canon_height c) c isd (pending_standard_changes s))\<rparr>"
    using c by (auto simp: add_pending_change_def add_standard_change_def split: prod.splits)
  moreover have "ft_data ft (snd (ft_import ft (canon_hash c) (canon_height c) c isd (pending_standard_changes s)))
      \<subseteq> insert c (ft_data ft (pending_standard_changes s))" by (rule fork_tree_okD(2) [OF ft])
  ultimately show ?thesis using s by (auto simp: set_inv_def pending_changes_set)
next
  case (Best m)
  then have s': "s' = snd (add_forced_change c isd s)" using c by (simp add: add_pending_change_def)
  have "set_id s' = set_id s" "current_authorities s' = current_authorities s" "pending_standard_changes s' = pending_standard_changes s"
    by (simp_all add: s' add_forced_change_def Let_def)
  then show ?thesis using s Best add_forced_change_single [of c isd s] by (auto simp: set_inv_def pending_changes_set s')
qed

lemma set_inv_standard:
  assumes ft: "fork_tree_ok ft" and s: "set_inv ft initial A k s" and c: "apply_standard_changes ft h n isd s = (r, s')"
  shows "set_inv ft initial A (if \<exists>st. r = Ok st \<and> new_set_block st \<noteq> None then Suc k else k) s'"
proof -
  obtain x t where f: "finalize_with_descendent_if ft h n isd (\<lambda>change. effective_number change \<le> n) (pending_standard_changes s) = (x, t)"
    by fastforce
  have t: "ft_data ft t \<subseteq> ft_data ft (pending_standard_changes s)" using fork_tree_okD(3) [OF ft, of h n isd "\<lambda>change. effective_number change \<le> n" "pending_standard_changes s"] f by simp
  have d: "d \<in> ft_data ft (pending_standard_changes s)" if "x = Ok (Changed (Some d))" for d
    using fork_tree_okD(4) [OF ft, of h n isd "\<lambda>change. effective_number change \<le> n" "pending_standard_changes s" d] f that by simp
  have sub: "ft_data ft (pending_standard_changes s) \<subseteq> A" using s by (simp add: set_inv_def pending_changes_set)
  note a = subset_trans [OF t sub] subsetD [OF sub d]
  note c = c [unfolded apply_standard_changes_def f prod.case]
  consider e where "x = Inl e" | "x = Ok Unchanged" | "x = Ok (Changed None)" | d where "x = Ok (Changed (Some d))"
    by (metis FinalizationResult.exhaust option.exhaust sum.exhaust)
  then show ?thesis
  proof cases
    case 4
    then show ?thesis using c s a by (auto simp: set_inv_def pending_changes_set)
  qed (use c s a(1) in \<open>auto simp: set_inv_def pending_changes_set\<close>)
qed

lemma set_inv_forced:
  assumes ft: "fork_tree_ok ft" and s: "set_inv ft initial A k s"
    and c: "apply_forced_changes ft h n isd s = Some (Ok (Some (m, s')))"
  shows "set_inv ft initial A (Suc k) s'"
proof -
  obtain d where d: "forced_search h isd (filter (\<lambda>c. effective_number c = n) (takeWhile (\<lambda>c. effective_number c \<le> n)
      (pending_forced_changes s))) = Ok (Some d)" "current_authorities s' = next_authorities d" "set_id s' = set_id s + 1"
      "pending_standard_changes s' = ft_new ft" "pending_forced_changes s' = []"
    using c by (auto simp: apply_forced_changes_def split: sum.splits option.splits DelayKind.splits)
  have "d \<in> set (pending_forced_changes s)" using forced_search_in [OF d(1)] by (auto dest: set_takeWhileD)
  moreover have "ft_data ft (ft_new ft) = {}" using fork_tree_okD(1) [OF ft] by (simp add: ft_data_def)
  ultimately show ?thesis using s d(2-5) by (auto simp: set_inv_def pending_changes_set add.commute)
qed


text \<open>A fork tree for the example: the changes in a list, of which finalization takes the first that fits.\<close>

definition list_tree :: "(('h \<times> u64 \<times> 'c) list, 'h, 'c) fork_tree" where
  "list_tree = \<lparr>ft_new = [], ft_import = (\<lambda>h n c isd t. (Ok True, t @ [(h, n, c)])), ft_roots = id, ft_iter = id,
     finalize_with_descendent_if = (\<lambda>h n isd P t. case find (\<lambda>(_, _, c). P c) t of
        None \<Rightarrow> (Ok Unchanged, t) | Some (_, _, c) \<Rightarrow> (Ok (Changed (Some c)), [])),
     finalizes_any_with_descendent_if = (\<lambda>h n isd P t. Ok (if list_ex (\<lambda>(_, _, c). P c) t then Some True else None))\<rparr>"

lemma list_tree_ok: "fork_tree_ok list_tree"
  by (auto simp: fork_tree_ok_def list_tree_def ft_data_def find_Some_iff in_set_conv_nth image_iff split: option.splits)
    (metis nth_mem snd_conv)+


end
