(* ===== verification/Consensus_Changes.thy ===== *)
theory Consensus_Changes
  imports Authorities "HOL-Library.Multiset"
begin

text \<open>
  The tracker of unfinalized changes of consensus data, \<open>core/crfg/src/consensus_changes.rs\<close>: the heights and hashes of the
  blocks that made them, sorted by height. The binary search of the standard library may return any of several equal
  keys; the model takes the first.
\<close>

record 'h ConsensusChanges =
  cc_pending_changes :: "(u64 \<times> 'h) list"

definition changes_empty :: "'h ConsensusChanges" where
  "changes_empty = \<lparr>cc_pending_changes = []\<rparr>"

definition note_change :: "u64 \<times> 'h \<Rightarrow> 'h ConsensusChanges \<Rightarrow> 'h ConsensusChanges" where
  "note_change at self =
     (let idx = search_index (binary_search_by_key (fst at) fst (cc_pending_changes self))
      in self\<lparr>cc_pending_changes := insert_at idx at (cc_pending_changes self)\<rparr>)"

text \<open>
  One step of the fold in \<open>finalize\<close>; \<open>changes_finalize\<close> is \<open>finalize\<close>, which returns whether changes were dropped and whether
  one of these was on the canonical chain. The dropped changes are gone even when a query of the chain failed.
\<close>

definition finalize_step :: "(u64 \<Rightarrow> 'h option result) \<Rightarrow> u64 \<times> 'h \<Rightarrow> bool result \<Rightarrow> bool result" where
  "finalize_step canonical_at_height at has_finalized_changes =
     (case has_finalized_changes of
        Inl e \<Rightarrow> Err e
      | Inr True \<Rightarrow> Ok True
      | Inr False \<Rightarrow> map_sum id (\<lambda>can_hash. Some (snd at) = can_hash) (canonical_at_height (fst at)))"

definition changes_finalize ::
  "u64 \<times> 'h \<Rightarrow> (u64 \<Rightarrow> 'h option result) \<Rightarrow> 'h ConsensusChanges \<Rightarrow> (bool \<times> bool) result \<times> 'h ConsensusChanges" where
  "changes_finalize block canonical_at_height self =
     (let prefix = takeWhile (\<lambda>(at_height, _). at_height \<le> fst block) (cc_pending_changes self);
          has_finalized_changes = fold (finalize_step canonical_at_height) prefix (Ok False);
          altered_changes = prefix \<noteq> [];
          self = (if altered_changes then self\<lparr>cc_pending_changes := drop (length prefix) (cc_pending_changes self)\<rparr> else self)
      in (map_sum id (\<lambda>has_finalized_changes. (altered_changes, has_finalized_changes)) has_finalized_changes, self))"

definition changes_sorted :: "'h ConsensusChanges \<Rightarrow> bool" where
  "changes_sorted cs \<longleftrightarrow> sorted (map fst (cc_pending_changes cs))"

lemma search_insert_sorted:
  assumes "sorted (map f xs)"
  shows "sorted (map f (insert_at (search_index (binary_search_by_key (f x) f xs)) x xs))"
proof -
  let ?i = "length (takeWhile (\<lambda>y. f y < f x) xs)"
  have i: "search_index (binary_search_by_key (f x) f xs) = ?i" by (simp add: search_index_def binary_search_by_key_def Let_def)
  have e: "insert_at ?i x xs = takeWhile (\<lambda>y. f y < f x) xs @ x # dropWhile (\<lambda>y. f y < f x) xs"
    by (simp add: insert_at_def takeWhile_eq_take [symmetric] dropWhile_eq_drop [symmetric])
  have split: "sorted (map f (takeWhile (\<lambda>y. f y < f x) xs)) \<and> sorted (map f (dropWhile (\<lambda>y. f y < f x) xs))"
    using assms sorted_append [of "map f (takeWhile (\<lambda>y. f y < f x) xs)" "map f (dropWhile (\<lambda>y. f y < f x) xs)"]
    by (simp flip: map_append)
  have "f x \<le> f y" if "y \<in> set (dropWhile (\<lambda>y. f y < f x) xs)" for y
  proof (cases "dropWhile (\<lambda>y. f y < f x) xs")
    case (Cons z zs)
    then have "f x \<le> f z" using hd_dropWhile [of "\<lambda>y. f y < f x" xs] by auto
    then show ?thesis using that split Cons by fastforce
  next
    case Nil
    then show ?thesis using that by (metis empty_iff list.set(1))
  qed
  moreover have "f y < f x" if "y \<in> set (takeWhile (\<lambda>y. f y < f x) xs)" for y using that by (auto dest: set_takeWhileD)
  ultimately show ?thesis
    unfolding i e using split by (auto simp: sorted_append) (meson less_imp_le order_trans)+
qed

lemma takeWhile_sorted:
  "sorted (map f xs) \<Longrightarrow> takeWhile (\<lambda>x. f x \<le> n) xs = filter (\<lambda>x. f x \<le> n) xs
     \<and> drop (length (takeWhile (\<lambda>x. f x \<le> n) xs)) xs = filter (\<lambda>x. n < f x) xs"
proof (induction xs)
  case (Cons x xs)
  have "filter (\<lambda>x. f x \<le> n) xs = [] \<and> filter (\<lambda>x. n < f x) xs = xs" if "n < f x"
    using Cons.prems that by (fastforce simp: filter_empty_conv filter_id_conv)
  then show ?case using Cons by (auto simp: not_le)
qed simp

lemma finalize_fold:
  assumes "\<forall>n. canonical n = Ok (can n)"
  shows "fold (finalize_step canonical) xs (Ok b) = Ok (b \<or> (\<exists>(n, h)\<in>set xs. can n = Some h))"
proof (induction xs arbitrary: b)
  case (Cons x xs)
  have "finalize_step canonical x (Ok b) = Ok (b \<or> can (fst x) = Some (snd x))"
    using assms by (cases b) (auto simp: finalize_step_def)
  then show ?case using Cons by auto
qed simp

text \<open>
  C38: consensus changes are finalized once. Noting changes keeps them sorted by height; and finalizing a block, on a chain
  that answers, drops exactly the changes up to its height, reports whether there were any, and whether
  one of these was made by the canonical block of its height.
\<close>

theorem changes_finalize_spec:
  assumes sorted: "changes_sorted cs" and canonical: "\<forall>n. canonical n = Ok (can n)"
  shows "changes_sorted (note_change at cs) \<and> mset (cc_pending_changes (note_change at cs)) = add_mset at (mset (cc_pending_changes cs))
    \<and> changes_finalize (n, h) canonical cs =
        (Ok (\<exists>(k, x)\<in>set (cc_pending_changes cs). k \<le> n, \<exists>(k, x)\<in>set (cc_pending_changes cs). k \<le> n \<and> can k = Some x),
         \<lparr>cc_pending_changes = filter (\<lambda>(k, x). n < k) (cc_pending_changes cs)\<rparr>)"
proof (intro conjI)
  let ?xs = "cc_pending_changes cs"
  let ?i = "search_index (binary_search_by_key (fst at) fst ?xs)"
  have s: "sorted (map fst ?xs)" using sorted by (simp add: changes_sorted_def)
  show "changes_sorted (note_change at cs)"
    using search_insert_sorted [OF s, of at] by (simp add: changes_sorted_def note_change_def Let_def)
  have "mset ?xs = mset (take ?i ?xs) + mset (drop ?i ?xs)" by (simp flip: mset_append)
  then show "mset (cc_pending_changes (note_change at cs)) = add_mset at (mset ?xs)"
    by (simp add: note_change_def insert_at_def Let_def)
  have tw: "takeWhile (\<lambda>x. fst x \<le> n) ?xs = filter (\<lambda>x. fst x \<le> n) ?xs"
    "drop (length (filter (\<lambda>x. fst x \<le> n) ?xs)) ?xs = filter (\<lambda>x. n < fst x) ?xs"
    using takeWhile_sorted [OF s, of n] by metis+
  have p: "(\<lambda>(k, _). k \<le> n) = (\<lambda>x :: u64 \<times> _. fst x \<le> n)" by (auto simp: fun_eq_iff)
  have "filter (\<lambda>x. fst x \<le> n) ?xs = [] \<longleftrightarrow> \<not> (\<exists>(k, x)\<in>set ?xs. k \<le> n)" by (auto simp: filter_empty_conv)
  moreover have "filter (\<lambda>x. fst x \<le> n) ?xs = [] \<Longrightarrow> filter (\<lambda>x. n < fst x) ?xs = ?xs"
    by (auto simp: filter_empty_conv filter_id_conv not_le)
  moreover have "filter (\<lambda>(k, x). n < k) ?xs = filter (\<lambda>x. n < fst x) ?xs" by (simp add: case_prod_unfold)
  moreover have "(\<exists>(k, x)\<in>set (filter (\<lambda>x. fst x \<le> n) ?xs). can k = Some x) \<longleftrightarrow> (\<exists>(k, x)\<in>set ?xs. k \<le> n \<and> can k = Some x)" by auto
  ultimately show "changes_finalize (n, h) canonical cs =
        (Ok (\<exists>(k, x)\<in>set ?xs. k \<le> n, \<exists>(k, x)\<in>set ?xs. k \<le> n \<and> can k = Some x), \<lparr>cc_pending_changes = filter (\<lambda>(k, x). n < k) ?xs\<rparr>)"
    using tw by (cases cs) (simp add: changes_finalize_def Let_def p finalize_fold [OF canonical])
qed

theorem changes_finalize_spec_witness:
  "changes_finalize (4, ''x'') (\<lambda>n. Ok (Some ''c'')) (note_change (3, ''c'') \<lparr>cc_pending_changes = [(2, ''b''), (5, ''e'')]\<rparr>)
     = (Ok (True, True), \<lparr>cc_pending_changes = [(5, ''e'')]\<rparr>)"
proof -
  let ?cs = "\<lparr>cc_pending_changes = [(2, ''b''), (5, ''e'')]\<rparr>"
  have n: "note_change (3, ''c'') ?cs = \<lparr>cc_pending_changes = [(2, ''b''), (3, ''c''), (5, ''e'')]\<rparr>"
    by (simp add: note_change_def binary_search_by_key_def search_index_def insert_at_def)
  have s: "changes_sorted ?cs" by (simp add: changes_sorted_def)
  have "changes_sorted (note_change (3, ''c'') ?cs)"
    using changes_finalize_spec [OF s, of "\<lambda>n. Ok None" "\<lambda>n. None" "(3, ''c'')"] by simp
  from changes_finalize_spec [OF this, of "\<lambda>n. Ok (Some ''c'')" "\<lambda>n. Some ''c''" "(3, ''c'')" 4 "''x''"]
  show ?thesis by (simp add: n)
qed

end
