(* ===== verification/Codecs.thy ===== *)
theory Codecs
  imports Runtime_Store
begin

text \<open>
  Codecs put together from those of the parts, in the way of derived ones: products, lists, sums, and
  types that have the same values as another. They give concrete instances of the codecs that are parameters elsewhere.
\<close>

definition codec_map :: "('x \<Rightarrow> 'y) \<Rightarrow> ('y \<Rightarrow> 'x) \<Rightarrow> 'y codec \<Rightarrow> 'x codec" where
  "codec_map f g c = \<lparr>enc = enc c \<circ> f, dec = (\<lambda>bs. map_option (map_prod g id) (dec c bs))\<rparr>"

definition codec_unit :: "unit codec" where
  "codec_unit = \<lparr>enc = (\<lambda>_. []), dec = (\<lambda>bs. Some ((), bs))\<rparr>"

definition codec_pair :: "'x codec \<Rightarrow> 'y codec \<Rightarrow> ('x \<times> 'y) codec" where
  "codec_pair c d = \<lparr>enc = (\<lambda>(x, y). enc c x @ enc d y),
     dec = (\<lambda>bs. case dec c bs of None \<Rightarrow> None | Some (x, r) \<Rightarrow> map_option (map_prod (Pair x) id) (dec d r))\<rparr>"

definition codec_sum :: "'x codec \<Rightarrow> 'y codec \<Rightarrow> ('x + 'y) codec" where
  "codec_sum c d = \<lparr>enc = (\<lambda>v. case v of Inl x \<Rightarrow> 0 # enc c x | Inr y \<Rightarrow> 1 # enc d y),
     dec = (\<lambda>bs. case bs of [] \<Rightarrow> None | b # r \<Rightarrow>
       if b = 0 then map_option (map_prod Inl id) (dec c r) else map_option (map_prod Inr id) (dec d r))\<rparr>"

fun list_dec :: "nat \<Rightarrow> 'x codec \<Rightarrow> u8 list \<Rightarrow> ('x list \<times> u8 list) option" where
  "list_dec 0 c bs = None"
| "list_dec (Suc fuel) c [] = None"
| "list_dec (Suc fuel) c (b # bs) =
     (if b = 0 then Some ([], bs)
      else (case dec c bs of None \<Rightarrow> None | Some (x, r) \<Rightarrow> map_option (map_prod (Cons x) id) (list_dec fuel c r)))"

text \<open>A list is written with a mark before each element and one at its end.\<close>

definition codec_list :: "'x codec \<Rightarrow> 'x list codec" where
  "codec_list c = \<lparr>enc = (\<lambda>xs. concat (map (\<lambda>x. 1 # enc c x) xs) @ [0]), dec = (\<lambda>bs. list_dec (length bs) c bs)\<rparr>"

definition codec_u64 :: "u64 codec" where
  "codec_u64 = le_codec 8"

definition codec_option :: "'x codec \<Rightarrow> 'x option codec" where
  "codec_option c = codec_map (\<lambda>v. case v of None \<Rightarrow> Inl () | Some x \<Rightarrow> Inr x) (\<lambda>s. case s of Inl _ \<Rightarrow> None | Inr x \<Rightarrow> Some x)
     (codec_sum codec_unit c)"

definition codec_bool :: "bool codec" where
  "codec_bool = codec_map (\<lambda>b. if b then Inr () else Inl ()) (\<lambda>s. case s of Inl _ \<Rightarrow> False | Inr _ \<Rightarrow> True) (codec_sum codec_unit codec_unit)"

named_theorems codecs_ok

lemma codec_map_ok: "codec_ok c \<Longrightarrow> (\<And>x. g (f x) = x) \<Longrightarrow> codec_ok (codec_map f g c)"
  by (simp add: codec_ok_def codec_map_def)

lemma codec_unit_ok [codecs_ok]: "codec_ok codec_unit"
  by (simp add: codec_ok_def codec_unit_def)

lemma codec_pair_ok [codecs_ok]: "codec_ok c \<Longrightarrow> codec_ok d \<Longrightarrow> codec_ok (codec_pair c d)"
  by (auto simp: codec_ok_def codec_pair_def)

lemma codec_sum_ok [codecs_ok]: "codec_ok c \<Longrightarrow> codec_ok d \<Longrightarrow> codec_ok (codec_sum c d)"
  by (auto simp: codec_ok_def codec_sum_def split: sum.splits)

lemma list_dec_enc:
  assumes "codec_ok c"
  shows "length xs < fuel \<Longrightarrow> list_dec fuel c (concat (map (\<lambda>x. 1 # enc c x) xs) @ 0 # rest) = Some (xs, rest)"
proof (induction xs arbitrary: fuel)
  case Nil
  then show ?case by (cases fuel) simp_all
next
  case (Cons x xs)
  then show ?case using assms by (cases fuel) simp_all
qed

lemma codec_list_ok [codecs_ok]:
  assumes "codec_ok c"
  shows "codec_ok (codec_list c)"
proof -
  have "length xs \<le> length (concat (map (\<lambda>x. 1 # enc c x) xs))" for xs by (induction xs) simp_all
  then show ?thesis using list_dec_enc [OF assms] by (simp add: codec_ok_def codec_list_def le_imp_less_Suc trans_le_add1)
qed

lemma codec_u64_ok [codecs_ok]: "codec_ok codec_u64"
  unfolding codec_u64_def by (rule codec_ok_le) simp

lemma codec_option_ok [codecs_ok]: "codec_ok c \<Longrightarrow> codec_ok (codec_option c)"
  unfolding codec_option_def by (intro codec_map_ok codecs_ok) (simp_all split: option.splits)

lemma codec_bool_ok [codecs_ok]: "codec_ok codec_bool"
  unfolding codec_bool_def by (intro codec_map_ok codecs_ok) simp

end
