(* ===== verification/Aux_Schema.thy ===== *)
theory Aux_Schema
  imports Consensus_Changes Grandpa_Round Codecs
begin

text \<open>
  What the finality client keeps in the auxiliary database, \<open>core/crfg/src/aux_schema.rs\<close>: the authority set, the state of
  the voter set and the consensus changes, with the migration from the first version of the schema. The database and the
  codecs of the stored types are parameters: \<open>aux_store_ok\<close> says that what was written is read, \<open>schema_ok\<close> that what
  was encoded is decoded.
\<close>

section \<open>The schema\<close>

definition VERSION_KEY :: string where "VERSION_KEY = ''crfg_schema_version''"
definition SET_STATE_KEY :: string where "SET_STATE_KEY = ''crfg_completed_round''"
definition AUTHORITY_SET_KEY :: string where "AUTHORITY_SET_KEY = ''crfg_voters''"
definition CONSENSUS_CHANGES_KEY :: string where "CONSENSUS_CHANGES_KEY = ''crfg_consensus_changes''"
definition CURRENT_VERSION :: u32 where "CURRENT_VERSION = 1"

datatype 'h VoterSetState = Paused u64 "'h RoundState" | Live u64 "'h RoundState"

fun voter_state_round :: "'h VoterSetState \<Rightarrow> u64 \<times> 'h RoundState" where
  "voter_state_round (Paused n s) = (n, s)"
| "voter_state_round (Live n s) = (n, s)"

type_synonym 'h V0VoterSetState = "u64 \<times> 'h RoundState"

record ('i, 'h) V0PendingChange =
  v0_next_authorities :: "('i \<times> u64) list"
  v0_delay :: u64
  v0_canon_height :: u64
  v0_canon_hash :: 'h

record ('i, 'h) V0AuthoritySet =
  v0_current_authorities :: "('i \<times> u64) list"
  v0_set_id :: u64
  v0_pending_changes :: "('i, 'h) V0PendingChange list"

record ('i, 'h) NewAuthoritySet =
  na_canon_number :: u64
  na_canon_hash :: 'h
  na_set_id :: u64
  na_authorities :: "('i \<times> u64) list"

text \<open>A change that cannot be imported is only logged.\<close>

fun v0_import_changes ::
  "('t, 'h, ('i, 'h) PendingChange) fork_tree \<Rightarrow> ('i, 'h) V0PendingChange list \<Rightarrow> 't \<Rightarrow> 't" where
  "v0_import_changes ft [] t = t"
| "v0_import_changes ft (old_change # rest) t =
     (let new_change = \<lparr>next_authorities = v0_next_authorities old_change, delay = v0_delay old_change,
            canon_height = v0_canon_height old_change, canon_hash = v0_canon_hash old_change, delay_kind = Finalized\<rparr>
      in v0_import_changes ft rest
           (snd (ft_import ft (canon_hash new_change) (canon_height new_change) new_change (\<lambda>_ _. Ok False) t)))"

definition v0_into :: "('t, 'h, ('i, 'h) PendingChange) fork_tree \<Rightarrow> ('i, 'h) V0AuthoritySet \<Rightarrow> ('i, 'h, 't) AuthoritySet" where
  "v0_into ft self = \<lparr>current_authorities = v0_current_authorities self, set_id = v0_set_id self,
     pending_standard_changes = v0_import_changes ft (v0_pending_changes self) (ft_new ft), pending_forced_changes = []\<rparr>"

section \<open>The database\<close>

record 's aux_store =
  get_aux :: "string \<Rightarrow> 's \<Rightarrow> u8 list option result"
  insert_aux :: "(string \<times> u8 list) list \<Rightarrow> 's \<Rightarrow> unit result \<times> 's"

definition aux_store_ok :: "('s, 'z) aux_store_scheme \<Rightarrow> bool" where
  "aux_store_ok st \<longleftrightarrow> (\<forall>kvs s s'. distinct (map fst kvs) \<longrightarrow> insert_aux st kvs s = (Ok (), s') \<longrightarrow>
     (\<forall>k. get_aux st k s' = (case map_of kvs k of Some v \<Rightarrow> Ok (Some v) | None \<Rightarrow> get_aux st k s)))"

record ('i, 'h, 't) schema_codecs =
  c_version :: "u32 codec"
  c_changes :: "'h ConsensusChanges codec"
  c_set :: "('i, 'h, 't) AuthoritySet codec"
  c_state :: "'h VoterSetState codec"
  c_v0_set :: "('i, 'h) V0AuthoritySet codec"
  c_v0_state :: "'h V0VoterSetState codec"

definition schema_ok :: "('i, 'h, 't) schema_codecs \<Rightarrow> bool" where
  "schema_ok cd \<longleftrightarrow> codec_ok (c_version cd) \<and> codec_ok (c_changes cd) \<and> codec_ok (c_set cd) \<and> codec_ok (c_state cd)"

definition load_decode :: "('s, 'z) aux_store_scheme \<Rightarrow> 'a codec \<Rightarrow> string \<Rightarrow> 's \<Rightarrow> 'a option result" where
  "load_decode st c key s =
     (case get_aux st key s of
        Inl e \<Rightarrow> Err e
      | Inr None \<Rightarrow> Ok None
      | Inr (Some t) \<Rightarrow> (case dec c t of None \<Rightarrow> Err ''CRFG DB is corrupted.'' | Some (x, _) \<Rightarrow> Ok (Some x)))"

record ('i, 'h, 't) PersistentData =
  pd_authority_set :: "('i, 'h, 't) AuthoritySet"
  pd_consensus_changes :: "'h ConsensusChanges"
  pd_set_state :: "'h VoterSetState"

text \<open>\<open>load_persistent\<close>, in its parts: the migration of the first version, the current version, and the first start.\<close>

definition load_v0_state ::
  "('s, 'z) aux_store_scheme \<Rightarrow> ('i, 'h, 't) schema_codecs \<Rightarrow> 'h RoundState \<Rightarrow> 's \<Rightarrow> 'h VoterSetState result \<times> 's" where
  "load_v0_state st cd genesis_round s =
     (case load_decode st (c_v0_state cd) SET_STATE_KEY s of
        Inl e \<Rightarrow> (Err e, s)
      | Inr (Some (number, state)) \<Rightarrow>
          (case insert_aux st [(SET_STATE_KEY, enc (c_state cd) (Live number state))] s of
             (Inl e, s) \<Rightarrow> (Err e, s)
           | (Inr _, s) \<Rightarrow> (Ok (Live number state), s))
      | Inr None \<Rightarrow> (Ok (Live 0 genesis_round), s))"

definition load_v1_state ::
  "('s, 'z) aux_store_scheme \<Rightarrow> ('i, 'h, 't) schema_codecs \<Rightarrow> 'h RoundState \<Rightarrow> 's \<Rightarrow> 'h VoterSetState result" where
  "load_v1_state st cd genesis_round s =
     map_sum id (\<lambda>r. case r of Some state \<Rightarrow> state | None \<Rightarrow> Live 0 genesis_round) (load_decode st (c_state cd) SET_STATE_KEY s)"

definition load_genesis ::
  "('t, 'h, ('i, 'h) PendingChange) fork_tree \<Rightarrow> ('s, 'z) aux_store_scheme \<Rightarrow> ('i, 'h, 't) schema_codecs \<Rightarrow> 'h RoundState
     \<Rightarrow> ('i \<times> u64) list result \<Rightarrow> 'h ConsensusChanges \<Rightarrow> 's \<Rightarrow> ('i, 'h, 't) PersistentData result \<times> 's" where
  "load_genesis ft st cd genesis_round genesis_authorities consensus_changes s =
     (case genesis_authorities of
        Inl e \<Rightarrow> (Err e, s)
      | Inr initial \<Rightarrow>
          (let genesis_set = authorities_genesis ft initial;
               genesis_state = Live 0 genesis_round
           in case insert_aux st [(AUTHORITY_SET_KEY, enc (c_set cd) genesis_set), (SET_STATE_KEY, enc (c_state cd) genesis_state)] s of
                (Inl e, s) \<Rightarrow> (Err e, s)
              | (Inr _, s) \<Rightarrow> (Ok \<lparr>pd_authority_set = genesis_set, pd_consensus_changes = consensus_changes, pd_set_state = genesis_state\<rparr>, s)))"

definition load_persistent ::
  "('t, 'h, ('i, 'h) PendingChange) fork_tree \<Rightarrow> ('s, 'z) aux_store_scheme \<Rightarrow> ('i, 'h, 't) schema_codecs \<Rightarrow> 'h \<Rightarrow> u64
     \<Rightarrow> ('i \<times> u64) list result \<Rightarrow> 's \<Rightarrow> ('i, 'h, 't) PersistentData result \<times> 's" where
  "load_persistent ft st cd genesis_hash genesis_number genesis_authorities s =
     (let genesis_round = state_genesis (genesis_hash, genesis_number)
      in case load_decode st (c_version cd) VERSION_KEY s of Inl e \<Rightarrow> (Err e, s) | Inr version \<Rightarrow>
        (case load_decode st (c_changes cd) CONSENSUS_CHANGES_KEY s of Inl e \<Rightarrow> (Err e, s) | Inr changes \<Rightarrow>
          (let consensus_changes = (case changes of Some cs \<Rightarrow> cs | None \<Rightarrow> changes_empty)
           in case version of
                None \<Rightarrow>
                  (case insert_aux st [(VERSION_KEY, enc (c_version cd) CURRENT_VERSION)] s of (Inl e, s) \<Rightarrow> (Err e, s) | (Inr _, s) \<Rightarrow>
                    (case load_decode st (c_v0_set cd) AUTHORITY_SET_KEY s of Inl e \<Rightarrow> (Err e, s)
                     | Inr None \<Rightarrow> load_genesis ft st cd genesis_round genesis_authorities consensus_changes s
                     | Inr (Some old_set) \<Rightarrow>
                         (let new_set = v0_into ft old_set
                          in case insert_aux st [(AUTHORITY_SET_KEY, enc (c_set cd) new_set)] s of (Inl e, s) \<Rightarrow> (Err e, s) | (Inr _, s) \<Rightarrow>
                            (case load_v0_state st cd genesis_round s of (Inl e, s) \<Rightarrow> (Err e, s)
                             | (Inr set_state, s) \<Rightarrow>
                                 (Ok \<lparr>pd_authority_set = new_set, pd_consensus_changes = consensus_changes, pd_set_state = set_state\<rparr>, s)))))
              | Some v \<Rightarrow>
                  if v = 1
                  then (case load_decode st (c_set cd) AUTHORITY_SET_KEY s of Inl e \<Rightarrow> (Err e, s)
                        | Inr None \<Rightarrow> load_genesis ft st cd genesis_round genesis_authorities consensus_changes s
                        | Inr (Some aset) \<Rightarrow>
                            (case load_v1_state st cd genesis_round s of Inl e \<Rightarrow> (Err e, s)
                             | Inr set_state \<Rightarrow>
                                 (Ok \<lparr>pd_authority_set = aset, pd_consensus_changes = consensus_changes, pd_set_state = set_state\<rparr>, s)))
                  else (Err ''Unsupported CRFG DB version'', s))))"

section \<open>Updates\<close>

definition update_authority_set ::
  "('i, 'h, 't) schema_codecs \<Rightarrow> ('i, 'h, 't) AuthoritySet \<Rightarrow> ('i, 'h) NewAuthoritySet option \<Rightarrow> ((string \<times> u8 list) list \<Rightarrow> 'r) \<Rightarrow> 'r" where
  "update_authority_set cd aset new_set write_aux =
     (let encoded_set = enc (c_set cd) aset
      in case new_set of
           Some new_set \<Rightarrow>
             (let set_state = Live 0 (state_genesis (na_canon_hash new_set, na_canon_number new_set))
              in write_aux [(AUTHORITY_SET_KEY, encoded_set), (SET_STATE_KEY, enc (c_state cd) set_state)])
         | None \<Rightarrow> write_aux [(AUTHORITY_SET_KEY, encoded_set)])"

definition write_voter_set_state ::
  "('s, 'z) aux_store_scheme \<Rightarrow> ('i, 'h, 't) schema_codecs \<Rightarrow> 'h VoterSetState \<Rightarrow> 's \<Rightarrow> unit result \<times> 's" where
  "write_voter_set_state st cd state s = insert_aux st [(SET_STATE_KEY, enc (c_state cd) state)] s"

definition update_consensus_changes ::
  "('i, 'h, 't) schema_codecs \<Rightarrow> 'h ConsensusChanges \<Rightarrow> ((string \<times> u8 list) list \<Rightarrow> 'r) \<Rightarrow> 'r" where
  "update_consensus_changes cd changes write_aux = write_aux [(CONSENSUS_CHANGES_KEY, enc (c_changes cd) changes)]"

section \<open>What is stored is loaded\<close>

lemmas schema_keys = VERSION_KEY_def SET_STATE_KEY_def AUTHORITY_SET_KEY_def CONSENSUS_CHANGES_KEY_def

text \<open>The database holds a given state of the client: it has the current version, and loads as that state.\<close>

definition holds ::
  "('s, 'z) aux_store_scheme \<Rightarrow> ('i, 'h, 't) schema_codecs \<Rightarrow> 'h RoundState \<Rightarrow> 's \<Rightarrow> ('i, 'h, 't) PersistentData \<Rightarrow> bool" where
  "holds st cd genesis_round s d \<longleftrightarrow> load_decode st (c_version cd) VERSION_KEY s = Ok (Some 1)
     \<and> load_decode st (c_set cd) AUTHORITY_SET_KEY s = Ok (Some (pd_authority_set d))
     \<and> map_sum id (\<lambda>r. case r of Some cs \<Rightarrow> cs | None \<Rightarrow> changes_empty) (load_decode st (c_changes cd) CONSENSUS_CHANGES_KEY s)
         = Ok (pd_consensus_changes d)
     \<and> load_v1_state st cd genesis_round s = Ok (pd_set_state d)"

lemma holds_loads:
  assumes "holds st cd (state_genesis (gh, gn)) s d"
  shows "load_persistent ft st cd gh gn ga s = (Ok d, s)"
proof -
  obtain changes where "load_decode st (c_changes cd) CONSENSUS_CHANGES_KEY s = Ok changes"
    "pd_consensus_changes d = (case changes of Some cs \<Rightarrow> cs | None \<Rightarrow> changes_empty)"
    using assms by (cases "load_decode st (c_changes cd) CONSENSUS_CHANGES_KEY s") (auto simp: holds_def)
  then show ?thesis using assms by (simp add: holds_def load_persistent_def)
qed

lemma inserted:
  assumes "aux_store_ok st" "insert_aux st kvs s = (Ok (), s')" "distinct (map fst kvs)"
  shows "get_aux st k s' = (case map_of kvs k of Some v \<Rightarrow> Ok (Some v) | None \<Rightarrow> get_aux st k s)"
  using assms unfolding aux_store_ok_def by blast

lemma load_decode_written: "get_aux st k s = Ok (Some (enc c x)) \<Longrightarrow> codec_ok c \<Longrightarrow> load_decode st c k s = Ok (Some x)"
  by (simp add: load_decode_def)

lemma load_decode_same: "get_aux st k s' = get_aux st k s \<Longrightarrow> load_decode st c k s' = load_decode st c k s"
  by (simp add: load_decode_def)

lemma genesis_holds:
  assumes st: "aux_store_ok st" and cd: "schema_ok cd"
    and v: "load_decode st (c_version cd) VERSION_KEY s = Ok (Some 1)"
    and cs: "load_decode st (c_changes cd) CONSENSUS_CHANGES_KEY s = Ok changes" "cs = (case changes of Some cs \<Rightarrow> cs | None \<Rightarrow> changes_empty)"
    and l: "load_genesis ft st cd gr ga cs s = (Ok d, s')"
  shows "holds st cd gr s' d"
proof -
  obtain initial where d: "d = \<lparr>pd_authority_set = authorities_genesis ft initial, pd_consensus_changes = cs, pd_set_state = Live 0 gr\<rparr>"
    and i: "insert_aux st [(AUTHORITY_SET_KEY, enc (c_set cd) (authorities_genesis ft initial)), (SET_STATE_KEY, enc (c_state cd) (Live 0 gr))] s
      = (Ok (), s')"
    using l by (auto simp: load_genesis_def Let_def split: sum.splits prod.splits)
  have g: "get_aux st AUTHORITY_SET_KEY s' = Ok (Some (enc (c_set cd) (authorities_genesis ft initial)))"
    "get_aux st SET_STATE_KEY s' = Ok (Some (enc (c_state cd) (Live 0 gr)))"
    "get_aux st VERSION_KEY s' = get_aux st VERSION_KEY s" "get_aux st CONSENSUS_CHANGES_KEY s' = get_aux st CONSENSUS_CHANGES_KEY s"
    using inserted [OF st i] by (simp_all add: schema_keys)
  show ?thesis
    using v cs cd load_decode_written [OF g(1)] load_decode_written [OF g(2)]
    by (simp add: holds_def d schema_ok_def load_v1_state_def load_decode_same [OF g(3)] load_decode_same [OF g(4)])
qed

lemma v0_holds:
  assumes st: "aux_store_ok st" and cd: "schema_ok cd"
    and v: "load_decode st (c_version cd) VERSION_KEY s = Ok (Some 1)"
    and cs: "load_decode st (c_changes cd) CONSENSUS_CHANGES_KEY s = Ok changes" "cs = (case changes of Some cs \<Rightarrow> cs | None \<Rightarrow> changes_empty)"
    and i: "insert_aux st [(AUTHORITY_SET_KEY, enc (c_set cd) aset)] s = (Ok (), s1)"
    and l: "load_v0_state st cd gr s1 = (Ok state, s')"
    and empty: "load_decode st (c_v0_state cd) SET_STATE_KEY s1 = Ok None \<Longrightarrow> get_aux st SET_STATE_KEY s1 = Ok None"
  shows "holds st cd gr s' \<lparr>pd_authority_set = aset, pd_consensus_changes = cs, pd_set_state = state\<rparr>"
proof -
  have g1: "get_aux st AUTHORITY_SET_KEY s1 = Ok (Some (enc (c_set cd) aset))" "get_aux st VERSION_KEY s1 = get_aux st VERSION_KEY s"
    "get_aux st CONSENSUS_CHANGES_KEY s1 = get_aux st CONSENSUS_CHANGES_KEY s"
    using inserted [OF st i] by (simp_all add: schema_keys)
  have "(\<forall>k. k \<noteq> SET_STATE_KEY \<longrightarrow> get_aux st k s' = get_aux st k s1) \<and> load_v1_state st cd gr s' = Ok state"
  proof (cases "load_decode st (c_v0_state cd) SET_STATE_KEY s1")
    case (Inr r)
    show ?thesis
    proof (cases r)
      case None
      then show ?thesis using l Inr empty by (auto simp: load_v0_state_def load_v1_state_def load_decode_def)
    next
      case (Some p)
      then have i': "insert_aux st [(SET_STATE_KEY, enc (c_state cd) state)] s1 = (Ok (), s')"
        using l Inr by (auto simp: load_v0_state_def split: prod.splits sum.splits)
      have "get_aux st SET_STATE_KEY s' = Ok (Some (enc (c_state cd) state))" using inserted [OF st i'] by simp
      moreover have "\<forall>k. k \<noteq> SET_STATE_KEY \<longrightarrow> get_aux st k s' = get_aux st k s1" using inserted [OF st i'] by simp
      ultimately show ?thesis using cd load_decode_written [of st SET_STATE_KEY s' "c_state cd" state]
        by (simp add: load_v1_state_def schema_ok_def)
    qed
  qed (use l in \<open>simp add: load_v0_state_def\<close>)
  then have g: "get_aux st AUTHORITY_SET_KEY s' = Ok (Some (enc (c_set cd) aset))" "get_aux st VERSION_KEY s' = get_aux st VERSION_KEY s"
    "get_aux st CONSENSUS_CHANGES_KEY s' = get_aux st CONSENSUS_CHANGES_KEY s" and s': "load_v1_state st cd gr s' = Ok state"
    using g1 by (simp_all add: schema_keys)
  show ?thesis using v cs cd s' load_decode_written [OF g(1)]
    by (simp add: holds_def schema_ok_def load_decode_same [OF g(2)] load_decode_same [OF g(3)])
qed

lemma load_holds:
  assumes st: "aux_store_ok st" and cd: "schema_ok cd" and l: "load_persistent ft st cd gh gn ga s = (Ok d, s')"
  shows "holds st cd (state_genesis (gh, gn)) s' d"
proof -
  let ?gr = "state_genesis (gh, gn)"
  obtain version changes where v: "load_decode st (c_version cd) VERSION_KEY s = Ok version"
    and c: "load_decode st (c_changes cd) CONSENSUS_CHANGES_KEY s = Ok changes"
    using l by (auto simp: load_persistent_def Let_def split: sum.splits)
  define cs where "cs = (case changes of Some cs \<Rightarrow> cs | None \<Rightarrow> changes_empty)"
  note l = l [unfolded load_persistent_def Let_def v c sum.case, folded cs_def]
  show ?thesis
  proof (cases version)
    case None
    obtain s1 where i: "insert_aux st [(VERSION_KEY, enc (c_version cd) CURRENT_VERSION)] s = (Ok (), s1)"
      using l None by (auto split: prod.splits sum.splits)
    have g: "get_aux st VERSION_KEY s1 = Ok (Some (enc (c_version cd) CURRENT_VERSION))"
      "get_aux st CONSENSUS_CHANGES_KEY s1 = get_aux st CONSENSUS_CHANGES_KEY s"
      using inserted [OF st i] by (simp_all add: schema_keys)
    have v1: "load_decode st (c_version cd) VERSION_KEY s1 = Ok (Some 1)"
      using load_decode_written [OF g(1)] cd by (simp add: schema_ok_def CURRENT_VERSION_def)
    have c1: "load_decode st (c_changes cd) CONSENSUS_CHANGES_KEY s1 = Ok changes" using c by (simp add: load_decode_same [OF g(2)])
    obtain old where o: "load_decode st (c_v0_set cd) AUTHORITY_SET_KEY s1 = Ok old"
      using l None i by (auto split: sum.splits)
    show ?thesis
    proof (cases old)
      case None
      then show ?thesis using genesis_holds [OF st cd v1 c1 cs_def] l \<open>version = None\<close> i o by simp
    next
      case (Some old_set)
      then obtain s2 state where i2: "insert_aux st [(AUTHORITY_SET_KEY, enc (c_set cd) (v0_into ft old_set))] s1 = (Ok (), s2)"
        and s2: "load_v0_state st cd ?gr s2 = (Ok state, s')"
        and d: "d = \<lparr>pd_authority_set = v0_into ft old_set, pd_consensus_changes = cs, pd_set_state = state\<rparr>"
        using l None \<open>version = None\<close> i o by (auto split: prod.splits sum.splits)
      have "get_aux st SET_STATE_KEY s2 = Ok None" if "load_decode st (c_v0_state cd) SET_STATE_KEY s2 = Ok None"
        using that by (auto simp: load_decode_def split: sum.splits option.splits)
      from v0_holds [OF st cd v1 c1 cs_def i2 s2 this] show ?thesis by (simp add: d)
    qed
  next
    case (Some v')
    then have v': "v' = 1" using l by (auto split: if_splits)
    obtain x where o: "load_decode st (c_set cd) AUTHORITY_SET_KEY s = Ok x" using l Some v' by (auto split: sum.splits)
    show ?thesis
    proof (cases x)
      case None
      then show ?thesis using genesis_holds [OF st cd _ c cs_def] l Some v v' o by simp
    next
      case x: (Some aset)
      then show ?thesis using l Some v v' o c by (auto simp: holds_def cs_def split: sum.splits)
    qed
  qed
qed

text \<open>The effect of writing some of the keys on what the database holds.\<close>

definition client_keys :: "string set" where
  "client_keys = {VERSION_KEY, AUTHORITY_SET_KEY, CONSENSUS_CHANGES_KEY, SET_STATE_KEY}"

definition written :: "('s, 'z) aux_store_scheme \<Rightarrow> (string \<rightharpoonup> u8 list) \<Rightarrow> 's \<Rightarrow> 's \<Rightarrow> bool" where
  "written st m s s' \<longleftrightarrow> (\<forall>k\<in>client_keys. get_aux st k s' = (case m k of Some v \<Rightarrow> Ok (Some v) | None \<Rightarrow> get_aux st k s))"

lemma written_insert:
  "aux_store_ok st \<Longrightarrow> insert_aux st kvs s = (Ok (), s') \<Longrightarrow> distinct (map fst kvs) \<Longrightarrow> written st (map_of kvs) s s'"
  by (simp add: written_def inserted)

lemma holds_written:
  assumes cd: "schema_ok cd" and h: "holds st cd gr s d" and w: "written st m s s'"
    and m: "m VERSION_KEY = None" "m AUTHORITY_SET_KEY \<in> {None, Some (enc (c_set cd) aset)}"
      "m CONSENSUS_CHANGES_KEY \<in> {None, Some (enc (c_changes cd) cs)}" "m SET_STATE_KEY \<in> {None, Some (enc (c_state cd) vs)}"
  shows "holds st cd gr s' \<lparr>pd_authority_set = (if m AUTHORITY_SET_KEY = None then pd_authority_set d else aset),
     pd_consensus_changes = (if m CONSENSUS_CHANGES_KEY = None then pd_consensus_changes d else cs),
     pd_set_state = (if m SET_STATE_KEY = None then pd_set_state d else vs)\<rparr>"
proof -
  note cd = cd [unfolded schema_ok_def]
  have "load_decode st (c_version cd) VERSION_KEY s' = load_decode st (c_version cd) VERSION_KEY s"
    using w m(1) by (intro load_decode_same) (simp add: written_def client_keys_def)
  moreover have "load_decode st (c_set cd) AUTHORITY_SET_KEY s' = Ok (Some (if m AUTHORITY_SET_KEY = None then pd_authority_set d else aset))"
    using w m(2) cd h by (auto simp: written_def client_keys_def holds_def load_decode_def)
  moreover have "map_sum id (\<lambda>r. case r of Some cs \<Rightarrow> cs | None \<Rightarrow> changes_empty) (load_decode st (c_changes cd) CONSENSUS_CHANGES_KEY s')
      = Ok (if m CONSENSUS_CHANGES_KEY = None then pd_consensus_changes d else cs)"
    using w m(3) cd h by (auto simp: written_def client_keys_def holds_def load_decode_def)
  moreover have "load_v1_state st cd gr s' = Ok (if m SET_STATE_KEY = None then pd_set_state d else vs)"
    using w m(4) cd h by (auto simp: written_def client_keys_def holds_def load_decode_def load_v1_state_def)
  ultimately show ?thesis using h by (simp add: holds_def)
qed

text \<open>
  C34: restarts do not change the state. Whatever the database holds when the client first starts, nothing, data of the old schema or
  data of the current one, if it can be loaded then the next start finds exactly what the first one returned, and writes nothing.
\<close>

theorem restart_stable:
  assumes "aux_store_ok st" "schema_ok cd" and "load_persistent ft st cd gh gn ga s = (Ok d, s')"
  shows "load_persistent ft st cd gh gn ga s' = (Ok d, s')"
  by (rule holds_loads [OF load_holds [OF assms]])

text \<open>
  C35: what is written is loaded. After a successful update of the authority set the client starts with that set, and with a blank
  round on the block of the handoff if the set is a new one; the same holds for the voter set state and for the consensus
  changes; and an update changes nothing else.
\<close>

theorem updates_loaded:
  assumes st: "aux_store_ok st" and cd: "schema_ok cd" and l: "load_persistent ft st cd gh gn ga s0 = (Ok d, s)"
  shows "(update_authority_set cd aset new (\<lambda>kvs. insert_aux st kvs s) = (Ok (), s') \<longrightarrow>
      load_persistent ft st cd gh gn ga s' = (Ok (d\<lparr>pd_authority_set := aset, pd_set_state :=
        (case new of None \<Rightarrow> pd_set_state d | Some n \<Rightarrow> Live 0 (state_genesis (na_canon_hash n, na_canon_number n)))\<rparr>), s'))
    \<and> (write_voter_set_state st cd vs s = (Ok (), s') \<longrightarrow>
      load_persistent ft st cd gh gn ga s' = (Ok (d\<lparr>pd_set_state := vs\<rparr>), s'))
    \<and> (update_consensus_changes cd cs (\<lambda>kvs. insert_aux st kvs s) = (Ok (), s') \<longrightarrow>
      load_persistent ft st cd gh gn ga s' = (Ok (d\<lparr>pd_consensus_changes := cs\<rparr>), s'))"
proof (intro conjI impI)
  note h = holds_written [OF cd load_holds [OF st cd l] written_insert [OF st]]
  assume u: "update_authority_set cd aset new (\<lambda>kvs. insert_aux st kvs s) = (Ok (), s')"
  show "load_persistent ft st cd gh gn ga s' = (Ok (d\<lparr>pd_authority_set := aset, pd_set_state :=
        (case new of None \<Rightarrow> pd_set_state d | Some n \<Rightarrow> Live 0 (state_genesis (na_canon_hash n, na_canon_number n)))\<rparr>), s')"
  proof (cases new)
    case None
    then have "insert_aux st [(AUTHORITY_SET_KEY, enc (c_set cd) aset)] s = (Ok (), s')" using u by (simp add: update_authority_set_def)
    from holds_loads [OF h [OF this, where aset = aset]] show ?thesis using None by (simp add: schema_keys)
  next
    case (Some n)
    let ?vs = "Live 0 (state_genesis (na_canon_hash n, na_canon_number n))"
    have "insert_aux st [(AUTHORITY_SET_KEY, enc (c_set cd) aset), (SET_STATE_KEY, enc (c_state cd) ?vs)] s = (Ok (), s')"
      using u Some by (simp add: update_authority_set_def)
    from holds_loads [OF h [OF this, where aset = aset and vs = ?vs]] show ?thesis using Some by (simp add: schema_keys)
  qed
next
  note h = holds_written [OF cd load_holds [OF st cd l] written_insert [OF st]]
  assume "write_voter_set_state st cd vs s = (Ok (), s')"
  then have "insert_aux st [(SET_STATE_KEY, enc (c_state cd) vs)] s = (Ok (), s')" by (simp add: write_voter_set_state_def)
  from holds_loads [OF h [OF this, where vs = vs]] show "load_persistent ft st cd gh gn ga s' = (Ok (d\<lparr>pd_set_state := vs\<rparr>), s')"
    by (simp add: schema_keys)
next
  note h = holds_written [OF cd load_holds [OF st cd l] written_insert [OF st]]
  assume "update_consensus_changes cd cs (\<lambda>kvs. insert_aux st kvs s) = (Ok (), s')"
  then have "insert_aux st [(CONSENSUS_CHANGES_KEY, enc (c_changes cd) cs)] s = (Ok (), s')" by (simp add: update_consensus_changes_def)
  from holds_loads [OF h [OF this, where cs = cs]] show "load_persistent ft st cd gh gn ga s' = (Ok (d\<lparr>pd_consensus_changes := cs\<rparr>), s')"
    by (simp add: schema_keys)
qed

section \<open>An instance\<close>

text \<open>A database that is a map, and codecs for the stored types, with the pending changes on a list for a fork tree.\<close>

definition map_store :: "(string \<rightharpoonup> u8 list) aux_store" where
  "map_store = \<lparr>get_aux = (\<lambda>k s. Ok (s k)), insert_aux = (\<lambda>kvs s. (Ok (), s ++ map_of kvs))\<rparr>"

lemma map_store_ok: "aux_store_ok map_store"
  by (auto simp: aux_store_ok_def map_store_def map_add_def split: option.splits)

type_synonym list_tree_type = "(u64 \<times> u64 \<times> (u64, u64) PendingChange) list"

definition round_codec :: "u64 RoundState codec" where
  "round_codec = codec_map (\<lambda>r. (st_prevote_ghost r, st_finalized r, st_estimate r, st_completable r))
     (\<lambda>(g, f, e, c). \<lparr>st_prevote_ghost = g, st_finalized = f, st_estimate = e, st_completable = c\<rparr>)
     (let b = codec_option (codec_pair codec_u64 codec_u64) in codec_pair b (codec_pair b (codec_pair b codec_bool)))"

definition state_codec :: "u64 VoterSetState codec" where
  "state_codec = codec_map (\<lambda>v. case v of Paused n r \<Rightarrow> Inl (n, r) | Live n r \<Rightarrow> Inr (n, r)) (\<lambda>s. case s of Inl (n, r) \<Rightarrow> Paused n r | Inr (n, r) \<Rightarrow> Live n r)
     (codec_sum (codec_pair codec_u64 round_codec) (codec_pair codec_u64 round_codec))"

definition kind_codec :: "DelayKind codec" where
  "kind_codec = codec_map (\<lambda>k. case k of Finalized \<Rightarrow> None | Best n \<Rightarrow> Some n) (\<lambda>v. case v of None \<Rightarrow> Finalized | Some n \<Rightarrow> Best n)
     (codec_option codec_u64)"

definition change_codec :: "(u64, u64) PendingChange codec" where
  "change_codec = codec_map (\<lambda>c. (next_authorities c, delay c, canon_height c, canon_hash c, delay_kind c))
     (\<lambda>(a, d, n, h, k). \<lparr>next_authorities = a, delay = d, canon_height = n, canon_hash = h, delay_kind = k\<rparr>)
     (codec_pair (codec_list (codec_pair codec_u64 codec_u64)) (codec_pair codec_u64 (codec_pair codec_u64 (codec_pair codec_u64 kind_codec))))"

definition set_codec :: "(u64, u64, list_tree_type) AuthoritySet codec" where
  "set_codec = codec_map (\<lambda>s. (current_authorities s, set_id s, pending_standard_changes s, pending_forced_changes s))
     (\<lambda>(a, i, t, f). \<lparr>current_authorities = a, set_id = i, pending_standard_changes = t, pending_forced_changes = f\<rparr>)
     (codec_pair (codec_list (codec_pair codec_u64 codec_u64)) (codec_pair codec_u64
       (codec_pair (codec_list (codec_pair codec_u64 (codec_pair codec_u64 change_codec))) (codec_list change_codec))))"

definition changes_codec :: "u64 ConsensusChanges codec" where
  "changes_codec = codec_map cc_pending_changes (\<lambda>xs. \<lparr>cc_pending_changes = xs\<rparr>) (codec_list (codec_pair codec_u64 codec_u64))"

definition v0_change_codec :: "(u64, u64) V0PendingChange codec" where
  "v0_change_codec = codec_map (\<lambda>c. (v0_next_authorities c, v0_delay c, v0_canon_height c, v0_canon_hash c))
     (\<lambda>(a, d, n, h). \<lparr>v0_next_authorities = a, v0_delay = d, v0_canon_height = n, v0_canon_hash = h\<rparr>)
     (codec_pair (codec_list (codec_pair codec_u64 codec_u64)) (codec_pair codec_u64 (codec_pair codec_u64 codec_u64)))"

definition v0_set_codec :: "(u64, u64) V0AuthoritySet codec" where
  "v0_set_codec = codec_map (\<lambda>s. (v0_current_authorities s, v0_set_id s, v0_pending_changes s))
     (\<lambda>(a, i, p). \<lparr>v0_current_authorities = a, v0_set_id = i, v0_pending_changes = p\<rparr>)
     (codec_pair (codec_list (codec_pair codec_u64 codec_u64)) (codec_pair codec_u64 (codec_list v0_change_codec)))"

definition list_schema :: "(u64, u64, list_tree_type) schema_codecs" where
  "list_schema = \<lparr>c_version = le_codec 4, c_changes = changes_codec, c_set = set_codec, c_state = state_codec,
     c_v0_set = v0_set_codec, c_v0_state = codec_pair codec_u64 round_codec\<rparr>"

lemma round_codec_ok [codecs_ok]: "codec_ok round_codec"
  unfolding round_codec_def Let_def by (intro codec_map_ok codecs_ok) simp

lemma state_codec_ok [codecs_ok]: "codec_ok state_codec"
  unfolding state_codec_def by (intro codec_map_ok codecs_ok) (simp split: VoterSetState.split)

lemma change_codec_ok [codecs_ok]: "codec_ok change_codec"
  unfolding change_codec_def kind_codec_def by (intro codec_map_ok codecs_ok) (simp_all split: DelayKind.split)

lemma set_codec_ok [codecs_ok]: "codec_ok set_codec"
  unfolding set_codec_def by (intro codec_map_ok codecs_ok) simp

lemma changes_codec_ok [codecs_ok]: "codec_ok changes_codec"
  unfolding changes_codec_def by (intro codec_map_ok codecs_ok) simp

lemma v0_set_codec_ok [codecs_ok]: "codec_ok v0_set_codec"
  unfolding v0_set_codec_def v0_change_codec_def by (intro codec_map_ok codecs_ok) simp_all

lemma list_schema_ok: "schema_ok list_schema"
  by (simp add: schema_ok_def list_schema_def codecs_ok codec_ok_le)

text \<open>A database of the old schema.\<close>

definition old_database :: "string \<rightharpoonup> u8 list" where
  "old_database = [AUTHORITY_SET_KEY \<mapsto> enc v0_set_codec \<lparr>v0_current_authorities = [(1, 1)], v0_set_id = 3, v0_pending_changes =
     [\<lparr>v0_next_authorities = [(2, 1)], v0_delay = 0, v0_canon_height = 5, v0_canon_hash = 7\<rparr>]\<rparr>]"

lemma old_database_loads:
  "\<exists>s. load_persistent list_tree map_store list_schema 0 0 (Ok []) old_database =
     (Ok \<lparr>pd_authority_set = \<lparr>current_authorities = [(1, 1)], set_id = 3, pending_standard_changes =
            [(7, 5, \<lparr>next_authorities = [(2, 1)], delay = 0, canon_height = 5, canon_hash = 7, delay_kind = Finalized\<rparr>)],
            pending_forced_changes = []\<rparr>,
          pd_consensus_changes = changes_empty, pd_set_state = Live 0 (state_genesis (0, 0))\<rparr>, s)"
  by (simp add: load_persistent_def load_v0_state_def load_decode_def old_database_def map_store_def list_schema_def codecs_ok schema_keys
      v0_into_def list_tree_def Let_def)

theorem restart_stable_witness:
  "\<exists>d s. load_persistent list_tree map_store list_schema 0 0 (Ok []) old_database = (Ok d, s)
     \<and> load_persistent list_tree map_store list_schema 0 0 (Ok []) s = (Ok d, s) \<and> set_id (pd_authority_set d) = 3"
  using restart_stable [OF map_store_ok list_schema_ok] old_database_loads by fastforce

theorem updates_loaded_witness:
  "\<exists>d s. load_persistent list_tree map_store list_schema 0 0 (Ok [])
       (snd (write_voter_set_state map_store list_schema (Paused 4 (state_genesis (0, 0))) s)) = (Ok d, snd (write_voter_set_state map_store list_schema (Paused 4 (state_genesis (0, 0))) s))
     \<and> pd_set_state d = Paused 4 (state_genesis (0, 0)) \<and> set_id (pd_authority_set d) = 3"
proof -
  let ?vs = "Paused 4 (state_genesis (0, 0))"
  obtain d s where l: "load_persistent list_tree map_store list_schema 0 0 (Ok []) old_database = (Ok d, s)" "set_id (pd_authority_set d) = 3"
    using old_database_loads by force
  have w: "write_voter_set_state map_store list_schema ?vs s = (Ok (), snd (write_voter_set_state map_store list_schema ?vs s))"
    by (simp add: write_voter_set_state_def map_store_def)
  from updates_loaded [OF map_store_ok list_schema_ok l(1)] w
  have "load_persistent list_tree map_store list_schema 0 0 (Ok []) (snd (write_voter_set_state map_store list_schema ?vs s))
      = (Ok (d\<lparr>pd_set_state := ?vs\<rparr>), snd (write_voter_set_state map_store list_schema ?vs s))" by blast
  then show ?thesis using l(2) by (intro exI [of _ "d\<lparr>pd_set_state := ?vs\<rparr>"] exI [of _ s]) simp
qed

end
