(* ===== verification/Finality_Client.thy ===== *)
theory Finality_Client
  imports Justification Aux_Schema
begin

text \<open>
  The environment in which the finality voter runs, \<open>core/crfg/src/environment.rs\<close>: the queries of the chain, the completion of
  rounds, and the finalization of blocks, which applies changes of the authority set. The state is what the node
  shares between its tasks and the database of the client; the client itself is a parameter, with its documented
  behaviour as \<open>client_ok\<close>. Errors are strings.
\<close>

section \<open>The client\<close>

record 'h chain_info =
  info_best_number :: u64
  info_finalized_number :: u64
  info_finalized_hash :: 'h

record ('h, 'x, 's, 'op) finality_client = "'s aux_store" +
  cl_header :: "'s \<Rightarrow> 'h \<Rightarrow> ('h, 'x) Header option result"
  cl_header_by_number :: "'s \<Rightarrow> u64 \<Rightarrow> ('h, 'x) Header option result"
  cl_hash :: "'s \<Rightarrow> u64 \<Rightarrow> 'h option result"
  cl_tree_route :: "'s \<Rightarrow> 'h tree_route"
  cl_info :: "'s \<Rightarrow> 'h chain_info result"
  cl_new_op :: 'op
  cl_apply_aux :: "(string \<times> u8 list) list \<Rightarrow> 'op \<Rightarrow> unit result \<times> 'op"
  cl_apply_finality :: "'h \<Rightarrow> u8 list option \<Rightarrow> 's \<Rightarrow> 'op \<Rightarrow> unit result \<times> 'op"
  cl_commit :: "'op \<Rightarrow> 's \<Rightarrow> unit result \<times> 's"

text \<open>
  An import operation collects what is to be written, \<open>aux_of\<close>; committing it writes all of this at once, or fails and leaves the
  database as it is.
\<close>

definition client_ok :: "('h, 'x, 's, 'op, 'z) finality_client_scheme \<Rightarrow> ('op \<Rightarrow> (string \<rightharpoonup> u8 list)) \<Rightarrow> bool" where
  "client_ok cl aux_of \<longleftrightarrow> aux_store_ok cl \<and> aux_of (cl_new_op cl) = Map.empty
     \<and> (\<forall>kvs op op'. distinct (map fst kvs) \<longrightarrow> cl_apply_aux cl kvs op = (Ok (), op') \<longrightarrow> aux_of op' = aux_of op ++ map_of kvs)
     \<and> (\<forall>h j s op op'. cl_apply_finality cl h j s op = (Ok (), op') \<longrightarrow> aux_of op' = aux_of op)
     \<and> (\<forall>op s s'. cl_commit cl op s = (Ok (), s') \<longrightarrow> written cl (aux_of op) s s')
     \<and> (\<forall>op s s' e. cl_commit cl op s = (Err e, s') \<longrightarrow> s' = s)"

section \<open>The state of the node\<close>

datatype ('i, 'h) VoterCommand = Pause string | ChangeAuthorities "('i, 'h) NewAuthoritySet"
datatype ('i, 'h) CommandOrError = FinalityError string | IssuedCommand "('i, 'h) VoterCommand"
datatype ('h, 's, 'i, 'x) JustificationOrCommit =
  GivenJustification "('h, 's, 'i, 'x) CrfgJustification" | GivenCommit u64 "('h, 's, 'i) Commit"

record ('i, 'h, 't, 'db) finality_state =
  fs_authority_set :: "('i, 'h, 't) AuthoritySet"
  fs_consensus_changes :: "'h ConsensusChanges"
  fs_last_completed :: "u64 \<times> 'h RoundState"
  fs_db :: 'db

section \<open>Queries of the chain\<close>

definition BLOCK_FINAL_LATENCY :: u64 where "BLOCK_FINAL_LATENCY = 6"

definition descendent_query ::
  "('h, 'x, 's, 'op, 'z) finality_client_scheme \<Rightarrow> 's \<Rightarrow> ('h \<times> 'h) option \<Rightarrow> 'h descendence" where
  "descendent_query cl db now base hash =
     (case is_descendent_of (cl_tree_route cl db) now base hash of None \<Rightarrow> Err ''unknown block'' | Some b \<Rightarrow> Ok b)"

fun canonical_back :: "nat \<Rightarrow> ('h \<Rightarrow> ('h, 'x) Header option result) \<Rightarrow> ('h, 'x) Header \<Rightarrow> ('h, 'x) Header option result" where
  "canonical_back 0 header x = Ok (Some x)"
| "canonical_back (Suc steps) header x =
     (case header (hd_parent_hash x) of Inl e \<Rightarrow> Err e | Inr None \<Rightarrow> Ok None | Inr (Some y) \<Rightarrow> canonical_back steps header y)"

text \<open>\<open>block_number_to_hash\<close> of the client drops the error of the query.\<close>

definition canonical_at_height ::
  "('h, 'x, 's, 'op, 'z) finality_client_scheme \<Rightarrow> (('h, 'x) Header \<Rightarrow> 'h) \<Rightarrow> 's \<Rightarrow> 'h \<times> u64 \<Rightarrow> bool \<Rightarrow> u64 \<Rightarrow> 'h option result" where
  "canonical_at_height cl hash db base base_is_canonical height =
     (let number_to_hash = (\<lambda>n. case cl_hash cl db n of Inl _ \<Rightarrow> None | Inr h \<Rightarrow> h)
      in if snd base < height then Ok None
         else if height = snd base then (if base_is_canonical then Ok (Some (fst base)) else Ok (number_to_hash height))
         else if base_is_canonical then Ok (number_to_hash height)
         else (case cl_header_by_number cl db (snd base - 1) of
                 Inl e \<Rightarrow> Err e
               | Inr None \<Rightarrow> Ok None
               | Inr (Some x) \<Rightarrow> map_sum id (map_option hash) (canonical_back (unat (snd base - height - 1)) (cl_header cl db) x)))"

text \<open>The block to vote for; \<open>None\<close> on the outside is the panic when the client has no information.\<close>

definition best_chain_containing ::
  "('h, 'x, 's, 'op, 'z) finality_client_scheme \<Rightarrow> u64 \<Rightarrow> ('i, 'h, 't, 's, 'y) finality_state_scheme \<Rightarrow> 'h \<Rightarrow> ('h \<times> u64) option option" where
  "best_chain_containing cl voter_set_id st block =
     (if voter_set_id \<noteq> fst (current (fs_authority_set st)) then Some None
      else (case cl_info cl (fs_db st) of
              Inl _ \<Rightarrow> None
            | Inr info \<Rightarrow>
                Some (Some (
                  if BLOCK_FINAL_LATENCY < info_best_number info - info_finalized_number info
                  then (case cl_hash cl (fs_db st) (info_finalized_number info + 1) of
                          Inr (Some h) \<Rightarrow>
                            (case cl_header cl (fs_db st) h of
                               Inr (Some x) \<Rightarrow> (h, hd_number x)
                             | _ \<Rightarrow> (info_finalized_hash info, info_finalized_number info))
                        | _ \<Rightarrow> (info_finalized_hash info, info_finalized_number info))
                  else (info_finalized_hash info, info_finalized_number info)))))"

section \<open>Completed rounds\<close>

definition env_completed ::
  "('h, 'x, 's, 'op, 'z) finality_client_scheme \<Rightarrow> ('i, 'h, 't) schema_codecs \<Rightarrow> u64 \<Rightarrow> 'h RoundState \<Rightarrow> ('i, 'h, 't, 's, 'y) finality_state_scheme
     \<Rightarrow> unit result \<times> ('i, 'h, 't, 's, 'y) finality_state_scheme" where
  "env_completed cl cd round state st =
     (case write_voter_set_state cl cd (Live round state) (fs_db st) of
        (Inl e, db) \<Rightarrow> (Err e, st\<lparr>fs_db := db\<rparr>)
      | (Inr _, db) \<Rightarrow> (Ok (), st\<lparr>fs_db := db, fs_last_completed := (round, state)\<rparr>))"

section \<open>Finalizing a block\<close>

text \<open>
  Whether a justification is stored with the block; \<open>None\<close> is the panic of a division by a period of zero.
\<close>

definition justification_required ::
  "u64 option \<Rightarrow> 'h Status \<Rightarrow> bool \<Rightarrow> u64 \<Rightarrow> 'h chain_info result \<Rightarrow> bool result option" where
  "justification_required justification_period status finalizes_consensus_changes number info =
     (if new_set_block status \<noteq> None \<or> finalizes_consensus_changes then Some (Ok True)
      else (case justification_period of
              None \<Rightarrow> Some (Ok False)
            | Some period \<Rightarrow>
                (case info of
                   Inl e \<Rightarrow> Some (Err e)
                 | Inr i \<Rightarrow>
                     (let last_finalized_number = info_finalized_number i
                      in if last_finalized_number \<noteq> 0 \<or> number - last_finalized_number = period
                         then (if period = 0 then None else Some (Ok (last_finalized_number div period \<noteq> number div period)))
                         else Some (Ok False)))))"

definition stored_justification ::
  "('h, 'x, 'db, 'op, 'z) finality_client_scheme \<Rightarrow> (('h, 's, 'i, 'x) CrfgJustification \<Rightarrow> u8 list) \<Rightarrow> u64 option \<Rightarrow> 'h Status \<Rightarrow> bool
     \<Rightarrow> u64 \<Rightarrow> ('h, 's, 'i, 'x) JustificationOrCommit \<Rightarrow> 'db \<Rightarrow> u8 list option result option" where
  "stored_justification cl encode justification_period status finalizes_consensus_changes number justification_or_commit db =
     (case justification_or_commit of
        GivenJustification j \<Rightarrow> Some (Ok (Some (encode j)))
      | GivenCommit round commit \<Rightarrow>
          (case justification_required justification_period status finalizes_consensus_changes number (cl_info cl db) of
             None \<Rightarrow> None
           | Some (Inl e) \<Rightarrow> Some (Err e)
           | Some (Inr True) \<Rightarrow> map_option (map_sum id (\<lambda>j. Some (encode j))) (from_commit (cl_header cl db) round commit)
           | Some (Inr False) \<Rightarrow> Some (Ok None)))"

text \<open>
  The closure that \<open>finalize_block\<close> runs on an import operation. It returns its result, the operation, the shared state as it left
  it, and \<open>old_consensus_changes\<close>, which the code sets to a copy of the changes after they were finalized.
\<close>

record ('i, 'h, 't, 'op) finalize_run =
  fr_result :: "('i, 'h) NewAuthoritySet option result"
  fr_op :: 'op
  fr_authority_set :: "('i, 'h, 't) AuthoritySet"
  fr_consensus_changes :: "'h ConsensusChanges"
  fr_old_consensus_changes :: "'h ConsensusChanges option"

definition new_authorities_of :: "'h Status \<Rightarrow> ('i, 'h, 't) AuthoritySet \<Rightarrow> ('i, 'h) NewAuthoritySet option" where
  "new_authorities_of status aset = map_option (\<lambda>(canon_hash, canon_number).
     \<lparr>na_canon_number = canon_number, na_canon_hash = canon_hash, na_set_id = fst (current aset), na_authorities = snd (current aset)\<rparr>)
     (new_set_block status)"

definition finalize_import_op ::
  "('t, 'h, ('i, 'h) PendingChange) fork_tree \<Rightarrow> ('h, 'x, 'db, 'op, 'z) finality_client_scheme \<Rightarrow> ('i, 'h, 't) schema_codecs
     \<Rightarrow> (('h, 'x) Header \<Rightarrow> 'h) \<Rightarrow> (('h, 's, 'i, 'x) CrfgJustification \<Rightarrow> u8 list) \<Rightarrow> u64 option \<Rightarrow> 'h \<Rightarrow> u64
     \<Rightarrow> ('h, 's, 'i, 'x) JustificationOrCommit \<Rightarrow> ('i, 'h, 't, 'db, 'y) finality_state_scheme \<Rightarrow> ('i, 'h, 't, 'op) finalize_run option" where
  "finalize_import_op ft cl cd hdhash encode justification_period hash number justification_or_commit st =
     (let db = fs_db st; op = cl_new_op cl
      in case apply_standard_changes ft hash number (descendent_query cl db None) (fs_authority_set st) of
           (Inl e, aset) \<Rightarrow> Some \<lparr>fr_result = Err e, fr_op = op, fr_authority_set = aset,
                fr_consensus_changes = fs_consensus_changes st, fr_old_consensus_changes = None\<rparr>
         | (Inr status, aset) \<Rightarrow>
             (case changes_finalize (number, hash) (canonical_at_height cl hdhash db (hash, number) True) (fs_consensus_changes st) of
                (Inl e, changes) \<Rightarrow> Some \<lparr>fr_result = Err e, fr_op = op, fr_authority_set = aset,
                     fr_consensus_changes = changes, fr_old_consensus_changes = None\<rparr>
              | (Inr (alters_consensus_changes, finalizes_consensus_changes), changes) \<Rightarrow>
                  (let old_consensus_changes = (if alters_consensus_changes then Some changes else None);
                       finish = (\<lambda>r op. Some \<lparr>fr_result = r, fr_op = op, fr_authority_set = aset,
                          fr_consensus_changes = changes, fr_old_consensus_changes = old_consensus_changes\<rparr>)
                   in case (if alters_consensus_changes then update_consensus_changes cd changes (\<lambda>insert. cl_apply_aux cl insert op) else (Ok (), op)) of
                        (Inl e, op) \<Rightarrow> finish (Err e) op
                      | (Inr _, op) \<Rightarrow>
                          (case stored_justification cl encode justification_period status finalizes_consensus_changes number justification_or_commit db of
                             None \<Rightarrow> None
                           | Some (Inl e) \<Rightarrow> finish (Err e) op
                           | Some (Inr justification) \<Rightarrow>
                               (case cl_apply_finality cl hash justification db op of
                                  (Inl e, op) \<Rightarrow> finish (Err e) op
                                | (Inr _, op) \<Rightarrow>
                                    (let new_authorities = new_authorities_of status aset
                                     in if changed status
                                        then (case update_authority_set cd aset new_authorities (\<lambda>insert. cl_apply_aux cl insert op) of
                                                (Inl e, op) \<Rightarrow> finish (Err e) op
                                              | (Inr _, op) \<Rightarrow> finish (Ok new_authorities) op)
                                        else finish (Ok new_authorities) op))))))"

text \<open>\<open>lock_import_and_run\<close> of the client runs the closure and commits the operation if it succeeded.\<close>

definition finalize_block ::
  "('t, 'h, ('i, 'h) PendingChange) fork_tree \<Rightarrow> ('h, 'x, 'db, 'op, 'z) finality_client_scheme \<Rightarrow> ('i, 'h, 't) schema_codecs
     \<Rightarrow> (('h, 'x) Header \<Rightarrow> 'h) \<Rightarrow> (('h, 's, 'i, 'x) CrfgJustification \<Rightarrow> u8 list) \<Rightarrow> u64 option \<Rightarrow> 'h \<Rightarrow> u64
     \<Rightarrow> ('h, 's, 'i, 'x) JustificationOrCommit \<Rightarrow> ('i, 'h, 't, 'db, 'y) finality_state_scheme
     \<Rightarrow> ((('i, 'h) CommandOrError + unit) \<times> ('i, 'h, 't, 'db, 'y) finality_state_scheme) option" where
  "finalize_block ft cl cd hdhash encode justification_period hash number justification_or_commit st =
     (case finalize_import_op ft cl cd hdhash encode justification_period hash number justification_or_commit st of
        None \<Rightarrow> None
      | Some run \<Rightarrow>
          (let committed = (case fr_result run of Inl e \<Rightarrow> (Err e, fs_db st) | Inr _ \<Rightarrow> cl_commit cl (fr_op run) (fs_db st));
               left = st\<lparr>fs_authority_set := fr_authority_set run, fs_consensus_changes := fr_consensus_changes run\<rparr>
           in case committed of
                (Inr _, db) \<Rightarrow>
                  (let st = left\<lparr>fs_db := db\<rparr>
                   in case fr_result run of
                        Inr (Some new) \<Rightarrow> Some (Inl (IssuedCommand (ChangeAuthorities new)), st)
                      | _ \<Rightarrow> Some (Inr (), st))
              | (Inl e, db) \<Rightarrow>
                  Some (Inl (FinalityError e),
                    left\<lparr>fs_db := db, fs_authority_set := fs_authority_set st,
                      fs_consensus_changes := (case fr_old_consensus_changes run of None \<Rightarrow> fr_consensus_changes run | Some old \<Rightarrow> old)\<rparr>)))"

definition env_finalize_block ::
  "('t, 'h, ('i, 'h) PendingChange) fork_tree \<Rightarrow> ('h, 'x, 'db, 'op, 'z) finality_client_scheme \<Rightarrow> ('i, 'h, 't) schema_codecs
     \<Rightarrow> (('h, 'x) Header \<Rightarrow> 'h) \<Rightarrow> (('h, 's, 'i, 'x) CrfgJustification \<Rightarrow> u8 list) \<Rightarrow> u64 \<Rightarrow> 'h \<Rightarrow> u64 \<Rightarrow> u64
     \<Rightarrow> ('h, 's, 'i) Commit \<Rightarrow> ('i, 'h, 't, 'db, 'y) finality_state_scheme
     \<Rightarrow> ((('i, 'h) CommandOrError + unit) \<times> ('i, 'h, 't, 'db, 'y) finality_state_scheme) option" where
  "env_finalize_block ft cl cd hdhash encode justification_period hash number round commit st =
     (case cl_info cl (fs_db st) of
        Inl e \<Rightarrow> Some (Inl (FinalityError e), st)
      | Inr info \<Rightarrow>
          (case (if number \<le> info_finalized_number info then cl_hash cl (fs_db st) number else Ok None) of
             Inl e \<Rightarrow> Some (Inl (FinalityError e), st)
           | Inr h \<Rightarrow>
               if number \<le> info_finalized_number info \<and> h = Some hash then Some (Inr (), st)
               else finalize_block ft cl cd hdhash encode (Some justification_period) hash number (GivenCommit round commit) st))"

section \<open>The database follows the state\<close>

lemma client_okD:
  assumes "client_ok cl aux_of"
  shows "aux_store_ok cl" "aux_of (cl_new_op cl) = Map.empty"
    "distinct (map fst kvs) \<Longrightarrow> cl_apply_aux cl kvs op = (Ok (), op') \<Longrightarrow> aux_of op' = aux_of op ++ map_of kvs"
    "cl_apply_finality cl h j s op = (Ok (), op') \<Longrightarrow> aux_of op' = aux_of op"
    "cl_commit cl op s = (Ok (), s') \<Longrightarrow> written cl (aux_of op) s s'"
    "cl_commit cl op s = (Err e, s') \<Longrightarrow> s' = s"
  using assms unfolding client_ok_def by blast+

text \<open>What a successful run of the closure leaves to be written, and the set that it leaves.\<close>

definition pending_writes ::
  "('i, 'h, 't) schema_codecs \<Rightarrow> bool \<Rightarrow> 'h ConsensusChanges \<Rightarrow> bool \<Rightarrow> ('i, 'h, 't) AuthoritySet \<Rightarrow> ('i, 'h) NewAuthoritySet option \<Rightarrow> string \<rightharpoonup> u8 list" where
  "pending_writes cd alters changes change aset new =
     (if alters then [CONSENSUS_CHANGES_KEY \<mapsto> enc (c_changes cd) changes] else Map.empty) ++
     (if change then map_of ((AUTHORITY_SET_KEY, enc (c_set cd) aset) # (case new of None \<Rightarrow> []
        | Some n \<Rightarrow> [(SET_STATE_KEY, enc (c_state cd) (Live 0 (state_genesis (na_canon_hash n, na_canon_number n))))])) else Map.empty)"

lemma update_authority_set_pairs:
  "update_authority_set cd aset new w = w ((AUTHORITY_SET_KEY, enc (c_set cd) aset) # (case new of None \<Rightarrow> []
     | Some n \<Rightarrow> [(SET_STATE_KEY, enc (c_state cd) (Live 0 (state_genesis (na_canon_hash n, na_canon_number n))))]))"
  by (simp add: update_authority_set_def split: option.split)

lemma map_sum_Ok: "map_sum f g x = Inr y \<longleftrightarrow> (\<exists>z. x = Inr z \<and> y = g z)"
  by (cases x) auto

lemma finalize_import_op_ok:
  assumes ok: "client_ok cl aux_of"
    and run: "finalize_import_op ft cl cd hdhash encode period hash number joc st = Some run" "fr_result run = Ok new"
  obtains status alters where
    "apply_standard_changes ft hash number (descendent_query cl (fs_db st) None) (fs_authority_set st) = (Ok status, fr_authority_set run)"
    "new = new_authorities_of status (fr_authority_set run)"
    "aux_of (fr_op run) = pending_writes cd alters (fr_consensus_changes run) (changed status) (fr_authority_set run) new"
    "alters \<or> fr_consensus_changes run = fs_consensus_changes st"
proof -
  obtain status aset where a: "apply_standard_changes ft hash number (descendent_query cl (fs_db st) None) (fs_authority_set st) = (Ok status, aset)"
    using run by (auto simp: finalize_import_op_def Let_def split: prod.splits sum.splits)
  obtain alters fin changes where c: "changes_finalize (number, hash) (canonical_at_height cl hdhash (fs_db st) (hash, number) True)
      (fs_consensus_changes st) = (Ok (alters, fin), changes)"
    using run by (auto simp: finalize_import_op_def Let_def a split: prod.splits sum.splits)
  note run = run [unfolded finalize_import_op_def Let_def a c prod.case sum.case]
  obtain op1 where u: "(if alters then update_consensus_changes cd changes (\<lambda>insert. cl_apply_aux cl insert (cl_new_op cl)) else (Ok (), cl_new_op cl)) = (Ok (), op1)"
    using run by (auto split: prod.splits sum.splits)
  note run = run [unfolded u prod.case sum.case]
  obtain j where j: "stored_justification cl encode period status fin number joc (fs_db st) = Some (Ok j)"
    using run by (auto split: option.splits sum.splits)
  obtain op2 where f: "cl_apply_finality cl hash j (fs_db st) op1 = (Ok (), op2)"
    using run by (auto simp: j split: prod.splits sum.splits)
  note run = run [unfolded j f option.case prod.case sum.case]
  have w1: "aux_of op1 = (if alters then [CONSENSUS_CHANGES_KEY \<mapsto> enc (c_changes cd) changes] else Map.empty)"
    using u client_okD(2) [OF ok] client_okD(3) [OF ok, of "[(CONSENSUS_CHANGES_KEY, enc (c_changes cd) changes)]" "cl_new_op cl" op1]
    by (auto simp: update_consensus_changes_def split: if_splits)
  have w2: "aux_of op2 = aux_of op1" using client_okD(4) [OF ok f] .
  have keep: "alters \<or> changes = fs_consensus_changes st"
    using c by (auto simp: changes_finalize_def Let_def map_sum_Ok split: if_splits)
  let ?new = "new_authorities_of status aset"
  let ?kvs = "(AUTHORITY_SET_KEY, enc (c_set cd) aset) # (case ?new of None \<Rightarrow> []
     | Some n \<Rightarrow> [(SET_STATE_KEY, enc (c_state cd) (Live 0 (state_genesis (na_canon_hash n, na_canon_number n))))])"
  have fields: "fr_authority_set run = aset" "fr_consensus_changes run = changes" "new = ?new"
    using run by (auto split: if_splits prod.splits sum.splits)
  have w3: "aux_of (fr_op run) = pending_writes cd alters changes (changed status) aset ?new"
  proof (cases "changed status")
    case True
    then obtain op3 where op3: "cl_apply_aux cl ?kvs op2 = (Ok (), op3)" "fr_op run = op3"
      using run by (auto simp: update_authority_set_pairs split: prod.splits sum.splits)
    have "distinct (map fst ?kvs)" by (simp add: schema_keys split: option.split)
    from client_okD(3) [OF ok this op3(1)] show ?thesis using True w1 w2 op3(2) by (simp add: pending_writes_def)
  next
    case False
    then show ?thesis using run w1 w2 by (auto simp: pending_writes_def)
  qed
  show thesis by (rule that [of status alters]) (use a fields w3 keep in simp_all)
qed

lemma apply_standard_unchanged:
  assumes "fork_tree_ok ft" "apply_standard_changes ft h n isd s = (Ok status, s')"
  shows "\<not> changed status \<Longrightarrow> s' = s \<and> new_set_block status = None"
    "new_set_block status = None \<Longrightarrow> current s' = current s"
    "new_set_block status \<noteq> None \<Longrightarrow> new_set_block status = Some (h, n) \<and> changed status \<and> set_id s' = set_id s + 1"
proof -
  obtain r t where f: "finalize_with_descendent_if ft h n isd (\<lambda>change. effective_number change \<le> n) (pending_standard_changes s) = (r, t)"
    by (cases "finalize_with_descendent_if ft h n isd (\<lambda>change. effective_number change \<le> n) (pending_standard_changes s)") simp
  have t: "t = pending_standard_changes s" if "r = Ok Unchanged"
    using fork_tree_okD(5) [OF assms(1), of h n isd "\<lambda>change. effective_number change \<le> n" "pending_standard_changes s"] f that by simp
  note a = assms(2) [unfolded apply_standard_changes_def f prod.case]
  show "\<not> changed status \<Longrightarrow> s' = s \<and> new_set_block status = None"
    "new_set_block status = None \<Longrightarrow> current s' = current s"
    "new_set_block status \<noteq> None \<Longrightarrow> new_set_block status = Some (h, n) \<and> changed status \<and> set_id s' = set_id s + 1"
    using a t by (auto simp: current_def split: sum.splits FinalizationResult.splits option.splits)
qed

lemma pending_writes_keys:
  "pending_writes cd alters changes change aset new VERSION_KEY = None"
  "pending_writes cd alters changes change aset new CONSENSUS_CHANGES_KEY = (if alters then Some (enc (c_changes cd) changes) else None)"
  "pending_writes cd alters changes change aset new AUTHORITY_SET_KEY = (if change then Some (enc (c_set cd) aset) else None)"
  "pending_writes cd alters changes change aset new SET_STATE_KEY = (if change then map_option (\<lambda>n. enc (c_state cd)
     (Live 0 (state_genesis (na_canon_hash n, na_canon_number n)))) new else None)"
  by (simp_all add: pending_writes_def schema_keys map_add_def split: option.split)

text \<open>
  A finalization either fails, with the authority set and the database as they were, or commits what the closure left to be written.
\<close>

lemma finalize_block_cases:
  assumes ok: "client_ok cl aux_of"
    and fin: "finalize_block ft cl cd hdhash encode period hash number joc st = Some (r, st')"
  obtains (error) e where "r = Inl (FinalityError e)" "fs_authority_set st' = fs_authority_set st" "fs_db st' = fs_db st"
    | (finished) status alters new where
      "apply_standard_changes ft hash number (descendent_query cl (fs_db st) None) (fs_authority_set st) = (Ok status, fs_authority_set st')"
      "new = new_authorities_of status (fs_authority_set st')"
      "written cl (pending_writes cd alters (fs_consensus_changes st') (changed status) (fs_authority_set st') new) (fs_db st) (fs_db st')"
      "alters \<or> fs_consensus_changes st' = fs_consensus_changes st"
      "r = (case new of None \<Rightarrow> Inr () | Some x \<Rightarrow> Inl (IssuedCommand (ChangeAuthorities x)))"
proof -
  obtain run where run: "finalize_import_op ft cl cd hdhash encode period hash number joc st = Some run"
    using fin by (auto simp: finalize_block_def split: option.splits)
  note fin = fin [unfolded finalize_block_def run option.case Let_def]
  show thesis
  proof (cases "\<exists>new db. fr_result run = Ok new \<and> cl_commit cl (fr_op run) (fs_db st) = (Ok (), db)")
    case False
    then have "\<exists>e. r = Inl (FinalityError e)" "fs_authority_set st' = fs_authority_set st" "fs_db st' = fs_db st"
      using fin client_okD(6) [OF ok] by (auto split: sum.splits prod.splits option.splits)
    then show thesis using error by blast
  next
    case True
    then obtain new db where new: "fr_result run = Ok new" and db: "cl_commit cl (fr_op run) (fs_db st) = (Ok (), db)" by blast
    from finalize_import_op_ok [OF ok run new] obtain status alters where
      a: "apply_standard_changes ft hash number (descendent_query cl (fs_db st) None) (fs_authority_set st) = (Ok status, fr_authority_set run)"
      and n: "new = new_authorities_of status (fr_authority_set run)"
      and w: "aux_of (fr_op run) = pending_writes cd alters (fr_consensus_changes run) (changed status) (fr_authority_set run) new"
      and c: "alters \<or> fr_consensus_changes run = fs_consensus_changes st" .
    have st': "fs_db st' = db" "fs_authority_set st' = fr_authority_set run" "fs_consensus_changes st' = fr_consensus_changes run"
      and r: "r = (case new of None \<Rightarrow> Inr () | Some x \<Rightarrow> Inl (IssuedCommand (ChangeAuthorities x)))"
      using fin new db by (auto split: option.splits)
    show thesis by (rule finished [of status new alters]) (use a n c r client_okD(5) [OF ok db] w in \<open>simp_all add: st'\<close>)
  qed
qed

text \<open>What the database holds after the writes of a finalization.\<close>

lemma pending_writes_hold:
  assumes ok: "fork_tree_ok ft" "schema_ok cd" and h: "holds cl cd gr db d" "pd_authority_set d = aset"
    and a: "apply_standard_changes ft hash number isd aset = (Ok status, aset')"
    and w: "written cl (pending_writes cd alters cs (changed status) aset' new) db db'" and new: "new = new_authorities_of status aset'"
  shows "holds cl cd gr db' \<lparr>pd_authority_set = aset', pd_consensus_changes = (if alters then cs else pd_consensus_changes d),
     pd_set_state = (case new of None \<Rightarrow> pd_set_state d | Some x \<Rightarrow> Live 0 (state_genesis (na_canon_hash x, na_canon_number x)))\<rparr>"
proof -
  let ?m = "pending_writes cd alters cs (changed status) aset' new"
  let ?vs = "case new of None \<Rightarrow> pd_set_state d | Some x \<Rightarrow> Live 0 (state_genesis (na_canon_hash x, na_canon_number x))"
  note un = apply_standard_unchanged [OF ok(1) a]
  have nn: "\<not> changed status \<Longrightarrow> new = None" using new un(1) by (simp add: new_authorities_of_def)
  have m: "?m VERSION_KEY = None" "?m AUTHORITY_SET_KEY \<in> {None, Some (enc (c_set cd) aset')}"
    "?m CONSENSUS_CHANGES_KEY \<in> {None, Some (enc (c_changes cd) cs)}" "?m SET_STATE_KEY \<in> {None, Some (enc (c_state cd) ?vs)}"
    by (simp_all add: pending_writes_keys split: option.split)
  have e: "(if ?m AUTHORITY_SET_KEY = None then pd_authority_set d else aset') = aset'"
    "(if ?m CONSENSUS_CHANGES_KEY = None then pd_consensus_changes d else cs) = (if alters then cs else pd_consensus_changes d)"
    "(if ?m SET_STATE_KEY = None then pd_set_state d else ?vs) = ?vs"
    using un(1) nn h(2) by (auto simp: pending_writes_keys split: option.split)
  from holds_written [OF ok(2) h(1) w m] show ?thesis by (simp only: e)
qed

text \<open>
  C33: finalization keeps memory and disk together. Let the database hold the state of the node. If finalizing a block succeeds, then
  the database again holds the state, and the authorities are unchanged. If it hands over to new authorities, then the command
  names the finalized block, the next set id and the authorities now in force, and the database holds the new set with a blank
  round on that block, which is where the new voter starts. And if it fails, then the authority set and the database
  are as they were.
\<close>

theorem finalize_block_persisted:
  assumes ok: "client_ok cl aux_of" "fork_tree_ok ft" "schema_ok cd"
    and start: "load_persistent ft cl cd gh gn ga db0 =
      (Ok \<lparr>pd_authority_set = fs_authority_set st, pd_consensus_changes = fs_consensus_changes st, pd_set_state = vs\<rparr>, fs_db st)"
    and fin: "finalize_block ft cl cd hdhash encode period hash number joc st = Some (r, st')"
  shows "(case r of
      Inr _ \<Rightarrow> current (fs_authority_set st') = current (fs_authority_set st)
        \<and> load_persistent ft cl cd gh gn ga (fs_db st') = (Ok \<lparr>pd_authority_set = fs_authority_set st',
             pd_consensus_changes = fs_consensus_changes st', pd_set_state = vs\<rparr>, fs_db st')
    | Inl (IssuedCommand c) \<Rightarrow> c = ChangeAuthorities \<lparr>na_canon_number = number, na_canon_hash = hash,
             na_set_id = set_id (fs_authority_set st) + 1, na_authorities = current_authorities (fs_authority_set st')\<rparr>
        \<and> set_id (fs_authority_set st') = set_id (fs_authority_set st) + 1
        \<and> load_persistent ft cl cd gh gn ga (fs_db st') = (Ok \<lparr>pd_authority_set = fs_authority_set st',
             pd_consensus_changes = fs_consensus_changes st', pd_set_state = Live 0 (state_genesis (hash, number))\<rparr>, fs_db st')
    | Inl (FinalityError e) \<Rightarrow> fs_authority_set st' = fs_authority_set st \<and> fs_db st' = fs_db st)"
  using fin
proof (rule finalize_block_cases [OF ok(1)])
  fix e
  assume "r = Inl (FinalityError e)" "fs_authority_set st' = fs_authority_set st" "fs_db st' = fs_db st"
  then show ?thesis by simp
next
  fix status alters new
  assume a: "apply_standard_changes ft hash number (descendent_query cl (fs_db st) None) (fs_authority_set st) = (Ok status, fs_authority_set st')"
    and n: "new = new_authorities_of status (fs_authority_set st')"
    and w: "written cl (pending_writes cd alters (fs_consensus_changes st') (changed status) (fs_authority_set st') new) (fs_db st) (fs_db st')"
    and c: "alters \<or> fs_consensus_changes st' = fs_consensus_changes st"
    and r: "r = (case new of None \<Rightarrow> Inr () | Some x \<Rightarrow> Inl (IssuedCommand (ChangeAuthorities x)))"
  note un = apply_standard_unchanged [OF ok(2) a]
  note l = holds_loads [OF pending_writes_hold [OF ok(2,3) load_holds [OF client_okD(1) [OF ok(1)] ok(3) start] _ a w n]]
  show ?thesis
  proof (cases "new_set_block status")
    case None
    then have "new = None" using n by (simp add: new_authorities_of_def)
    then show ?thesis using l r un(2) [OF None] c by auto
  next
    case (Some b)
    then have "new = Some \<lparr>na_canon_number = number, na_canon_hash = hash, na_set_id = set_id (fs_authority_set st) + 1,
        na_authorities = current_authorities (fs_authority_set st')\<rparr>"
      using n un(3) by (simp add: new_authorities_of_def current_def)
    then show ?thesis using l r un(3) Some c by auto
  qed
qed

section \<open>An instance\<close>

text \<open>
  A client with one chain, on which the hash of a block is its number, and a database of a map and the finalized blocks with
  their justifications, latest first. The genesis cannot be finalized again.
\<close>

type_synonym example_db = "(string \<rightharpoonup> u8 list) \<times> (u64 \<times> u8 list option) list"

definition map_client :: "(u64, unit, example_db, example_db) finality_client" where
  "map_client = \<lparr>get_aux = (\<lambda>k s. Ok (fst s k)), insert_aux = (\<lambda>kvs s. (Ok (), (fst s ++ map_of kvs, snd s))),
     cl_header = (\<lambda>s h. Ok (Some \<lparr>hd_number = h, hd_parent_hash = h - 1, hd_rest = ()\<rparr>)),
     cl_header_by_number = (\<lambda>s n. Ok (Some \<lparr>hd_number = n, hd_parent_hash = n - 1, hd_rest = ()\<rparr>)),
     cl_hash = (\<lambda>s n. Ok (Some n)),
     cl_tree_route = (\<lambda>s b a. Some (map of_nat (rev [unat (min a b) + 1 ..< unat b + 1]), min a b)),
     cl_info = (\<lambda>s. let n = (case snd s of [] \<Rightarrow> 0 | (h, _) # _ \<Rightarrow> h) in
       Ok \<lparr>info_best_number = 10, info_finalized_number = n, info_finalized_hash = n\<rparr>),
     cl_new_op = (Map.empty, []),
     cl_apply_aux = (\<lambda>kvs op. (Ok (), (fst op ++ map_of kvs, snd op))),
     cl_apply_finality = (\<lambda>h j s op. if h = 0 then (Err ''block is already finalized'', op) else (Ok (), (fst op, (h, j) # snd op))),
     cl_commit = (\<lambda>op s. (Ok (), (fst s ++ fst op, snd op @ snd s)))\<rparr>"

lemma map_client_ok: "client_ok map_client fst"
  by (auto simp: client_ok_def aux_store_ok_def map_client_def written_def map_add_def split: option.splits if_splits)

definition pending_set :: "(u64, u64, list_tree_type) AuthoritySet" where
  "pending_set = \<lparr>current_authorities = [(1, 1)], set_id = 0, pending_standard_changes =
     [(2, 2, \<lparr>next_authorities = [(2, 1)], delay = 0, canon_height = 2, canon_hash = 2, delay_kind = Finalized\<rparr>)], pending_forced_changes = []\<rparr>"

definition pending_state :: "(u64, u64, list_tree_type, example_db) finality_state" where
  "pending_state = \<lparr>fs_authority_set = pending_set, fs_consensus_changes = \<lparr>cc_pending_changes = [(1, 1)]\<rparr>,
     fs_last_completed = (0, state_genesis (0, 0)),
     fs_db = ([VERSION_KEY \<mapsto> enc (c_version list_schema) 1, AUTHORITY_SET_KEY \<mapsto> enc set_codec pending_set,
       CONSENSUS_CHANGES_KEY \<mapsto> enc changes_codec \<lparr>cc_pending_changes = [(1, 1)]\<rparr>], [])\<rparr>"

lemma pending_state_loads:
  "load_persistent list_tree map_client list_schema 0 0 (Ok []) (fs_db pending_state) =
     (Ok \<lparr>pd_authority_set = fs_authority_set pending_state, pd_consensus_changes = fs_consensus_changes pending_state,
       pd_set_state = Live 0 (state_genesis (0, 0))\<rparr>, fs_db pending_state)"
  by (simp add: load_persistent_def load_v1_state_def load_decode_def pending_state_def map_client_def list_schema_def codecs_ok codec_ok_le
      schema_keys Let_def)

lemmas finalize_eval = finalize_block_def finalize_import_op_def apply_standard_changes_def pending_state_def pending_set_def list_tree_def
  effective_number_def changes_finalize_def finalize_step_def canonical_at_height_def map_client_def stored_justification_def
  update_consensus_changes_def update_authority_set_pairs new_authorities_of_def current_def Let_def

theorem finalize_block_persisted_witness:
  "\<exists>st. finalize_block list_tree map_client list_schema hd_number (\<lambda>_. []) None 2 2 (GivenJustification (default_justification 2 2 :: (u64, unit, u64, unit) CrfgJustification)) pending_state
       = Some (Inl (IssuedCommand (ChangeAuthorities \<lparr>na_canon_number = 2, na_canon_hash = 2, na_set_id = 1, na_authorities = [(2, 1)]\<rparr>)), st)
     \<and> load_persistent list_tree map_client list_schema 0 0 (Ok []) (fs_db st) = (Ok \<lparr>pd_authority_set = fs_authority_set st,
         pd_consensus_changes = fs_consensus_changes st, pd_set_state = Live 0 (state_genesis (2, 2))\<rparr>, fs_db st)"
proof -
  let ?j = "GivenJustification (default_justification 2 2 :: (u64, unit, u64, unit) CrfgJustification)"
  let ?f = "finalize_block list_tree map_client list_schema hd_number (\<lambda>_. []) None 2 2 ?j pending_state"
  have "map_option fst ?f = Some (Inl (IssuedCommand (ChangeAuthorities \<lparr>na_canon_number = 2, na_canon_hash = 2, na_set_id = 1, na_authorities = [(2, 1)]\<rparr>)))"
    by (simp add: finalize_eval)
  then obtain st where st: "?f = Some (Inl (IssuedCommand (ChangeAuthorities \<lparr>na_canon_number = 2, na_canon_hash = 2, na_set_id = 1,
      na_authorities = [(2, 1)]\<rparr>)), st)" by (auto simp: map_option_case split: option.splits)
  from finalize_block_persisted [OF map_client_ok list_tree_ok list_schema_ok pending_state_loads st] show ?thesis using st by simp
qed


end
