(* ===== verification/Block_Import.thy ===== *)
theory Block_Import
  imports Finality_Client
begin

text \<open>
  The import of blocks and justifications by the finality client, \<open>core/crfg/src/import.rs\<close>: it scans blocks for changes of the
  authority set, writes the changed set together with the block, and finalizes blocks with the justifications
  that come with them. The runtime's interface and the block import of the client are parameters.
\<close>

section \<open>Interfaces\<close>

record 'i ScheduledChange =
  sc_next_authorities :: "('i \<times> u64) list"
  sc_delay :: u64

record ('i, 'h, 'x) crfg_api =
  api_forced_change :: "'h \<Rightarrow> ('h, 'x) Header \<Rightarrow> (u64 \<times> 'i ScheduledChange) option result"
  api_has_version_2 :: "'h \<Rightarrow> bool result"
  api_pending_change :: "'h \<Rightarrow> ('h, 'x) Header \<Rightarrow> 'i ScheduledChange option result"

datatype BlockStatus = InChain | UnknownBlock

record ImportedAux =
  clear_justification_requests :: bool
  needs_justification :: bool
  bad_justification :: bool

datatype ImportResult = Imported ImportedAux | AlreadyInChain | KnownBad | UnknownParent

text \<open>A block with the hash of its header after sealing, and what to write with it.\<close>

record ('h, 'x) ImportBlock =
  ib_header :: "('h, 'x) Header"
  ib_post_hash :: 'h
  ib_justification :: "u8 list option"
  ib_auxiliary :: "(string \<times> u8 list option) list"

record ('h, 'x, 's, 'op, 'c) import_client = "('h, 'x, 's, 'op) finality_client" +
  cl_status :: "'s \<Rightarrow> 'h \<Rightarrow> BlockStatus result"
  cl_best_containing :: "'s \<Rightarrow> 'h \<Rightarrow> u64 option \<Rightarrow> 'h option result"
  cl_import_block :: "('h, 'x) ImportBlock \<Rightarrow> 'c list \<Rightarrow> 's \<Rightarrow> ImportResult result \<times> 's"

text \<open>The voter commands sent so far, and whether the voter still listens.\<close>

record ('i, 'h, 't, 'db) import_state = "('i, 'h, 't, 'db) finality_state" +
  fs_commands :: "('i, 'h) VoterCommand list"
  fs_listening :: bool

definition unbounded_send :: "('i, 'h) VoterCommand \<Rightarrow> ('i, 'h, 't, 'db) import_state \<Rightarrow> unit result \<times> ('i, 'h, 't, 'db) import_state" where
  "unbounded_send command st =
     (if fs_listening st then (Ok (), st\<lparr>fs_commands := fs_commands st @ [command]\<rparr>) else (Err ''send failed because receiver is gone'', st))"

section \<open>Changes announced by a block\<close>

text \<open>\<open>aggregate_authorities\<close>: an authority that appears again gains one unit of weight.\<close>

definition aggregate_step :: "'i \<times> u64 \<Rightarrow> ('i \<times> u64) list \<Rightarrow> ('i \<times> u64) list" where
  "aggregate_step author polymer =
     (case find_index (\<lambda>x. fst x = fst author) polymer of
        Some pos \<Rightarrow> polymer[pos := (fst (polymer ! pos), snd (polymer ! pos) + 1)]
      | None \<Rightarrow> polymer @ [author])"

definition aggregate_authorities :: "('i \<times> u64) list \<Rightarrow> ('i \<times> u64) list" where
  "aggregate_authorities authorities = fold aggregate_step authorities []"

definition check_new_change ::
  "('i, 'h, 'x) crfg_api \<Rightarrow> ('h, 'x) Header \<Rightarrow> 'h \<Rightarrow> ('i, 'h) PendingChange option result" where
  "check_new_change api header hash =
     (let at = hd_parent_hash header;
          change_of = (\<lambda>change kind. \<lparr>next_authorities = aggregate_authorities (sc_next_authorities change), delay = sc_delay change,
             canon_height = hd_number header, canon_hash = hash, delay_kind = kind\<rparr>);
          scheduled = map_sum id (map_option (\<lambda>change. change_of change Finalized)) (api_pending_change api at header)
      in case api_forced_change api at header of
           Inl e \<Rightarrow>
             (case api_has_version_2 api at of
                Inl e' \<Rightarrow> Err e'
              | Inr True \<Rightarrow> Err e
              | Inr False \<Rightarrow> scheduled)
         | Inr None \<Rightarrow> scheduled
         | Inr (Some (median_last_finalized, change)) \<Rightarrow> Ok (Some (change_of change (Best median_last_finalized))))"

datatype ('i, 'h) AppliedChanges = Standard bool | Forced "('i, 'h) NewAuthoritySet" | NoChanges

fun changes_need_justification :: "('i, 'h) AppliedChanges \<Rightarrow> bool" where
  "changes_need_justification (Standard _) = True"
| "changes_need_justification (Forced _) = False"
| "changes_need_justification NoChanges = False"

text \<open>
  The guard around the changes: \<open>just_in_case\<close> is the set to restore when the block is not imported.
\<close>

record ('i, 'h, 't) PendingSetChanges =
  just_in_case :: "('i, 'h, 't) AuthoritySet option"
  applied_changes :: "('i, 'h) AppliedChanges"
  do_pause :: bool

definition revert :: "('i, 'h, 't) PendingSetChanges \<Rightarrow> ('i, 'h, 't, 'db, 'z) finality_state_scheme \<Rightarrow> ('i, 'h, 't, 'db, 'z) finality_state_scheme" where
  "revert pending st = (case just_in_case pending of None \<Rightarrow> st | Some old \<Rightarrow> st\<lparr>fs_authority_set := old\<rparr>)"

text \<open>
  The part of \<open>make_authorities_changes\<close> that applies a forced change or finds that a standard one is enacted: the applied changes,
  with the set a forced change replaces the current one by. \<open>None\<close> is a panic.
\<close>

definition apply_changes ::
  "('t, 'h, ('i, 'h) PendingChange) fork_tree \<Rightarrow> ('h, 'x, 'db, 'op, 'z) finality_client_scheme \<Rightarrow> (('h, 'x) Header \<Rightarrow> 'h)
     \<Rightarrow> 'db \<Rightarrow> 'h \<Rightarrow> u64 \<Rightarrow> 'h descendence \<Rightarrow> ('i, 'h, 't) AuthoritySet
     \<Rightarrow> (('i, 'h) AppliedChanges \<times> ('i, 'h, 't) AuthoritySet option) result option" where
  "apply_changes ft cl hdhash db hash number isd aset =
     (case apply_forced_changes ft hash number isd aset of
        None \<Rightarrow> None
      | Some (Inl e) \<Rightarrow> Some (Err e)
      | Some (Inr (Some (median_last_finalized_number, new_set))) \<Rightarrow>
          (case cl_info cl db of
             Inl e \<Rightarrow> Some (Err e)
           | Inr info \<Rightarrow>
               (let canon_number = min (info_finalized_number info) median_last_finalized_number
                in case cl_header_by_number cl db canon_number of
                     Inl e \<Rightarrow> Some (Err e)
                   | Inr None \<Rightarrow> None
                   | Inr (Some x) \<Rightarrow>
                       Some (Ok (Forced \<lparr>na_canon_number = canon_number, na_canon_hash = hdhash x,
                         na_set_id = fst (current new_set), na_authorities = snd (current new_set)\<rparr>, Some new_set))))
      | Some (Inr None) \<Rightarrow>
          (case enacts_standard_change ft hash number isd aset of
             Inl e \<Rightarrow> Some (Err e)
           | Inr (Some root) \<Rightarrow> Some (Ok (Standard root, None))
           | Inr None \<Rightarrow> Some (Ok (NoChanges, None))))"

definition make_authorities_changes ::
  "('t, 'h, ('i, 'h) PendingChange) fork_tree \<Rightarrow> ('h, 'x, 'db, 'op, 'z) finality_client_scheme \<Rightarrow> ('i, 'h, 't) schema_codecs
     \<Rightarrow> (('h, 'x) Header \<Rightarrow> 'h) \<Rightarrow> ('i, 'h, 'x) crfg_api \<Rightarrow> ('h, 'x) ImportBlock \<Rightarrow> 'h \<Rightarrow> ('i, 'h, 't, 'db, 'y) finality_state_scheme
     \<Rightarrow> ((('i, 'h, 't) PendingSetChanges \<times> ('h, 'x) ImportBlock) result \<times> ('i, 'h, 't, 'db, 'y) finality_state_scheme) option" where
  "make_authorities_changes ft cl cd hdhash api block hash st =
     (let number = hd_number (ib_header block);
          isd = descendent_query cl (fs_db st) (Some (hash, hd_parent_hash (ib_header block)))
      in case check_new_change api (ib_header block) hash of
           Inl e \<Rightarrow> Some (Err e, st)
         | Inr maybe_change \<Rightarrow>
             (let current_set = fs_authority_set st;
                  old = (case maybe_change of None \<Rightarrow> None | Some _ \<Rightarrow> Some current_set);
                  pause = (case maybe_change of None \<Rightarrow> False | Some change \<Rightarrow> delay_kind change \<noteq> Finalized);
                  added = (case maybe_change of None \<Rightarrow> (Ok (), current_set) | Some change \<Rightarrow> add_pending_change ft change isd current_set)
              in case added of
                   (Inl e, _) \<Rightarrow> Some (Err e, st)
                 | (Inr _, aset) \<Rightarrow>
                     (case apply_changes ft cl hdhash (fs_db st) hash number isd aset of
                        None \<Rightarrow> None
                      | Some (Inl e) \<Rightarrow> Some (Err e, st)
                      | Some (Inr (changes, replaced)) \<Rightarrow>
                          (let old = (case old of Some _ \<Rightarrow> old | None \<Rightarrow> (case replaced of None \<Rightarrow> None | Some _ \<Rightarrow> Some aset));
                               aset = (case replaced of None \<Rightarrow> aset | Some new_set \<Rightarrow> new_set);
                               authorities_change = (case changes of Forced new \<Rightarrow> Some new | _ \<Rightarrow> None);
                               block = (case old of None \<Rightarrow> block
                                 | Some _ \<Rightarrow> update_authority_set cd aset authorities_change
                                     (\<lambda>insert. block\<lparr>ib_auxiliary := ib_auxiliary block @ map (\<lambda>(k, v). (k, Some v)) insert\<rparr>))
                           in Some (Ok (\<lparr>just_in_case = old, applied_changes = changes, do_pause = pause\<rparr>, block),
                                    st\<lparr>fs_authority_set := aset\<rparr>)))))"

section \<open>Importing justifications and blocks\<close>

definition DEFAULT_FINALIZE_BLOCK :: u64 where "DEFAULT_FINALIZE_BLOCK = 1"

text \<open>
  What the import of justifications is given besides the client and the fork tree: the codec of justifications, the
  signature scheme and the hash of headers.
\<close>

record ('h, 's, 'i, 'x) justification_env =
  je_encode :: "('h, 's, 'i, 'x) CrfgJustification \<Rightarrow> u8 list"
  je_decode :: "u8 list \<Rightarrow> ('h, 's, 'i, 'x) CrfgJustification option"
  je_signing :: "('h, 's, 'i) signing"
  je_hash :: "('h, 'x) Header \<Rightarrow> 'h"

text \<open>\<open>None\<close> is a panic, in \<open>verify\<close>, in \<open>finalize_block\<close>, or of the assertion that a change is enacted.\<close>

definition import_justification ::
  "('t, 'h::linorder, ('i, 'h) PendingChange) fork_tree \<Rightarrow> ('h, 'x, 'db, 'op, 'z) finality_client_scheme \<Rightarrow> ('i, 'h, 't) schema_codecs
     \<Rightarrow> ('h, 's, 'i, 'x) justification_env \<Rightarrow> 'h \<Rightarrow> u64 \<Rightarrow> u8 list \<Rightarrow> bool \<Rightarrow> ('i, 'h, 't, 'db) import_state
     \<Rightarrow> (unit result \<times> ('i, 'h, 't, 'db) import_state) option" where
  "import_justification ft cl cd je hash number justification enacts_change st =
     (case decode_and_verify (je_decode je) (je_signing je) (je_hash je) justification (set_id (fs_authority_set st))
             (voter_set_from_iter (current_authorities (fs_authority_set st))) of
        None \<Rightarrow> None
      | Some (Inl e) \<Rightarrow> Some (Err e, st)
      | Some (Inr just) \<Rightarrow>
          (case finalize_block ft cl cd (je_hash je) (je_encode je) None hash number (GivenJustification just) st of
             None \<Rightarrow> None
           | Some (Inl (IssuedCommand command), st) \<Rightarrow> Some (unbounded_send command st)
           | Some (Inl (FinalityError e), st) \<Rightarrow> Some (Err e, st)
           | Some (Inr _, st) \<Rightarrow> if enacts_change then None else Some (Ok (), st)))"

text \<open>A justification that is rejected is only noted in the result of the import.\<close>

definition try_justification ::
  "(unit result \<times> ('i, 'h, 't, 'db) import_state) option \<Rightarrow> ImportedAux \<Rightarrow> (ImportResult result \<times> ('i, 'h, 't, 'db) import_state) option" where
  "try_justification attempt aux =
     (case attempt of
        None \<Rightarrow> None
      | Some (Inr _, st) \<Rightarrow> Some (Ok (Imported aux), st)
      | Some (Inl e, st) \<Rightarrow> Some (Ok (Imported (aux\<lparr>bad_justification := True, needs_justification := True\<rparr>)), st))"

definition justify_import ::
  "('t, 'h::linorder, ('i, 'h) PendingChange) fork_tree \<Rightarrow> ('h, 'x, 'db, 'op, 'z) finality_client_scheme \<Rightarrow> ('i, 'h, 't) schema_codecs
     \<Rightarrow> ('h, 's, 'i, 'x) justification_env \<Rightarrow> 'h \<Rightarrow> u64 \<Rightarrow> u8 list option \<Rightarrow> bool \<Rightarrow> bool \<Rightarrow> ImportedAux \<Rightarrow> ('i, 'h, 't, 'db) import_state
     \<Rightarrow> (ImportResult result \<times> ('i, 'h, 't, 'db) import_state) option" where
  "justify_import ft cl cd je hash number justification needs enacts_consensus_change aux st =
     (case justification of
        Some j \<Rightarrow> try_justification (import_justification ft cl cd je hash number j needs st) aux
      | None \<Rightarrow>
          if number = DEFAULT_FINALIZE_BLOCK
          then try_justification
                 (import_justification ft cl cd je hash number (je_encode je (default_justification hash number)) needs st) aux
          else Some (Ok (Imported (aux\<lparr>needs_justification := True\<rparr>)),
                 if enacts_consensus_change
                 then st\<lparr>fs_consensus_changes := note_change (number, hash) (fs_consensus_changes st)\<rparr> else st))"

definition import_block ::
  "('t, 'h::linorder, ('i, 'h) PendingChange) fork_tree \<Rightarrow> ('h, 'x, 'db, 'op, 'c) import_client \<Rightarrow> ('i, 'h, 't) schema_codecs
     \<Rightarrow> ('h, 's, 'i, 'x) justification_env \<Rightarrow> ('i, 'h, 'x) crfg_api \<Rightarrow> ('h, 'x) ImportBlock \<Rightarrow> 'c list \<Rightarrow> ('i, 'h, 't, 'db) import_state
     \<Rightarrow> (ImportResult result \<times> ('i, 'h, 't, 'db) import_state) option" where
  "import_block ft cl cd je api block new_cache st =
     (let hash = ib_post_hash block; number = hd_number (ib_header block)
      in case cl_status cl (fs_db st) hash of
           Inl e \<Rightarrow> Some (Err e, st)
         | Inr InChain \<Rightarrow> Some (Ok AlreadyInChain, st)
         | Inr UnknownBlock \<Rightarrow>
             (case make_authorities_changes ft cl cd (je_hash je) api block hash st of
                None \<Rightarrow> None
              | Some (Inl e, st) \<Rightarrow> Some (Err e, st)
              | Some (Inr (pending, block), st) \<Rightarrow>
                  (case cl_import_block cl (block\<lparr>ib_justification := None\<rparr>) new_cache (fs_db st) of
                     (Inl e, db) \<Rightarrow> Some (Err e, revert pending (st\<lparr>fs_db := db\<rparr>))
                   | (Inr (Imported aux), db) \<Rightarrow>
                       (let st = st\<lparr>fs_db := db\<rparr>;
                            changes = applied_changes pending;
                            st = (if do_pause pending
                                  then snd (unbounded_send (Pause ''Forced change scheduled after inactivity'') st) else st);
                            needs = changes_need_justification changes;
                            st = (case changes of Forced new \<Rightarrow> snd (unbounded_send (ChangeAuthorities new) st) | _ \<Rightarrow> st);
                            aux = (case changes of Forced _ \<Rightarrow> aux\<lparr>clear_justification_requests := True\<rparr> | _ \<Rightarrow> aux);
                            justification = (if changes = Standard False then None else ib_justification block);
                            enacts_consensus_change = (new_cache \<noteq> [])
                        in if \<not> needs \<and> \<not> enacts_consensus_change then Some (Ok (Imported aux), st)
                           else justify_import ft cl cd je hash number justification needs enacts_consensus_change aux st)
                   | (Inr r, db) \<Rightarrow> Some (Ok r, revert pending (st\<lparr>fs_db := db\<rparr>)))))"

text \<open>The justifications that are requested on start: those of the enacted changes that are not finalized yet.\<close>

definition on_start ::
  "('t, 'h, ('i, 'h) PendingChange) fork_tree \<Rightarrow> ('h, 'x, 'db, 'op, 'c) import_client \<Rightarrow> (('h, 'x) Header \<Rightarrow> 'h) \<Rightarrow> ('i, 'h, 't, 'db, 'y) finality_state_scheme
     \<Rightarrow> ('h \<times> u64) list" where
  "on_start ft cl hdhash st =
     (case cl_info cl (fs_db st) of
        Inl _ \<Rightarrow> []
      | Inr info \<Rightarrow>
          concat (map (\<lambda>change.
            if delay_kind change = Finalized \<and> info_finalized_number info < effective_number change
               \<and> effective_number change \<le> info_best_number info
            then (case cl_best_containing cl (fs_db st) (canon_hash change) (Some (effective_number change)) of
                    Inr (Some h) \<Rightarrow>
                      (case cl_header cl (fs_db st) h of
                         Inr (Some x) \<Rightarrow> if hd_number x = effective_number change then [(hdhash x, hd_number x)] else []
                       | _ \<Rightarrow> [])
                  | _ \<Rightarrow> [])
            else []) (pending_changes ft (fs_authority_set st))))"

section \<open>Authorities are aggregated\<close>

lemma aggregate_step_spec:
  assumes d: "distinct (map fst p)"
  shows "map fst (aggregate_step a p) = (if fst a \<in> fst ` set p then map fst p else map fst p @ [fst a])"
    "snd a = 1 \<Longrightarrow> sum_list (map (unat \<circ> snd) p) + 1 < 2 ^ 64 \<Longrightarrow>
       sum_list (map (unat \<circ> snd) (aggregate_step a p)) = sum_list (map (unat \<circ> snd) p) + 1"
    "snd a = 1 \<Longrightarrow> map_of (aggregate_step a p) = (map_of p)(fst a \<mapsto> (case map_of p (fst a) of None \<Rightarrow> 1 | Some w \<Rightarrow> w + 1))"
proof -
  have *: "map fst (aggregate_step a p) = (if fst a \<in> fst ` set p then map fst p else map fst p @ [fst a])
    \<and> (snd a = 1 \<longrightarrow> sum_list (map (unat \<circ> snd) p) + 1 < 2 ^ 64 \<longrightarrow>
       sum_list (map (unat \<circ> snd) (aggregate_step a p)) = sum_list (map (unat \<circ> snd) p) + 1)
    \<and> (snd a = 1 \<longrightarrow> map_of (aggregate_step a p) = (map_of p)(fst a \<mapsto> (case map_of p (fst a) of None \<Rightarrow> 1 | Some w \<Rightarrow> w + 1)))"
  proof (cases "fst a \<in> fst ` set p")
    case False
    then have "\<not> (\<exists>x\<in>set p. fst x = fst a)" by (metis image_eqI)
    then have s: "aggregate_step a p = p @ [a]" unfolding aggregate_step_def find_index_def by simp
    have n: "map_of p (fst a) = None" using False by (simp add: map_of_eq_None_iff)
    show ?thesis unfolding s using False n
      by (cases a) (auto simp: fun_eq_iff map_add_def split: option.splits)
  next
    case True
    then obtain xs w ys where p: "p = xs @ (fst a, w) # ys" by (force simp: in_set_conv_decomp)
    have n: "fst a \<notin> fst ` set xs" using d p by auto
    then have "\<forall>x\<in>set xs. fst x \<noteq> fst a" by (metis image_eqI)
    then have "takeWhile (\<lambda>x. fst x \<noteq> fst a) p = xs" unfolding p by (subst takeWhile_append2) simp_all
    then have s: "aggregate_step a p = xs @ (fst a, w + 1) # ys" by (auto simp: aggregate_step_def find_index_def p)
    have mx: "map_of xs (fst a) = None" using n by (simp add: map_of_eq_None_iff)
    have "unat (w + 1) = unat w + 1" if "sum_list (map (unat \<circ> snd) p) + 1 < 2 ^ 64"
      using that by (subst unat_add_lem [THEN iffD1]) (simp_all add: p)
    moreover have "map_of (xs @ (fst a, w + 1) # ys) = (map_of p)(fst a \<mapsto> w + 1)"
      using mx by (auto simp: p fun_eq_iff map_add_def split: option.splits)
    moreover have "map_of p (fst a) = Some w" using mx by (simp add: p map_add_def)
    ultimately show ?thesis unfolding s using True by (auto simp: p)
  qed
  show "map fst (aggregate_step a p) = (if fst a \<in> fst ` set p then map fst p else map fst p @ [fst a])"
    "snd a = 1 \<Longrightarrow> sum_list (map (unat \<circ> snd) p) + 1 < 2 ^ 64 \<Longrightarrow>
       sum_list (map (unat \<circ> snd) (aggregate_step a p)) = sum_list (map (unat \<circ> snd) p) + 1"
    "snd a = 1 \<Longrightarrow> map_of (aggregate_step a p) = (map_of p)(fst a \<mapsto> (case map_of p (fst a) of None \<Rightarrow> 1 | Some w \<Rightarrow> w + 1))"
    using * by blast+
qed

lemma aggregate_distinct: "distinct (map fst (aggregate_authorities xs)) \<and> fst ` set (aggregate_authorities xs) = fst ` set xs"
proof (induction xs rule: rev_induct)
  case (snoc a xs)
  have e: "aggregate_authorities (xs @ [a]) = aggregate_step a (aggregate_authorities xs)" by (simp add: aggregate_authorities_def)
  have m: "map fst (aggregate_step a (aggregate_authorities xs)) = (if fst a \<in> fst ` set (aggregate_authorities xs)
      then map fst (aggregate_authorities xs) else map fst (aggregate_authorities xs) @ [fst a])"
    using aggregate_step_spec(1) snoc by blast
  from arg_cong [OF m, of set] arg_cong [OF m, of distinct] show ?case unfolding e using snoc by (auto split: if_splits)
qed (simp add: aggregate_authorities_def)

text \<open>
  C37: announced authorities form a well-formed voter set. Whatever list the runtime announces, with repetitions, the aggregated list
  names each authority once; and with the unit weights that the runtime uses, an authority weighs as often as it was named,
  so that the voters have a total weight, without overflow, for which the quorums of the finality gadget are defined.
\<close>

theorem aggregate_authorities_wf:
  assumes weights: "\<forall>a\<in>set xs. snd a = 1" and n: "length xs < 2 ^ 64"
  shows "distinct (map fst (aggregate_authorities xs)) \<and> fst ` set (aggregate_authorities xs) = fst ` set xs
    \<and> (\<forall>i\<in>fst ` set xs. map_of (aggregate_authorities xs) i = Some (of_nat (count_list (map fst xs) i)))
    \<and> (xs \<noteq> [] \<longrightarrow> voters_ok (voter_set_from_iter (aggregate_authorities xs)))"
proof -
  have "sum_list (map (unat \<circ> snd) (aggregate_authorities xs)) = length xs
    \<and> map_of (aggregate_authorities xs) = (\<lambda>i. if i \<in> fst ` set xs then Some (of_nat (count_list (map fst xs) i)) else None)"
    using assms
  proof (induction xs rule: rev_induct)
    case (snoc a xs)
    let ?p = "aggregate_authorities xs"
    have e: "aggregate_authorities (xs @ [a]) = aggregate_step a ?p" by (simp add: aggregate_authorities_def)
    have IH: "sum_list (map (unat \<circ> snd) ?p) = length xs"
      "map_of ?p = (\<lambda>i. if i \<in> fst ` set xs then Some (of_nat (count_list (map fst xs) i)) else None)"
      using snoc.IH snoc.prems by (simp_all add: o_def)
    have d: "distinct (map fst ?p)" using aggregate_distinct by blast
    have a: "snd a = 1" using snoc.prems(1) by simp
    have "sum_list (map (unat \<circ> snd) (aggregate_step a ?p)) = length (xs @ [a])"
      using aggregate_step_spec(2) [OF d a] IH(1) snoc.prems(2) by simp
    moreover have "count_list (map fst xs) (fst a) = 0" if "fst a \<notin> fst ` set xs"
      using that by (simp add: count_list_0_iff)
    then have "map_of (aggregate_step a ?p) = (\<lambda>i. if i \<in> fst ` set (xs @ [a]) then Some (of_nat (count_list (map fst (xs @ [a])) i)) else None)"
      unfolding aggregate_step_spec(3) [OF d a] IH(2) by (auto simp: fun_eq_iff)
    ultimately show ?case unfolding e by blast
  qed (simp add: aggregate_authorities_def)
  moreover note aggregate_distinct [of xs]
  ultimately show ?thesis using n by (auto simp: voters_ok_def intro!: exI [of _ "aggregate_authorities xs"])
qed

theorem aggregate_authorities_wf_witness:
  "distinct (map fst (aggregate_authorities [(7 :: nat, 1), (8, 1), (7, 1)])) \<and> map_of (aggregate_authorities [(7 :: nat, 1), (8, 1), (7, 1)]) 7 = Some 2
     \<and> voters_ok (voter_set_from_iter (aggregate_authorities [(7 :: nat, 1), (8, 1), (7, 1)]))"
  using aggregate_authorities_wf [of "[(7 :: nat, 1), (8, 1), (7, 1)]"] by simp

section \<open>Imports that fail\<close>

text \<open>
  The import of a block by the client writes its auxiliary entries together with it, the later of two for a key, or leaves
  the database as it is if the block is not imported.
\<close>

definition import_client_ok :: "('h, 'x, 's, 'op, 'c) import_client \<Rightarrow> ('op \<Rightarrow> (string \<rightharpoonup> u8 list)) \<Rightarrow> bool" where
  "import_client_ok cl aux_of \<longleftrightarrow> client_ok cl aux_of
     \<and> (\<forall>block cache s s' aux. cl_import_block cl block cache s = (Ok (Imported aux), s') \<longrightarrow>
          (\<forall>k. get_aux cl k s' = (case map_of (rev (ib_auxiliary block)) k of None \<Rightarrow> get_aux cl k s | Some v \<Rightarrow> Ok v)))
     \<and> (\<forall>block cache s s' r. cl_import_block cl block cache s = (r, s') \<longrightarrow> (\<forall>aux. r \<noteq> Ok (Imported aux)) \<longrightarrow> s' = s)"

lemma import_client_okD:
  assumes "import_client_ok cl aux_of"
  shows "client_ok cl aux_of"
    "cl_import_block cl block cache s = (Ok (Imported aux), s') \<Longrightarrow>
       get_aux cl k s' = (case map_of (rev (ib_auxiliary block)) k of None \<Rightarrow> get_aux cl k s | Some v \<Rightarrow> Ok v)"
    "cl_import_block cl block cache s = (r, s') \<Longrightarrow> \<forall>aux. r \<noteq> Ok (Imported aux) \<Longrightarrow> s' = s"
  using assms unfolding import_client_ok_def by (blast, blast, blast)

text \<open>What the changes of a block do to the state and the block: the set to restore is the one before.\<close>

lemma make_authorities_changes_spec:
  assumes "make_authorities_changes ft cl cd hdhash api block hash st = Some (r, st')"
  shows "(\<exists>e. r = Err e) \<Longrightarrow> st' = st"
    "r = Ok (p, block') \<Longrightarrow> st' = st\<lparr>fs_authority_set := fs_authority_set st'\<rparr> \<and>
       (just_in_case p = None \<and> fs_authority_set st' = fs_authority_set st \<and> block' = block \<and> (\<forall>new. applied_changes p \<noteq> Forced new)
        \<or> just_in_case p = Some (fs_authority_set st) \<and> block' = update_authority_set cd (fs_authority_set st')
            (case applied_changes p of Forced new \<Rightarrow> Some new | _ \<Rightarrow> None)
            (\<lambda>insert. block\<lparr>ib_auxiliary := ib_auxiliary block @ map (\<lambda>(k, v). (k, Some v)) insert\<rparr>))"
proof -
  show "(\<exists>e. r = Err e) \<Longrightarrow> st' = st"
    using assms by (auto simp: make_authorities_changes_def Let_def split: sum.splits option.splits prod.splits)
  assume r: "r = Ok (p, block')"
  obtain change where c: "check_new_change api (ib_header block) hash = Ok change"
    using assms r by (auto simp: make_authorities_changes_def Let_def split: sum.splits)
  let ?isd = "descendent_query cl (fs_db st) (Some (hash, hd_parent_hash (ib_header block)))"
  let ?added = "case change of None \<Rightarrow> (Ok (), fs_authority_set st) | Some change \<Rightarrow> add_pending_change ft change ?isd (fs_authority_set st)"
  obtain aset where a: "?added = (Ok (), aset)"
    using assms r by (auto simp: make_authorities_changes_def Let_def c split: sum.splits prod.splits)
  note m = assms [unfolded make_authorities_changes_def Let_def c sum.case a prod.case]
  obtain changes replaced where ac: "apply_changes ft cl hdhash (fs_db st) hash (hd_number (ib_header block)) ?isd aset = Some (Ok (changes, replaced))"
    using m r by (auto split: option.splits sum.splits prod.splits)
  have forced: "replaced \<noteq> None" if "changes = Forced new" for new
    using ac that by (auto simp: apply_changes_def Let_def split: option.splits sum.splits prod.splits)
  note m = m [unfolded ac option.case sum.case prod.case]
  have none: "change = None \<Longrightarrow> aset = fs_authority_set st" using a by simp
  show "st' = st\<lparr>fs_authority_set := fs_authority_set st'\<rparr> \<and>
       (just_in_case p = None \<and> fs_authority_set st' = fs_authority_set st \<and> block' = block \<and> (\<forall>new. applied_changes p \<noteq> Forced new)
        \<or> just_in_case p = Some (fs_authority_set st) \<and> block' = update_authority_set cd (fs_authority_set st')
            (case applied_changes p of Forced new \<Rightarrow> Some new | _ \<Rightarrow> None)
            (\<lambda>insert. block\<lparr>ib_auxiliary := ib_auxiliary block @ map (\<lambda>(k, v). (k, Some v)) insert\<rparr>))"
  proof (cases "change = None \<and> replaced = None")
    case True
    then show ?thesis using m r none forced by auto
  next
    case False
    then show ?thesis using m r none by (auto split: option.splits)
  qed
qed

lemma revert_changes:
  assumes "make_authorities_changes ft cl cd hdhash api block hash st = Some (Ok (p, block'), st')"
  shows "revert p st' = st"
proof -
  obtain a where a: "st' = st\<lparr>fs_authority_set := a\<rparr>" using make_authorities_changes_spec(2) [OF assms refl] by blast
  show ?thesis using make_authorities_changes_spec(2) [OF assms refl] unfolding a by (cases "just_in_case p") (auto simp: revert_def)
qed

lemma import_block_reverts:
  assumes cl: "import_client_ok cl aux_of" and i: "import_block ft cl cd je api block cache st = Some (r, st')"
    and r: "\<forall>aux. r \<noteq> Ok (Imported aux)"
  shows "st' = st"
proof (cases "cl_status cl (fs_db st) (ib_post_hash block) = Ok UnknownBlock")
  case False
  then show ?thesis using i by (auto simp: import_block_def Let_def split: sum.splits BlockStatus.splits)
next
  case True
  obtain m st1 where m: "make_authorities_changes ft cl cd (je_hash je) api block (ib_post_hash block) st = Some (m, st1)"
    using i True by (auto simp: import_block_def Let_def split: option.splits)
  note i = i [unfolded import_block_def Let_def True sum.case BlockStatus.case m option.case prod.case]
  show ?thesis
  proof (cases m)
    case (Inl e)
    then show ?thesis using i make_authorities_changes_spec(1) [OF m] by auto
  next
    case (Inr pb)
    then obtain p b where pb: "m = Ok (p, b)" by (cases pb) simp
    obtain x db where x: "cl_import_block cl (b\<lparr>ib_justification := None\<rparr>) cache (fs_db st1) = (x, db)"
      by (cases "cl_import_block cl (b\<lparr>ib_justification := None\<rparr>) cache (fs_db st1)") simp
    note i = i [unfolded pb sum.case prod.case x]
    have no: "\<forall>aux. x \<noteq> Ok (Imported aux)"
      using i r by (auto simp: justify_import_def try_justification_def split: if_splits option.splits prod.splits sum.splits)
    then have "st' = revert p (st1\<lparr>fs_db := db\<rparr>)" using i by (auto split: sum.splits ImportResult.splits)
    then show ?thesis using import_client_okD(3) [OF cl x no] revert_changes [OF m [unfolded pb]] by simp
  qed
qed

text \<open>
  C36: a block that is not imported leaves no trace. Whatever its announcements, when the import fails or the client does not
  import the block, the node is in the same state as before: the authority set is restored, and nothing was sent or written.
\<close>

theorem rejected_import_reverts:
  assumes cl: "import_client_ok cl aux_of" and i: "import_block ft cl cd je api block cache st = Some (r, st')"
    and r: "\<forall>aux. r \<noteq> Ok (Imported aux)"
  shows "st' = st"
  by (rule import_block_reverts [OF cl i r])

section \<open>An instance\<close>

text \<open>
  The client of the earlier examples, which has the blocks up to 3 and imports others with their auxiliary entries, unless
  a block is its own parent.
\<close>

definition chain_client :: "(u64, unit, example_db, example_db, unit) import_client" where
  "chain_client = finality_client.extend map_client (import_client.fields
     (\<lambda>s h. Ok (if h \<le> 3 then InChain else UnknownBlock)) (\<lambda>s h n. Ok n)
     (\<lambda>block cache s. if hd_parent_hash (ib_header block) = ib_post_hash block then (Ok UnknownParent, s)
        else (Ok (Imported \<lparr>clear_justification_requests = False, needs_justification = False, bad_justification = False\<rparr>),
              (\<lambda>k. case map_of (rev (ib_auxiliary block)) k of None \<Rightarrow> fst s k | Some v \<Rightarrow> v, snd s))))"

lemmas chain_client_defs = chain_client_def map_client_def finality_client.extend_def import_client.fields_def

lemma chain_client_select:
  "get_aux chain_client = get_aux map_client" "insert_aux chain_client = insert_aux map_client" "cl_new_op chain_client = cl_new_op map_client"
  "cl_apply_aux chain_client = cl_apply_aux map_client" "cl_apply_finality chain_client = cl_apply_finality map_client"
  "cl_commit chain_client = cl_commit map_client"
  by (simp_all add: chain_client_def finality_client.extend_def)

lemma chain_client_ok: "import_client_ok chain_client fst"
  unfolding import_client_ok_def
proof (intro conjI allI impI)
  show "client_ok chain_client fst"
    using map_client_ok unfolding client_ok_def aux_store_ok_def written_def chain_client_select .
next
  fix block :: "(u64, unit) ImportBlock" and cache s s' aux k
  assume "cl_import_block chain_client block cache s = (Ok (Imported aux), s')"
  then show "get_aux chain_client k s' = (case map_of (rev (ib_auxiliary block)) k of None \<Rightarrow> get_aux chain_client k s | Some v \<Rightarrow> Ok v)"
    by (auto simp: chain_client_defs split: if_splits option.splits)
next
  fix block :: "(u64, unit) ImportBlock" and cache s s' r
  assume "cl_import_block chain_client block cache s = (r, s')" "\<forall>aux. r \<noteq> Ok (Imported aux)"
  then show "s' = s" by (auto simp: chain_client_defs split: if_splits)
qed

definition idle_state :: "(u64, u64, list_tree_type, example_db) import_state" where
  "idle_state = \<lparr>fs_authority_set = authorities_genesis list_tree [(1, 1)], fs_consensus_changes = changes_empty,
     fs_last_completed = (0, state_genesis (0, 0)), fs_db = (Map.empty, []), fs_commands = [], fs_listening = True\<rparr>"

definition forcing_api :: "(u64, u64, unit) crfg_api" where
  "forcing_api = \<lparr>api_forced_change = (\<lambda>_ _. Ok (Some (0, \<lparr>sc_next_authorities = [(5, 1)], sc_delay = 100\<rparr>))),
     api_has_version_2 = (\<lambda>_. Ok True), api_pending_change = (\<lambda>_ _. Ok None)\<rparr>"

text \<open>A justification for block 2, signed by the only voter; signatures are valid if they are zero.\<close>

definition justification_of_2 :: "(u64, u64, u64, unit) CrfgJustification" where
  "justification_of_2 = \<lparr>cj_round = 1, cj_commit = \<lparr>cm_target_hash = 2, cm_target_number = 2, cm_precommits =
     [\<lparr>sp_precommit = \<lparr>pc_target_hash = 2, pc_target_number = 2\<rparr>, sp_signature = 0, sp_id = 1\<rparr>]\<rparr>, cj_votes_ancestries = []\<rparr>"

definition example_env :: "(u64, u64, u64, unit) justification_env" where
  "example_env = \<lparr>je_encode = (\<lambda>_. [7]), je_decode = (\<lambda>bs. if bs = [7] then Some justification_of_2 else None),
     je_signing = \<lparr>payload_encode = (\<lambda>_. []), ed25519_verify = (\<lambda>s _ _. s = 0)\<rparr>, je_hash = hd_number\<rparr>"

theorem rejected_import_reverts_witness:
  "import_block list_tree chain_client list_schema example_env forcing_api
     \<lparr>ib_header = \<lparr>hd_number = 9, hd_parent_hash = 9, hd_rest = ()\<rparr>, ib_post_hash = 9, ib_justification = None, ib_auxiliary = []\<rparr> [] idle_state
   = Some (Ok UnknownParent, idle_state)"
proof -
  let ?i = "import_block list_tree chain_client list_schema example_env forcing_api
     \<lparr>ib_header = \<lparr>hd_number = 9, hd_parent_hash = 9, hd_rest = ()\<rparr>, ib_post_hash = 9, ib_justification = None, ib_auxiliary = []\<rparr> [] idle_state"
  have "map_option fst ?i = Some (Ok UnknownParent)"
    by (simp add: import_block_def Let_def make_authorities_changes_def check_new_change_def forcing_api_def example_env_def idle_state_def
        add_pending_change_def add_forced_change_def apply_changes_def apply_forced_changes_def enacts_standard_change_def list_tree_def
        authorities_genesis_def insert_at_def binary_search_by_key_def search_index_def effective_number_def chain_client_defs
        update_authority_set_def)
  then obtain st where st: "?i = Some (Ok UnknownParent, st)" by (auto simp: map_option_case split: option.splits)
  from rejected_import_reverts [OF chain_client_ok st] st show ?thesis by simp
qed


end
