(* ===== verification/Finality_Node.thy ===== *)
theory Finality_Node
  imports Block_Import
begin

text \<open>
  The finality task of a node, \<open>run_crfg\<close> of \<open>core/crfg/src/lib.rs\<close>: the voter of the current set, which is replaced or paused by
  commands, next to the import of blocks. The asynchronous parts, timers, gossip and the voter's own steps, are left out; what
  the voter does to the shared state is \<open>env_finalize_block\<close> and \<open>env_completed\<close>.
\<close>

section \<open>Voters and commands\<close>

record ('i, 'h) voter_env =
  ve_voters :: "'i VoterSet"
  ve_set_id :: u64
  ve_set_state :: "'h VoterSetState"

definition initial_env :: "('i, 'h, 't) PersistentData \<Rightarrow> ('i, 'h) voter_env" where
  "initial_env d = \<lparr>ve_voters = voter_set_from_iter (current_authorities (pd_authority_set d)), ve_set_id = set_id (pd_authority_set d),
     ve_set_state = pd_set_state d\<rparr>"

definition initial_state :: "('i, 'h, 't) PersistentData \<Rightarrow> 'db \<Rightarrow> ('i, 'h, 't, 'db) import_state" where
  "initial_state d db = \<lparr>fs_authority_set = pd_authority_set d, fs_consensus_changes = pd_consensus_changes d,
     fs_last_completed = voter_state_round (pd_set_state d), fs_db = db, fs_commands = [], fs_listening = True\<rparr>"

fun handle_voter_command ::
  "('h, 'x, 'db, 'op, 'z) finality_client_scheme \<Rightarrow> ('i, 'h, 't) schema_codecs \<Rightarrow> ('i, 'h) VoterCommand \<Rightarrow> ('i, 'h) voter_env
     \<Rightarrow> ('i, 'h, 't, 'db, 'y) finality_state_scheme \<Rightarrow> ('i, 'h) voter_env result \<times> ('i, 'h, 't, 'db, 'y) finality_state_scheme" where
  "handle_voter_command cl cd (ChangeAuthorities new) env st =
     (let genesis_state = state_genesis (na_canon_hash new, na_canon_number new)
      in (Ok \<lparr>ve_voters = voter_set_from_iter (na_authorities new), ve_set_id = na_set_id new, ve_set_state = Live 0 genesis_state\<rparr>,
          st\<lparr>fs_last_completed := (0, genesis_state)\<rparr>))"
| "handle_voter_command cl cd (Pause reason) env st =
     (let set_state = Paused (fst (fs_last_completed st)) (snd (fs_last_completed st))
      in case write_voter_set_state cl cd set_state (fs_db st) of
           (Inl e, db) \<Rightarrow> (Err e, st\<lparr>fs_db := db\<rparr>)
         | (Inr _, db) \<Rightarrow> (Ok (env\<lparr>ve_set_state := set_state\<rparr>), st\<lparr>fs_db := db\<rparr>))"

section \<open>The states a node can reach\<close>

text \<open>
  A node starts from its database, and then imports blocks and justifications, finalizes blocks, completes rounds and
  handles commands, in any order. A block comes without auxiliary entries under the keys of the finality client.
\<close>

inductive reachable_node ::
  "('t, 'h::linorder, ('i, 'h) PendingChange) fork_tree \<Rightarrow> ('h, 'x, 'db, 'op, 'c) import_client \<Rightarrow> ('i, 'h, 't) schema_codecs
     \<Rightarrow> ('h, 's, 'i, 'x) justification_env \<Rightarrow> 'h \<Rightarrow> u64 \<Rightarrow> ('i \<times> u64) list result \<Rightarrow> ('i, 'h) voter_env \<Rightarrow> ('i, 'h, 't, 'db) import_state \<Rightarrow> bool"
  for ft cl cd je gh gn ga where
  start: "load_persistent ft cl cd gh gn ga db0 = (Ok d, db) \<Longrightarrow>
    reachable_node ft cl cd je gh gn ga (initial_env d) (initial_state d db)"
| import: "reachable_node ft cl cd je gh gn ga env st \<Longrightarrow> fst ` set (ib_auxiliary block) \<inter> client_keys = {} \<Longrightarrow>
    import_block ft cl cd je api block cache st = Some (r, st') \<Longrightarrow> reachable_node ft cl cd je gh gn ga env st'"
| justify: "reachable_node ft cl cd je gh gn ga env st \<Longrightarrow>
    import_justification ft cl cd je hash number justification False st = Some (r, st') \<Longrightarrow> reachable_node ft cl cd je gh gn ga env st'"
| finalize: "reachable_node ft cl cd je gh gn ga env st \<Longrightarrow>
    env_finalize_block ft cl cd (je_hash je) (je_encode je) period hash number round commit st = Some (r, st') \<Longrightarrow>
    (\<forall>c. r \<noteq> Inl (IssuedCommand c)) \<Longrightarrow> reachable_node ft cl cd je gh gn ga env st'"
| handoff: "reachable_node ft cl cd je gh gn ga env st \<Longrightarrow>
    env_finalize_block ft cl cd (je_hash je) (je_encode je) period hash number round commit st = Some (Inl (IssuedCommand c), st1) \<Longrightarrow>
    handle_voter_command cl cd c env st1 = (Ok env', st') \<Longrightarrow> reachable_node ft cl cd je gh gn ga env' st'"
| command: "reachable_node ft cl cd je gh gn ga env st \<Longrightarrow> fs_commands st = c # cs \<Longrightarrow>
    handle_voter_command cl cd c env (st\<lparr>fs_commands := cs\<rparr>) = (Ok env', st') \<Longrightarrow> reachable_node ft cl cd je gh gn ga env' st'"
| completed: "reachable_node ft cl cd je gh gn ga env st \<Longrightarrow>
    env_completed cl cd round state st = (Ok (), st') \<Longrightarrow> reachable_node ft cl cd je gh gn ga env st'"

definition in_sync ::
  "('h, 'x, 'db, 'op, 'z) finality_client_scheme \<Rightarrow> ('i, 'h, 't) schema_codecs \<Rightarrow> 'h RoundState \<Rightarrow> ('i, 'h, 't, 'db, 'y) finality_state_scheme \<Rightarrow> bool" where
  "in_sync cl cd gr st \<longleftrightarrow> (\<exists>d. holds cl cd gr (fs_db st) d \<and> pd_authority_set d = fs_authority_set st)"

lemma in_syncI: "holds cl cd gr (fs_db st) d \<Longrightarrow> pd_authority_set d = fs_authority_set st \<Longrightarrow> in_sync cl cd gr st"
  by (auto simp: in_sync_def)

lemma in_sync_fields: "in_sync cl cd gr st \<Longrightarrow> fs_db st' = fs_db st \<Longrightarrow> fs_authority_set st' = fs_authority_set st \<Longrightarrow> in_sync cl cd gr st'"
  by (simp add: in_sync_def)

lemma in_sync_state_written:
  assumes "aux_store_ok cl" "schema_ok cd" "in_sync cl cd gr st" "write_voter_set_state cl cd vs (fs_db st) = (Ok (), db)"
    and "fs_db st' = db" "fs_authority_set st' = fs_authority_set st"
  shows "in_sync cl cd gr st'"
proof -
  obtain d where d: "holds cl cd gr (fs_db st) d" "pd_authority_set d = fs_authority_set st" using assms(3) by (auto simp: in_sync_def)
  have "insert_aux cl [(SET_STATE_KEY, enc (c_state cd) vs)] (fs_db st) = (Ok (), db)" using assms(4) by (simp add: write_voter_set_state_def)
  from holds_written [OF assms(2) d(1) written_insert [OF assms(1) this], where vs = vs] show ?thesis
    using d(2) assms(5,6) by (force simp: in_sync_def schema_keys)
qed

lemma finalize_in_sync:
  assumes ok: "client_ok cl aux_of" "fork_tree_ok ft" "schema_ok cd" and s: "in_sync cl cd gr st"
    and fin: "finalize_block ft cl cd hdhash encode period hash number joc st = Some (r, st')"
  shows "in_sync cl cd gr st'"
  using fin
proof (rule finalize_block_cases [OF ok(1)])
  fix e
  assume "fs_authority_set st' = fs_authority_set st" "fs_db st' = fs_db st"
  then show ?thesis using s by (simp add: in_sync_def)
next
  fix status alters new
  assume a: "apply_standard_changes ft hash number (descendent_query cl (fs_db st) None) (fs_authority_set st) = (Ok status, fs_authority_set st')"
    and n: "new = new_authorities_of status (fs_authority_set st')"
    and w: "written cl (pending_writes cd alters (fs_consensus_changes st') (changed status) (fs_authority_set st') new) (fs_db st) (fs_db st')"
  obtain d where d: "holds cl cd gr (fs_db st) d" "pd_authority_set d = fs_authority_set st" using s by (auto simp: in_sync_def)
  show ?thesis by (rule in_syncI [OF pending_writes_hold [OF ok(2,3) d a w n]]) simp
qed

lemma env_finalize_in_sync:
  assumes "client_ok cl aux_of" "fork_tree_ok ft" "schema_ok cd" "in_sync cl cd gr st"
    and fin: "env_finalize_block ft cl cd hdhash encode period hash number round commit st = Some (r, st')"
  shows "in_sync cl cd gr st'"
proof (cases "st' = st")
  case False
  then have "finalize_block ft cl cd hdhash encode (Some period) hash number (GivenCommit round commit) st = Some (r, st')"
    using fin by (auto simp: env_finalize_block_def split: sum.splits if_splits)
  then show ?thesis by (rule finalize_in_sync [OF assms(1-4)])
qed (use assms(4) in simp)

lemma send_fields [simp]:
  "fs_db (snd (unbounded_send c st)) = fs_db st" "fs_authority_set (snd (unbounded_send c st)) = fs_authority_set st"
  by (simp_all add: unbounded_send_def)

lemma import_justification_in_sync:
  assumes "client_ok cl aux_of" "fork_tree_ok ft" "schema_ok cd" "in_sync cl cd gr st"
    and i: "import_justification ft cl cd je hash number justification enacts st = Some (r, st')"
  shows "in_sync cl cd gr st'"
proof -
  let ?v = "decode_and_verify (je_decode je) (je_signing je) (je_hash je) justification (set_id (fs_authority_set st))
      (voter_set_from_iter (current_authorities (fs_authority_set st)))"
  obtain v where v: "?v = Some v" using i by (cases ?v) (simp_all add: import_justification_def)
  note i = i [unfolded import_justification_def v option.case]
  show ?thesis
  proof (cases v)
    case (Inl e)
    then show ?thesis using i assms(4) by simp
  next
    case (Inr just)
    let ?f = "finalize_block ft cl cd (je_hash je) (je_encode je) None hash number (GivenJustification just) st"
    obtain x st1 where f: "?f = Some (x, st1)" using i Inr by (cases ?f) auto
    note i = i [unfolded Inr sum.case f option.case prod.case]
    have "fs_db st' = fs_db st1 \<and> fs_authority_set st' = fs_authority_set st1"
    proof (cases "\<exists>c. x = Inl (IssuedCommand c)")
      case True
      then obtain c where "unbounded_send c st1 = (r, st')" using i by auto
      then show ?thesis using send_fields [of c st1] by simp
    next
      case False
      then have "st' = st1" using i by (auto split: sum.splits CommandOrError.splits if_splits)
      then show ?thesis by simp
    qed
    then show ?thesis using in_sync_fields [OF finalize_in_sync [OF assms(1-4) f]] by blast
  qed
qed

lemma justify_import_in_sync:
  assumes "client_ok cl aux_of" "fork_tree_ok ft" "schema_ok cd" "in_sync cl cd gr st"
    and i: "justify_import ft cl cd je hash number justification needs enacts aux st = Some (r, st')"
  shows "in_sync cl cd gr st'"
proof (cases "\<exists>j x. import_justification ft cl cd je hash number j needs st = Some (x, st')")
  case True
  then show ?thesis using import_justification_in_sync [OF assms(1-4)] by blast
next
  case False
  then have "fs_db st' = fs_db st" "fs_authority_set st' = fs_authority_set st"
    using i by (auto simp: justify_import_def try_justification_def split: option.splits sum.splits prod.splits if_splits)
  then show ?thesis by (rule in_sync_fields [OF assms(4)])
qed

text \<open>A block that is imported with its changes.\<close>

lemma imported_block_in_sync:
  assumes cl: "import_client_ok cl aux_of" and cd: "schema_ok cd" and s: "in_sync cl cd gr st"
    and keys: "fst ` set (ib_auxiliary block) \<inter> client_keys = {}"
    and m: "make_authorities_changes ft cl cd hdhash api block hash st = Some (Ok (p, block'), st1)"
    and i: "cl_import_block cl (block'\<lparr>ib_justification := None\<rparr>) cache (fs_db st1) = (Ok (Imported aux), db)"
  shows "in_sync cl cd gr (st1\<lparr>fs_db := db\<rparr>)"
proof -
  obtain d where d: "holds cl cd gr (fs_db st) d" "pd_authority_set d = fs_authority_set st" using s by (auto simp: in_sync_def)
  note spec = make_authorities_changes_spec(2) [OF m refl]
  obtain a where "st1 = st\<lparr>fs_authority_set := a\<rparr>" using spec by blast
  then have db: "fs_db st1 = fs_db st" by simp
  note get = import_client_okD(2) [OF cl i]
  have none: "map_of (rev (ib_auxiliary block)) k = None" if "k \<in> client_keys" for k
    using keys that by (auto simp: map_of_eq_None_iff)
  show ?thesis
  proof (cases "just_in_case p")
    case None
    then have "written cl Map.empty (fs_db st) db" using get none spec db by (auto simp: written_def)
    from holds_written [OF cd d(1) this] d(2) spec None show ?thesis by (auto simp: in_sync_def)
  next
    case (Some old)
    define new where "new = (case applied_changes p of Forced new \<Rightarrow> Some new | _ \<Rightarrow> None)"
    define kvs where "kvs = (AUTHORITY_SET_KEY, enc (c_set cd) (fs_authority_set st1)) # (case new of None \<Rightarrow> []
        | Some n \<Rightarrow> [(SET_STATE_KEY, enc (c_state cd) (Live 0 (state_genesis (na_canon_hash n, na_canon_number n))))])"
    have b: "ib_auxiliary block' = ib_auxiliary block @ map (\<lambda>(k, v). (k, Some v)) kvs"
      using spec Some unfolding new_def [symmetric] by (simp add: update_authority_set_pairs kvs_def)
    have r: "map_of (rev (map (\<lambda>(k, v). (k, Some v)) kvs)) k = map_option Some (map_of kvs k)" for k
      by (auto simp: kvs_def schema_keys split: option.split)
    have "get_aux cl k db = (case map_of kvs k of Some v \<Rightarrow> Ok (Some v) | None \<Rightarrow> get_aux cl k (fs_db st))" if "k \<in> client_keys" for k
      using get [of k] none [OF that] r [of k] by (cases "map_of kvs k") (simp_all add: b map_add_def db)
    then have w: "written cl (map_of kvs) (fs_db st) db" by (simp add: written_def)
    let ?vs = "case new of None \<Rightarrow> pd_set_state d | Some n \<Rightarrow> Live 0 (state_genesis (na_canon_hash n, na_canon_number n))"
    have k: "map_of kvs VERSION_KEY = None" "map_of kvs AUTHORITY_SET_KEY \<in> {None, Some (enc (c_set cd) (fs_authority_set st1))}"
      "map_of kvs CONSENSUS_CHANGES_KEY \<in> {None, Some (enc (c_changes cd) (pd_consensus_changes d))}"
      "map_of kvs SET_STATE_KEY \<in> {None, Some (enc (c_state cd) ?vs)}"
      by (simp_all add: kvs_def schema_keys split: option.split)
    have "map_of kvs AUTHORITY_SET_KEY \<noteq> None" by (simp add: kvs_def)
    then show ?thesis by (intro in_syncI [where st = "st1\<lparr>fs_db := db\<rparr>", simplified, OF holds_written [OF cd d(1) w k]]) auto
  qed
qed

lemma import_block_in_sync:
  assumes cl: "import_client_ok cl aux_of" and ft: "fork_tree_ok ft" and cd: "schema_ok cd" and s: "in_sync cl cd gr st"
    and keys: "fst ` set (ib_auxiliary block) \<inter> client_keys = {}"
    and i: "import_block ft cl cd je api block cache st = Some (r, st')"
  shows "in_sync cl cd gr st'"
proof (cases "\<exists>aux. r = Ok (Imported aux)")
  case False
  then have "st' = st" by (intro import_block_reverts [OF cl i]) blast
  then show ?thesis using s by simp
next
  case True
  note client = import_client_okD(1) [OF cl]
  have u: "cl_status cl (fs_db st) (ib_post_hash block) = Ok UnknownBlock"
    using i True by (auto simp: import_block_def Let_def split: sum.splits BlockStatus.splits)
  obtain m st1 where m: "make_authorities_changes ft cl cd (je_hash je) api block (ib_post_hash block) st = Some (m, st1)"
    using i u by (auto simp: import_block_def Let_def split: option.splits)
  note i = i [unfolded import_block_def Let_def u sum.case BlockStatus.case m option.case prod.case]
  obtain p b where pb: "m = Ok (p, b)" using i True by (cases m) auto
  obtain x db where x: "cl_import_block cl (b\<lparr>ib_justification := None\<rparr>) cache (fs_db st1) = (x, db)"
    by (cases "cl_import_block cl (b\<lparr>ib_justification := None\<rparr>) cache (fs_db st1)") simp
  note i = i [unfolded pb sum.case prod.case x]
  obtain aux where aux: "x = Ok (Imported aux)" using i True by (auto split: sum.splits ImportResult.splits)
  note i = i [unfolded aux sum.case ImportResult.case]
  define st2 where "st2 = (if do_pause p then snd (unbounded_send (Pause ''Forced change scheduled after inactivity'') (st1\<lparr>fs_db := db\<rparr>))
      else st1\<lparr>fs_db := db\<rparr>)"
  define st3 where "st3 = (case applied_changes p of Forced new \<Rightarrow> snd (unbounded_send (ChangeAuthorities new) st2) | _ \<Rightarrow> st2)"
  have "in_sync cl cd gr (st1\<lparr>fs_db := db\<rparr>)" by (rule imported_block_in_sync [OF cl cd s keys m [unfolded pb] x [unfolded aux]])
  then have s3: "in_sync cl cd gr st3"
    by (rule in_sync_fields) (simp_all add: st3_def st2_def split: AppliedChanges.split)
  note i = i [folded st2_def, folded st3_def]
  show ?thesis
  proof (cases "st' = st3")
    case False
    then obtain j needs enacts aux' where "justify_import ft cl cd je (ib_post_hash block) (hd_number (ib_header block)) j needs enacts aux' st3 = Some (r, st')"
      using i by (auto split: if_splits)
    then show ?thesis by (rule justify_import_in_sync [OF client ft cd s3])
  qed (use s3 in simp)
qed

lemma handle_in_sync:
  assumes ok: "client_ok cl aux_of" "schema_ok cd" and s: "in_sync cl cd gr st" and h: "handle_voter_command cl cd c env st = (Ok env', st')"
  shows "in_sync cl cd gr st'"
proof (cases c)
  case (Pause reason)
  let ?vs = "Paused (fst (fs_last_completed st)) (snd (fs_last_completed st))"
  obtain db where db: "write_voter_set_state cl cd ?vs (fs_db st) = (Ok (), db)" "st' = st\<lparr>fs_db := db\<rparr>"
    using h Pause by (auto simp: Let_def split: prod.splits sum.splits)
  show ?thesis by (rule in_sync_state_written [OF client_okD(1) [OF ok(1)] ok(2) s db(1)]) (simp_all add: db(2))
next
  case (ChangeAuthorities new)
  then show ?thesis using h s by (auto simp: in_sync_def Let_def)
qed

lemma reachable_in_sync:
  assumes cl: "import_client_ok cl aux_of" and ft: "fork_tree_ok ft" and cd: "schema_ok cd"
  shows "reachable_node ft cl cd je gh gn ga env st \<Longrightarrow> in_sync cl cd (state_genesis (gh, gn)) st"
proof (induction rule: reachable_node.induct)
  note client = import_client_okD(1) [OF cl] and store = client_okD(1) [OF import_client_okD(1) [OF cl]]
  {
    case (start db0 d db)
    show ?case by (rule in_syncI [where d = d]) (simp_all add: initial_state_def load_holds [OF store cd start])
  next
    case import
    show ?case by (rule import_block_in_sync [OF cl ft cd import.IH import.hyps(2,3)])
  next
    case justify
    show ?case by (rule import_justification_in_sync [OF client ft cd justify.IH justify.hyps(2)])
  next
    case finalize
    show ?case by (rule env_finalize_in_sync [OF client ft cd finalize.IH finalize.hyps(2)])
  next
    case handoff
    show ?case by (rule handle_in_sync [OF client cd env_finalize_in_sync [OF client ft cd handoff.IH handoff.hyps(2)] handoff.hyps(3)])
  next
    case (command env st c cs env' st')
    have "in_sync cl cd (state_genesis (gh, gn)) (st\<lparr>fs_commands := cs\<rparr>)" by (rule in_sync_fields [OF command.IH]) simp_all
    then show ?case by (rule handle_in_sync [OF client cd _ command.hyps(3)])
  next
    case (completed env st round state st')
    then obtain db where db: "write_voter_set_state cl cd (Live round state) (fs_db st) = (Ok (), db)"
      "st' = st\<lparr>fs_db := db, fs_last_completed := (round, state)\<rparr>"
      by (auto simp: env_completed_def split: prod.splits sum.splits)
    show ?case by (rule in_sync_state_written [OF store cd completed.IH db(1)]) (simp_all add: db(2))
  }
qed

text \<open>
  C32: a restart never changes the authorities. Whatever blocks and justifications a node imports, whatever it finalizes, whether these
  steps succeed or fail, and whatever commands its voter handles, at every moment the database loads, without being changed, with
  exactly the authority set that the node has in memory, the pending changes included.
\<close>

theorem authority_set_persisted:
  assumes "import_client_ok cl aux_of" "fork_tree_ok ft" "schema_ok cd" and r: "reachable_node ft cl cd je gh gn ga env st"
  shows "\<exists>changes state. load_persistent ft cl cd gh gn ga (fs_db st) =
     (Ok \<lparr>pd_authority_set = fs_authority_set st, pd_consensus_changes = changes, pd_set_state = state\<rparr>, fs_db st)"
proof -
  obtain d where "holds cl cd (state_genesis (gh, gn)) (fs_db st) d" "pd_authority_set d = fs_authority_set st"
    using reachable_in_sync [OF assms(1-3) r] by (auto simp: in_sync_def)
  then show ?thesis using holds_loads [of cl cd gh gn "fs_db st" d ft ga] by (cases d) auto
qed

lemma chain_client_loads:
  "load_persistent list_tree chain_client list_schema 0 0 (Ok []) (fs_db pending_state) =
     (Ok \<lparr>pd_authority_set = pending_set, pd_consensus_changes = \<lparr>cc_pending_changes = [(1, 1)]\<rparr>,
       pd_set_state = Live 0 (state_genesis (0, 0))\<rparr>, fs_db pending_state)"
  by (simp add: load_persistent_def load_v1_state_def load_decode_def pending_state_def chain_client_select map_client_def list_schema_def codecs_ok
      codec_ok_le schema_keys Let_def)

theorem authority_set_persisted_witness:
  "\<exists>env st. reachable_node list_tree chain_client list_schema example_env 0 0 (Ok []) env st
     \<and> map canon_hash (pending_forced_changes (fs_authority_set st)) = [9]
     \<and> (\<exists>changes state. load_persistent list_tree chain_client list_schema 0 0 (Ok []) (fs_db st) =
          (Ok \<lparr>pd_authority_set = fs_authority_set st, pd_consensus_changes = changes, pd_set_state = state\<rparr>, fs_db st))"
proof -
  let ?block = "\<lparr>ib_header = \<lparr>hd_number = 9, hd_parent_hash = 8, hd_rest = ()\<rparr>, ib_post_hash = 9, ib_justification = None, ib_auxiliary = []\<rparr>"
  let ?d = "\<lparr>pd_authority_set = pending_set, pd_consensus_changes = \<lparr>cc_pending_changes = [(1, 1)]\<rparr>, pd_set_state = Live 0 (state_genesis (0, 0))\<rparr>"
  let ?st = "initial_state ?d (fs_db pending_state)"
  note start = reachable_node.start [OF chain_client_loads, of example_env]
  have "map_option (\<lambda>(r, st). map canon_hash (pending_forced_changes (fs_authority_set st)))
      (import_block list_tree chain_client list_schema example_env forcing_api ?block [] ?st) = Some [9]"
    by (simp add: import_block_def Let_def make_authorities_changes_def check_new_change_def forcing_api_def example_env_def initial_state_def
        pending_set_def add_pending_change_def add_forced_change_def apply_changes_def apply_forced_changes_def enacts_standard_change_def
        list_tree_def insert_at_def binary_search_by_key_def search_index_def effective_number_def chain_client_defs
        update_authority_set_def pending_state_def unbounded_send_def)
  then obtain r st where i: "import_block list_tree chain_client list_schema example_env forcing_api ?block [] ?st = Some (r, st)"
    "map canon_hash (pending_forced_changes (fs_authority_set st)) = [9]" by auto
  have reach: "reachable_node list_tree chain_client list_schema example_env 0 0 (Ok []) (initial_env ?d) st"
    by (rule reachable_node.import [OF start _ i(1)]) simp
  show ?thesis
    by (rule exI, rule exI, intro conjI, rule reach, rule i(2))
      (rule authority_set_persisted [OF chain_client_ok list_tree_ok list_schema_ok reach])
qed

end
