(* ===== verification/Voting_Round.thy ===== *)
theory Voting_Round
  imports Round_Commit
begin

text \<open>
  A voter's work on one round, \<open>VotingRound\<close> of \<open>core/finality-grandpa/src/voter.rs\<close>, with its buffered output
  and the round state bridged to the next round (\<open>bridge_state.rs\<close>). A poll is a function of the state and of what the
  streams, the timers and the sink answer while it runs. The lemmas show when a round casts its votes, that it casts each of them once,
  and that what it reports as finalized has a supermajority.
\<close>

section \<open>Buffered sinks\<close>

text \<open>
  What a sink accepted is a list, \<open>sent\<close>. The sink answers every \<open>start_send\<close>; when the answers end, it is not ready.
\<close>

datatype AsyncSink = SinkReady | SinkNotReady | SinkErr

fun schedule_all :: "AsyncSink list \<Rightarrow> 'm list \<Rightarrow> 'm list \<Rightarrow> (unit + bool) \<times> 'm list \<times> 'm list" where
  "schedule_all answers [] sent = (Inr True, [], sent)"
| "schedule_all (SinkReady # answers) (front # buffer) sent = schedule_all answers buffer (sent @ [front])"
| "schedule_all (SinkErr # answers) (front # buffer) sent = (Inl (), buffer, sent)"
| "schedule_all answers (front # buffer) sent = (Inr False, front # buffer, sent)"

definition buffered_poll ::
  "AsyncSink list \<Rightarrow> unit + bool \<Rightarrow> 'm list \<Rightarrow> 'm list \<Rightarrow> (unit + bool) \<times> 'm list \<times> 'm list" where
  "buffered_poll answers poll_complete buffer sent =
     (case schedule_all answers buffer sent of
        (Inl e, buffer, sent) \<Rightarrow> (Inl e, buffer, sent)
      | (Inr True, buffer, sent) \<Rightarrow> (poll_complete, buffer, sent)
      | (Inr False, buffer, sent) \<Rightarrow>
          ((case poll_complete of Inl e \<Rightarrow> Inl e | Inr _ \<Rightarrow> Inr False), buffer, sent))"

section \<open>The state of a voting round\<close>

text \<open>The timers of the source's states are answers of a poll.\<close>

datatype voting_state = Start | Prevoted | Precommitted

record ('i, 'h, 's) SignedMessage =
  sm_message :: "'h Message"
  sm_signature :: "'s list"
  sm_id :: "'i list"

text \<open>
  Round states are bridged through shared cells, and finality notifications go through a channel, which all
  rounds of a voter share: cells are numbered, and \<open>sh_sent\<close> has the messages that the sinks of the rounds accepted, with their
  round numbers.
\<close>

record ('i, 'h, 's) shared =
  sh_bridged :: "'h RoundState list"
  sh_notifications :: "('h \<times> u64 \<times> u64 \<times> ('h, 's, 'i) Commit) list"
  sh_sent :: "(u64 \<times> 'h Message) list"

record ('i, 'h, 's) VotingRound =
  vr_votes :: "('i, 'h, 's) Round"
  vr_outgoing :: "'h Message list"
  vr_state :: "voting_state option"
  vr_bridged_round_state :: "nat option"
  vr_last_round_state :: "nat option"
  vr_primary_block :: "('h \<times> u64) option"
  vr_best_finalized :: "('h, 's, 'i) Commit option"

definition voting_round_new ::
  "u64 \<Rightarrow> 'i VoterSet \<Rightarrow> 'h \<times> u64 \<Rightarrow> nat option \<Rightarrow> ('i, 'h, 's) VotingRound" where
  "voting_round_new round_number voters base last_round_state =
     \<lparr>vr_votes = round_new \<lparr>rp_round_number = round_number, rp_voters = voters, rp_base = base\<rparr>,
      vr_outgoing = [], vr_state = Some Start, vr_bridged_round_state = None,
      vr_last_round_state = last_round_state, vr_primary_block = None, vr_best_finalized = None\<rparr>"

text \<open>The chain as a round sees it.\<close>

record 'h Chain =
  ch_ancestry :: "'h \<Rightarrow> 'h \<Rightarrow> 'h list option"
  ch_best_chain_containing :: "'h \<Rightarrow> ('h \<times> u64) option"

text \<open>
  The answers of one poll: the messages of the two runs of \<open>process_incoming\<close> (\<open>Inl\<close> is an error of the stream), the two
  timers, and the sink.
\<close>

record ('i, 'h, 's) poll_input =
  pi_incoming :: "(unit + ('i, 'h, 's) SignedMessage) list"
  pi_incoming_local :: "(unit + ('i, 'h, 's) SignedMessage) list"
  pi_prevote_timer :: "unit + bool"
  pi_precommit_timer :: "unit + bool"
  pi_start_send :: "AsyncSink list"
  pi_poll_complete :: "unit + bool"

section \<open>Operations\<close>

text \<open>One vote is imported for each signature; a missing id is a panic.\<close>

fun import_each ::
  "('i \<Rightarrow> 's \<Rightarrow> ('i, 'h, 's) Round \<Rightarrow> ('i, 'h, 's, 'v) import_result) \<Rightarrow> 'i list \<Rightarrow> 's list \<Rightarrow> ('i, 'h, 's) Round
     \<Rightarrow> ((unit + unit) \<times> ('i, 'h, 's) Round) option" where
  "import_each imp ids [] r = Some (Inr (), r)"
| "import_each imp [] (s # sigs) r = None"
| "import_each imp (i # ids) (s # sigs) r =
     (case imp i s r of
        None \<Rightarrow> None
      | Some (Inl e, r) \<Rightarrow> Some (Inl e, r)
      | Some (Inr equivocation, r) \<Rightarrow> import_each imp ids sigs r)"

fun process_incoming ::
  "('h \<Rightarrow> 'h \<Rightarrow> 'h list option) \<Rightarrow> (unit + ('i, 'h::linorder, 's) SignedMessage) list \<Rightarrow> ('i, 'h, 's) Round
     \<Rightarrow> ((unit + unit) \<times> ('i, 'h, 's) Round) option" where
  "process_incoming anc [] votes = Some (Inr (), votes)"
| "process_incoming anc (Inl e # incoming) votes = Some (Inl e, votes)"
| "process_incoming anc (Inr m # incoming) votes =
     (if \<not> is_equal_or_descendent_of anc (fst (graph_base (rd_graph votes))) (fst (message_target (sm_message m)))
      then process_incoming anc incoming votes
      else (case (case sm_message m of
                    PrevoteMsg prevote \<Rightarrow> import_each (import_prevote anc prevote) (sm_id m) (sm_signature m) votes
                  | PrecommitMsg precommit \<Rightarrow> import_each (import_precommit anc precommit) (sm_id m) (sm_signature m) votes) of
              None \<Rightarrow> None
            | Some (Inl e, votes) \<Rightarrow> Some (Inl e, votes)
            | Some (Inr _, votes) \<Rightarrow> process_incoming anc incoming votes))"

definition find_descendent_of ::
  "('h \<Rightarrow> 'h \<Rightarrow> 'h list option) \<Rightarrow> ('h \<times> u64) option \<Rightarrow> 'h RoundState \<Rightarrow> 'h option" where
  "find_descendent_of anc primary last_round_state =
     (case st_estimate last_round_state of
        None \<Rightarrow> None
      | Some last_round_estimate \<Rightarrow>
          (case primary of
             None \<Rightarrow> Some (fst last_round_estimate)
           | Some primary_block \<Rightarrow>
               (case st_prevote_ghost last_round_state of
                  None \<Rightarrow> None
                | Some last_prevote_g \<Rightarrow>
                    if primary_block = last_prevote_g then Some (fst primary_block)
                    else if snd last_prevote_g \<le> snd primary_block then Some (fst last_round_estimate)
                    else (case anc (fst last_round_estimate) (fst last_prevote_g) of
                            None \<Rightarrow> Some (fst last_round_estimate)
                          | Some ancestry_list \<Rightarrow>
                              let to_sub = snd primary_block + 1;
                                  offset = (if snd last_prevote_g < to_sub then 0 else unat (snd last_prevote_g - to_sub))
                              in if offset < length ancestry_list \<and> ancestry_list ! offset = fst primary_block
                                 then Some (fst primary_block) else Some (fst last_round_estimate)))))"

definition construct_prevote ::
  "'h Chain \<Rightarrow> 'h RoundState \<Rightarrow> ('i, 'h, 's) VotingRound \<Rightarrow> 'h Prevote option option" where
  "construct_prevote chain last_round_state vr =
     map_option (\<lambda>h. map_option (\<lambda>t. \<lparr>pv_target_hash = fst t, pv_target_number = snd t\<rparr>) (ch_best_chain_containing chain h))
       (find_descendent_of (ch_ancestry chain) (vr_primary_block vr) last_round_state)"

definition construct_precommit :: "('i, 'h, 's) VotingRound \<Rightarrow> 'h Precommit" where
  "construct_precommit vr =
     (let t = (case st_prevote_ghost (round_state (vr_votes vr)) of
                 Some target \<Rightarrow> target | None \<Rightarrow> graph_base (rd_graph (vr_votes vr)))
      in \<lparr>pc_target_hash = fst t, pc_target_number = snd t\<rparr>)"

text \<open>The state is taken out before the timer is asked: an error of the timer leaves none.\<close>

definition cast_prevote ::
  "'h Chain \<Rightarrow> unit + bool \<Rightarrow> 'h RoundState \<Rightarrow> ('i, 'h, 's) VotingRound
     \<Rightarrow> ((unit + unit) \<times> ('i, 'h, 's) VotingRound) option" where
  "cast_prevote chain prevote_timer last_round_state vr =
     (case vr_state vr of
        Some Start \<Rightarrow>
          (case prevote_timer of
             Inl e \<Rightarrow> Some (Inl e, vr\<lparr>vr_state := None\<rparr>)
           | Inr ready \<Rightarrow>
               if ready \<or> rd_completable (vr_votes vr)
               then (case construct_prevote chain last_round_state vr of
                       None \<Rightarrow> None
                     | Some None \<Rightarrow> Some (Inr (), vr\<lparr>vr_state := Some Prevoted\<rparr>)
                     | Some (Some prevote) \<Rightarrow>
                         Some (Inr (), vr\<lparr>vr_outgoing := vr_outgoing vr @ [PrevoteMsg prevote], vr_state := Some Prevoted\<rparr>))
               else Some (Inr (), vr))
      | _ \<Rightarrow> Some (Inr (), vr))"

definition cast_precommit ::
  "'h Chain \<Rightarrow> unit + bool \<Rightarrow> 'h RoundState \<Rightarrow> ('i, 'h, 's) VotingRound
     \<Rightarrow> ((unit + unit) \<times> ('i, 'h, 's) VotingRound) option" where
  "cast_precommit chain precommit_timer last_round_state vr =
     (case vr_state vr of
        Some Prevoted \<Rightarrow>
          (case st_estimate last_round_state of
             None \<Rightarrow> None
           | Some last_round_estimate \<Rightarrow>
               if \<not> (case st_prevote_ghost (round_state (vr_votes vr)) of
                        None \<Rightarrow> False
                      | Some p_g \<Rightarrow> p_g = last_round_estimate
                          \<or> is_equal_or_descendent_of (ch_ancestry chain) (fst last_round_estimate) (fst p_g))
               then Some (Inr (), vr)
               else (case precommit_timer of
                       Inl e \<Rightarrow> Some (Inl e, vr\<lparr>vr_state := None\<rparr>)
                     | Inr ready \<Rightarrow>
                         if ready \<or> rd_completable (vr_votes vr)
                         then Some (Inr (), vr\<lparr>vr_outgoing := vr_outgoing vr @ [PrecommitMsg (construct_precommit vr)],
                                               vr_state := Some Precommitted\<rparr>)
                         else Some (Inr (), vr)))
      | _ \<Rightarrow> Some (Inr (), vr))"

definition notify ::
  "('h \<Rightarrow> 'h \<Rightarrow> 'h list option) \<Rightarrow> 'h RoundState \<Rightarrow> 'h RoundState \<Rightarrow> ('i, 'h, 's) VotingRound \<Rightarrow> ('i, 'h, 's) shared
     \<Rightarrow> (('i, 'h, 's) VotingRound \<times> ('i, 'h, 's) shared) option" where
  "notify anc last_state new_state vr sh =
     (if last_state = new_state then Some (vr, sh)
      else (let sh = (case vr_bridged_round_state vr of
                        None \<Rightarrow> sh
                      | Some b \<Rightarrow> sh\<lparr>sh_bridged := (sh_bridged sh)[b := new_state]\<rparr>)
            in if st_finalized last_state \<noteq> st_finalized new_state \<and> st_completable new_state
               then (case (vr_state vr, st_finalized new_state) of
                       (Some Precommitted, Some (f_hash, f_number)) \<Rightarrow>
                         (case finalizing_precommits anc (vr_votes vr) of
                            None \<Rightarrow> None
                          | Some precommits \<Rightarrow>
                              let commit = \<lparr>cm_target_hash = f_hash, cm_target_number = f_number, cm_precommits = precommits\<rparr>
                              in Some (vr\<lparr>vr_best_finalized := Some commit\<rparr>,
                                   sh\<lparr>sh_notifications := sh_notifications sh
                                        @ [(f_hash, f_number, rd_round_number (vr_votes vr), commit)]\<rparr>))
                     | _ \<Rightarrow> Some (vr, sh))
               else Some (vr, sh)))"

text \<open>The votes are cast only when the state of the last round is known.\<close>

definition cast_votes ::
  "'h Chain \<Rightarrow> ('i, 'h, 's) poll_input \<Rightarrow> ('i, 'h, 's) shared \<Rightarrow> ('i, 'h, 's) VotingRound
     \<Rightarrow> ((unit + unit) \<times> ('i, 'h, 's) VotingRound) option" where
  "cast_votes chain inp sh vr =
     (case vr_last_round_state vr of
        None \<Rightarrow> Some (Inr (), vr)
      | Some b \<Rightarrow>
          (case cast_prevote chain (pi_prevote_timer inp) (sh_bridged sh ! b) vr of
             None \<Rightarrow> None
           | Some (Inl e, vr) \<Rightarrow> Some (Inl e, vr)
           | Some (Inr _, vr) \<Rightarrow> cast_precommit chain (pi_precommit_timer inp) (sh_bridged sh ! b) vr))"

text \<open>The second half of a poll, once the output is flushed.\<close>

definition finish_poll ::
  "('h \<Rightarrow> 'h \<Rightarrow> 'h list option) \<Rightarrow> (unit + ('i, 'h::linorder, 's) SignedMessage) list \<Rightarrow> 'h RoundState
     \<Rightarrow> ('i, 'h, 's) VotingRound \<Rightarrow> ('i, 'h, 's) shared
     \<Rightarrow> ((unit + bool) \<times> ('i, 'h, 's) VotingRound \<times> ('i, 'h, 's) shared) option" where
  "finish_poll anc incoming pre_state vr sh =
     (case process_incoming anc incoming (vr_votes vr) of
        None \<Rightarrow> None
      | Some (Inl e, votes) \<Rightarrow> Some (Inl e, vr\<lparr>vr_votes := votes\<rparr>, sh)
      | Some (Inr _, votes) \<Rightarrow>
          map_option (\<lambda>(vr, sh). (Inr (rd_completable (vr_votes vr)), vr, sh))
            (notify anc pre_state (round_state votes) (vr\<lparr>vr_votes := votes\<rparr>) sh))"

definition voting_round_poll ::
  "'h Chain \<Rightarrow> ('i, 'h::linorder, 's) poll_input \<Rightarrow> ('i, 'h, 's) VotingRound \<Rightarrow> ('i, 'h, 's) shared
     \<Rightarrow> ((unit + bool) \<times> ('i, 'h, 's) VotingRound \<times> ('i, 'h, 's) shared) option" where
  "voting_round_poll chain inp vr sh =
     (let anc = ch_ancestry chain; pre_state = round_state (vr_votes vr)
      in case process_incoming anc (pi_incoming inp) (vr_votes vr) of
           None \<Rightarrow> None
         | Some (Inl e, votes) \<Rightarrow> Some (Inl e, vr\<lparr>vr_votes := votes\<rparr>, sh)
         | Some (Inr _, votes) \<Rightarrow>
             (case cast_votes chain inp sh (vr\<lparr>vr_votes := votes\<rparr>) of
                None \<Rightarrow> None
              | Some (Inl e, vr) \<Rightarrow> Some (Inl e, vr, sh)
              | Some (Inr _, vr) \<Rightarrow>
                  (case buffered_poll (pi_start_send inp) (pi_poll_complete inp)
                          (map (\<lambda>m. (rd_round_number (vr_votes vr), m)) (vr_outgoing vr)) (sh_sent sh) of
                     (res, buffer, sent) \<Rightarrow>
                       let vr = vr\<lparr>vr_outgoing := map snd buffer\<rparr>; sh = sh\<lparr>sh_sent := sent\<rparr>
                       in case res of
                            Inl e \<Rightarrow> Some (Inl e, vr, sh)
                          | Inr False \<Rightarrow> Some (Inr False, vr, sh)
                          | Inr True \<Rightarrow> finish_poll anc (pi_incoming_local inp) pre_state vr sh)))"

definition bridge_state ::
  "('i, 'h, 's) VotingRound \<Rightarrow> ('i, 'h, 's) shared \<Rightarrow> nat \<times> ('i, 'h, 's) VotingRound \<times> ('i, 'h, 's) shared" where
  "bridge_state vr sh =
     (let b = length (sh_bridged sh)
      in (b, vr\<lparr>vr_bridged_round_state := Some b\<rparr>, sh\<lparr>sh_bridged := sh_bridged sh @ [round_state (vr_votes vr)]\<rparr>))"

section \<open>The votes of a round\<close>

lemma graph_insert_base:
  "graph_insert add zero anc h n v g = Some (Inr g') \<Longrightarrow> graph_base g' = graph_base g"
  by (auto simp: graph_insert_def append_node_def introduce_branch_def graph_base_def Let_def
      split: option.splits sum.splits list.splits if_splits)

lemma update_base:
  "update_prevote_ghost r = Some r' \<Longrightarrow> rd_graph r' = rd_graph r"
  "round_update r = Some r' \<Longrightarrow> rd_graph r' = rd_graph r"
  by (auto simp: update_prevote_ghost_def round_update_def update_finalized_def update_estimate_def update_completable_def
      split: if_splits option.splits)

text \<open>A round whose state is right: its invariant, its voters and the number of its base.\<close>

definition round_good :: "('h \<rightharpoonup> 'h) \<Rightarrow> ('h \<Rightarrow> u64) \<Rightarrow> 'i VoterSet \<Rightarrow> ('i, 'h, 's) Round \<Rightarrow> bool" where
  "round_good par number voters r \<longleftrightarrow> round_inv par number r \<and> ghost_ok par r \<and> rd_voters r = voters
     \<and> graph_base (rd_graph r) = (round_base r, number (round_base r))"

definition same_round :: "('i, 'h, 's) Round \<Rightarrow> ('i, 'h, 's) Round \<Rightarrow> bool" where
  "same_round r r' \<longleftrightarrow> rd_round_number r' = rd_round_number r \<and> round_base r' = round_base r"

lemma same_round_refl [simp]: "same_round r r"
  by (simp add: same_round_def)

lemma same_round_trans: "same_round r1 r2 \<Longrightarrow> same_round r2 r3 \<Longrightarrow> same_round r1 r3"
  by (simp add: same_round_def)

lemma round_good_new:
  assumes "voters_ok voters"
  shows "round_good par number voters (round_new \<lparr>rp_round_number = n, rp_voters = voters, rp_base = (b, number b)\<rparr>)"
proof -
  let ?p = "\<lparr>rp_round_number = n, rp_voters = voters, rp_base = (b, number b)\<rparr>"
  have "round_inv par number (round_new ?p)" by (rule round_new_inv [where base = b]) (simp_all add: assms)
  moreover have "ghost_ok par (round_new ?p)" by (rule ghost_ok_new) (simp add: assms)
  moreover have "graph_base (rd_graph (round_new ?p)) = (b, number b)" by (simp add: round_new_def graph_new_def graph_base_def Let_def)
  ultimately show ?thesis by (simp add: round_good_def round_new_fields)
qed

lemma import_prevote_base: "import_prevote anc v i s r = Some (res, r') \<Longrightarrow> graph_base (rd_graph r') = graph_base (rd_graph r)"
  by (auto simp: import_prevote_def Let_def graph_insert_base update_base split: option.splits prod.splits sum.splits VoteMultiplicity.splits)

lemma import_precommit_base: "import_precommit anc v i s r = Some (res, r') \<Longrightarrow> graph_base (rd_graph r') = graph_base (rd_graph r)"
  by (auto simp: import_precommit_def Let_def graph_insert_base update_base split: option.splits prod.splits sum.splits VoteMultiplicity.splits)

lemma import_prevote_good:
  assumes chain: "block_chain par number anc" and good: "round_good par number voters r"
    and n: "pv_target_number v = number (pv_target_hash v)"
  shows "\<exists>res r'. import_prevote anc v i s r = Some (res, r') \<and> round_good par number voters r' \<and> same_round r r'"
proof -
  obtain r' where r': "import_prevote anc v i s r = Some (vote_result par pv_target_hash r (rd_prevote r) i v s, r')"
    "round_inv par number r'" "kept r r'" "ghost_ok par r'"
    using import_prevote_spec [OF chain _ n, of r i s] good by (auto simp: round_good_def)
  then show ?thesis using good import_prevote_base [OF r'(1)] by (simp add: round_good_def same_round_def kept_def)
qed

lemma import_precommit_good:
  assumes chain: "block_chain par number anc" and good: "round_good par number voters r"
    and n: "pc_target_number v = number (pc_target_hash v)"
  shows "\<exists>res r'. import_precommit anc v i s r = Some (res, r') \<and> round_good par number voters r' \<and> same_round r r'"
proof -
  obtain r' where r': "import_precommit anc v i s r = Some (vote_result par pc_target_hash r (rd_precommit r) i v s, r')"
    "round_inv par number r'" "kept r r'" "ghost_ok par r'"
    using import_precommit_spec [OF chain _ n, of r i s] good by (auto simp: round_good_def)
  then show ?thesis using good import_precommit_base [OF r'(1)] by (simp add: round_good_def same_round_def kept_def)
qed

lemma import_each_returns:
  assumes "\<And>i s r. P r \<Longrightarrow> \<exists>res r'. imp i s r = Some (res, r') \<and> P r'"
  shows "P r \<Longrightarrow> length sigs \<le> length ids \<Longrightarrow> \<exists>res r'. import_each imp ids sigs r = Some (res, r') \<and> P r'"
proof (induction sigs arbitrary: ids r)
  case (Cons s sigs)
  obtain i ids' where ids: "ids = i # ids'" using Cons.prems(2) by (cases ids) auto
  obtain res r' where "imp i s r = Some (res, r')" "P r'" using assms [OF Cons.prems(1)] by blast
  then show ?case using Cons ids by (cases res) auto
qed auto

text \<open>
  What the input stream promises: its messages are of known blocks, with the numbers these have, and come with an
  id for each signature.
\<close>

definition incoming_ok :: "('h \<Rightarrow> u64) \<Rightarrow> (unit + ('i, 'h, 's) SignedMessage) list \<Rightarrow> bool" where
  "incoming_ok number incoming \<longleftrightarrow> (\<forall>m. Inr m \<in> set incoming \<longrightarrow>
     snd (message_target (sm_message m)) = number (fst (message_target (sm_message m)))
     \<and> length (sm_signature m) \<le> length (sm_id m))"

lemma process_incoming_returns:
  assumes chain: "block_chain par number anc" and good: "round_good par number voters r" and ok: "incoming_ok number incoming"
  shows "\<exists>res r'. process_incoming anc incoming r = Some (res, r') \<and> round_good par number voters r' \<and> same_round r r'"
  using good ok
proof (induction incoming arbitrary: r)
  case (Cons x incoming)
  have ok: "incoming_ok number incoming" using Cons.prems(2) by (simp add: incoming_ok_def)
  show ?case
  proof (cases x)
    case (Inl e)
    then show ?thesis using Cons.prems(1) by simp
  next
    case (Inr m)
    let ?P = "\<lambda>r1. round_good par number voters r1 \<and> same_round r r1"
    have m: "snd (message_target (sm_message m)) = number (fst (message_target (sm_message m)))"
      "length (sm_signature m) \<le> length (sm_id m)" using Cons.prems(2) Inr by (auto simp: incoming_ok_def)
    have "\<exists>res r1. (case sm_message m of
        PrevoteMsg prevote \<Rightarrow> import_each (import_prevote anc prevote) (sm_id m) (sm_signature m) r
      | PrecommitMsg precommit \<Rightarrow> import_each (import_precommit anc precommit) (sm_id m) (sm_signature m) r) = Some (res, r1) \<and> ?P r1"
    proof (cases "sm_message m")
      case (PrevoteMsg v)
      have n: "pv_target_number v = number (pv_target_hash v)" using m(1) PrevoteMsg by simp
      have step: "\<exists>res r2. import_prevote anc v i s r1 = Some (res, r2) \<and> ?P r2" if P: "?P r1" for i s r1
        using import_prevote_good [OF chain conjunct1 [OF P] n, of i s] same_round_trans [OF conjunct2 [OF P]] by blast
      show ?thesis using import_each_returns [of ?P "import_prevote anc v", OF step _ m(2)] Cons.prems(1) PrevoteMsg by simp
    next
      case (PrecommitMsg v)
      have n: "pc_target_number v = number (pc_target_hash v)" using m(1) PrecommitMsg by simp
      have step: "\<exists>res r2. import_precommit anc v i s r1 = Some (res, r2) \<and> ?P r2" if P: "?P r1" for i s r1
        using import_precommit_good [OF chain conjunct1 [OF P] n, of i s] same_round_trans [OF conjunct2 [OF P]] by blast
      show ?thesis using import_each_returns [of ?P "import_precommit anc v", OF step _ m(2)] Cons.prems(1) PrecommitMsg by simp
    qed
    then obtain res r1 where r1: "(case sm_message m of
        PrevoteMsg prevote \<Rightarrow> import_each (import_prevote anc prevote) (sm_id m) (sm_signature m) r
      | PrecommitMsg precommit \<Rightarrow> import_each (import_precommit anc precommit) (sm_id m) (sm_signature m) r) = Some (res, r1)" "?P r1"
      by blast
    have "\<exists>res' r'. process_incoming anc incoming r1 = Some (res', r') \<and> round_good par number voters r' \<and> same_round r r'"
      using Cons.IH [OF conjunct1 [OF r1(2)] ok] r1(2) same_round_trans by blast
    then show ?thesis using Inr r1 Cons.IH [OF Cons.prems(1) ok] by (cases res) simp_all
  qed
qed simp

section \<open>The votes a round casts\<close>

text \<open>The slot of a vote: its round, and whether it is a precommit. A round may fill each of its slots once.\<close>

fun slot :: "u64 \<times> 'h Message \<Rightarrow> u64 \<times> bool" where
  "slot (n, PrevoteMsg v) = (n, False)"
| "slot (n, PrecommitMsg v) = (n, True)"

lemma fst_slot [simp]: "fst (slot x) = fst x"
  by (cases x rule: slot.cases) auto

definition cast_slots :: "('i, 'h, 's) VotingRound \<Rightarrow> (u64 \<times> 'h Message) list \<Rightarrow> (u64 \<times> bool) list" where
  "cast_slots vr sent = filter (\<lambda>x. fst x = rd_round_number (vr_votes vr)) (map slot sent)
     @ map (\<lambda>m. slot (rd_round_number (vr_votes vr), m)) (vr_outgoing vr)"

definition casts_ok :: "('i, 'h, 's) VotingRound \<Rightarrow> (u64 \<times> 'h Message) list \<Rightarrow> bool" where
  "casts_ok vr sent \<longleftrightarrow> distinct (cast_slots vr sent)
     \<and> (vr_state vr = Some Start \<longrightarrow> cast_slots vr sent = [])
     \<and> (vr_state vr = Some Prevoted \<longrightarrow> (rd_round_number (vr_votes vr), True) \<notin> set (cast_slots vr sent))
     \<and> (vr_last_round_state vr = None \<longrightarrow> vr_state vr = Some Start)"

lemma cast_prevote_spec:
  assumes "cast_prevote chain timer lrs vr = Some (res, vr')"
  shows "vr' = vr \<or> vr' = vr\<lparr>vr_state := None\<rparr> \<or> (vr_state vr = Some Start \<and> (vr' = vr\<lparr>vr_state := Some Prevoted\<rparr>
    \<or> (\<exists>v. vr' = vr\<lparr>vr_outgoing := vr_outgoing vr @ [PrevoteMsg v], vr_state := Some Prevoted\<rparr>)))"
  using assms unfolding cast_prevote_def
  by (auto split: option.splits voting_state.splits sum.splits if_splits)

lemma cast_precommit_spec:
  assumes "cast_precommit chain timer lrs vr = Some (res, vr')"
  shows "vr' = vr \<or> vr' = vr\<lparr>vr_state := None\<rparr> \<or> (vr_state vr = Some Prevoted
    \<and> vr' = vr\<lparr>vr_outgoing := vr_outgoing vr @ [PrecommitMsg (construct_precommit vr)], vr_state := Some Precommitted\<rparr>
    \<and> (\<exists>g e. rd_prevote_ghost (vr_votes vr) = Some g \<and> st_estimate lrs = Some e
        \<and> (g = e \<or> is_equal_or_descendent_of (ch_ancestry chain) (fst e) (fst g))))"
  using assms unfolding cast_precommit_def
  by (auto simp: round_state_def split: option.splits voting_state.splits sum.splits if_splits)

lemma casts_ok_prevote:
  assumes "casts_ok vr sent" "vr_last_round_state vr = Some b" "cast_prevote chain timer lrs vr = Some (res, vr')"
  shows "casts_ok vr' sent"
  using cast_prevote_spec [OF assms(3)] assms(1,2) by (elim disjE conjE exE) (simp_all add: casts_ok_def cast_slots_def)

lemma casts_ok_precommit:
  assumes "casts_ok vr sent" "vr_last_round_state vr = Some b" "cast_precommit chain timer lrs vr = Some (res, vr')"
  shows "casts_ok vr' sent"
  using cast_precommit_spec [OF assms(3)] assms(1,2) by (elim disjE conjE exE) (auto simp: casts_ok_def cast_slots_def)

text \<open>What casting votes does not touch.\<close>

definition same_fields :: "('i, 'h, 's) VotingRound \<Rightarrow> ('i, 'h, 's) VotingRound \<Rightarrow> bool" where
  "same_fields vr vr' \<longleftrightarrow> vr_bridged_round_state vr' = vr_bridged_round_state vr
     \<and> vr_last_round_state vr' = vr_last_round_state vr \<and> vr_primary_block vr' = vr_primary_block vr"

lemma cast_fields:
  "cast_prevote chain timer lrs vr = Some (res, vr') \<Longrightarrow> same_fields vr vr' \<and> vr_votes vr' = vr_votes vr"
  "cast_precommit chain timer lrs vr = Some (res, vr') \<Longrightarrow> same_fields vr vr' \<and> vr_votes vr' = vr_votes vr"
  by (drule cast_prevote_spec cast_precommit_spec, elim disjE conjE exE, simp_all add: same_fields_def)+

lemma cast_votes_spec:
  assumes "cast_votes chain inp sh vr = Some (res, vr')"
  shows "casts_ok vr sent \<Longrightarrow> casts_ok vr' sent" and "same_fields vr vr' \<and> vr_votes vr' = vr_votes vr"
proof -
  have "(casts_ok vr sent \<longrightarrow> casts_ok vr' sent) \<and> same_fields vr vr' \<and> vr_votes vr' = vr_votes vr"
  proof (cases "vr_last_round_state vr")
    case None
    then show ?thesis using assms by (simp add: cast_votes_def same_fields_def)
  next
    case (Some b)
    obtain res1 vr1 where vr1: "cast_prevote chain (pi_prevote_timer inp) (sh_bridged sh ! b) vr = Some (res1, vr1)"
      using assms Some by (auto simp: cast_votes_def split: option.splits)
    note f = cast_fields(1) [OF vr1]
    have c: "casts_ok vr1 sent" if "casts_ok vr sent" using casts_ok_prevote [OF that Some vr1] .
    show ?thesis
    proof (cases res1)
      case (Inl e)
      then show ?thesis using assms Some vr1 f c by (auto simp: cast_votes_def)
    next
      case (Inr u)
      have vr2: "cast_precommit chain (pi_precommit_timer inp) (sh_bridged sh ! b) vr1 = Some (res, vr')"
        using assms Some vr1 Inr by (simp add: cast_votes_def)
      have "vr_last_round_state vr1 = Some b" using f Some by (simp add: same_fields_def)
      then show ?thesis using casts_ok_precommit [OF c _ vr2] cast_fields(2) [OF vr2] f by (auto simp: same_fields_def)
    qed
  qed
  then show "casts_ok vr sent \<Longrightarrow> casts_ok vr' sent" "same_fields vr vr' \<and> vr_votes vr' = vr_votes vr" by simp_all
qed

lemma schedule_all_spec:
  "schedule_all answers buffer sent = (res, buffer', sent') \<Longrightarrow> \<exists>acc lost. sent' = sent @ acc \<and> buffer = acc @ lost @ buffer'"
proof (induction answers buffer sent rule: schedule_all.induct)
  case (2 answers front buffer sent)
  then obtain acc lost where "sent' = (sent @ [front]) @ acc" "buffer = acc @ lost @ buffer'" by auto
  then show ?case by (intro exI [of _ "front # acc"] exI [of _ lost]) simp
next
  case (3 answers front buffer sent)
  then show ?case by (intro exI [of _ "[]"] exI [of _ "[front]"]) simp
qed auto

lemma buffered_poll_spec:
  "buffered_poll answers c buffer sent = (res, buffer', sent') \<Longrightarrow> \<exists>acc lost. sent' = sent @ acc \<and> buffer = acc @ lost @ buffer'"
  using schedule_all_spec [of answers buffer sent] by (fastforce simp: buffered_poll_def split: prod.splits sum.splits bool.splits)

section \<open>Finality notifications\<close>

text \<open>The voters who signed in a commit a precommit at or above a block, or two different precommits.\<close>

definition commit_backers :: "('h \<rightharpoonup> 'h) \<Rightarrow> 'i VoterSet \<Rightarrow> 'h \<Rightarrow> ('h, 's, 'i) Commit \<Rightarrow> 'i set" where
  "commit_backers par voters h c = {i. voter_info voters i \<noteq> None
     \<and> ((\<exists>a\<in>commit_signed (cm_precommits c) i. descends par h (pc_target_hash (fst a)))
        \<or> (\<exists>a b. {a, b} \<subseteq> commit_signed (cm_precommits c) i \<and> a \<noteq> b))}"

definition supermajority_commit ::
  "('h \<rightharpoonup> 'h) \<Rightarrow> ('h \<Rightarrow> u64) \<Rightarrow> 'i VoterSet \<Rightarrow> 'h \<Rightarrow> u64 \<Rightarrow> ('h, 's, 'i) Commit \<Rightarrow> bool" where
  "supermajority_commit par number voters h n c \<longleftrightarrow>
     n = number h \<and> unat (vs_threshold voters) \<le> weight_of voters (commit_backers par voters h c)"

lemma commit_backers_finite: "finite (commit_backers par voters h c)"
  by (rule finite_subset [of _ "sp_id ` set (cm_precommits c)"]) (auto simp: commit_backers_def commit_signed_def)

lemma finalizing_backers:
  assumes chain: "block_chain par number anc" and t: "tracker_ok voters (rd_precommit r)"
    and f: "rd_finalized r = Some (h, n)" and ps: "finalizing_precommits anc r = Some ps"
  shows "backing pc_target_hash par (vt_votes (rd_precommit r)) h
    \<subseteq> commit_backers par voters h \<lparr>cm_target_hash = h, cm_target_number = n, cm_precommits = ps\<rparr>"
proof
  fix i
  assume "i \<in> backing pc_target_hash par (vt_votes (rd_precommit r)) h"
  then obtain m where m: "map_of (vt_votes (rd_precommit r)) i = Some m"
    "(\<exists>a b. m = Equivocated a b) \<or> descends par h (pc_target_hash (first_vote m))" by (auto simp: backing_def)
  have im: "(i, m) \<in> set (vt_votes (rd_precommit r))" using m(1) by (rule map_of_SomeD)
  then have "(i, m) \<in> set (finalizing_groups anc h (rd_precommit r))"
    using m(2) by (cases m) (auto simp: finalizing_groups_def equal_or_descendent [OF chain])
  then have signed: "set (multiplicity_votes m) \<subseteq> commit_signed ps i"
    using ps finalizing_groups_precommits [OF f, of anc] by (force simp: voter_precommits_def commit_signed_def)
  have "voter_info voters i \<noteq> None" using t im by (force simp: tracker_ok_def)
  moreover have "\<forall>a b. m = Equivocated a b \<longrightarrow> a \<noteq> b" using t m(1) unfolding tracker_ok_def by blast
  ultimately show "i \<in> commit_backers par voters h \<lparr>cm_target_hash = h, cm_target_number = n, cm_precommits = ps\<rparr>"
    using m(2) signed by (cases m) (force simp: commit_backers_def)+
qed

lemma finalizing_commit_backed:
  assumes chain: "block_chain par number anc" and good: "round_good par number voters r"
    and f: "rd_finalized r = Some (h, n)" and ps: "finalizing_precommits anc r = Some ps"
  shows "supermajority_commit par number voters h n \<lparr>cm_target_hash = h, cm_target_number = n, cm_precommits = ps\<rparr>"
proof -
  let ?params = "\<lparr>rp_round_number = 0, rp_voters = voters, rp_base = (round_base r, number (round_base r))\<rparr>"
  have "round_reached par number ?params r" using good by (simp add: round_good_def round_reached_def)
  note b = finalized_backing [OF this f]
  have "tracker_ok voters (rd_precommit r)" using good round_inv_tracker [of par number r] by (simp add: round_good_def)
  from finalizing_backers [OF chain this f ps]
  have "weight_of voters (backing pc_target_hash par (vt_votes (rd_precommit r)) h)
      \<le> weight_of voters (commit_backers par voters h \<lparr>cm_target_hash = h, cm_target_number = n, cm_precommits = ps\<rparr>)"
    by (intro sum_mono2 commit_backers_finite) auto
  then show ?thesis using b(1,3) by (simp add: supermajority_commit_def)
qed

definition notice_ok ::
  "('h \<rightharpoonup> 'h) \<Rightarrow> ('h \<Rightarrow> u64) \<Rightarrow> 'i VoterSet \<Rightarrow> 'h \<times> u64 \<times> u64 \<times> ('h, 's, 'i) Commit \<Rightarrow> bool" where
  "notice_ok par number voters = (\<lambda>(h, n, round, c). supermajority_commit par number voters h n c)"

section \<open>A poll\<close>

text \<open>What a poll keeps, and how it extends what is sent.\<close>

definition poll_kept ::
  "('h \<rightharpoonup> 'h) \<Rightarrow> ('h \<Rightarrow> u64) \<Rightarrow> 'i VoterSet \<Rightarrow> ('i, 'h, 's) VotingRound \<Rightarrow> ('i, 'h, 's) shared
     \<Rightarrow> ('i, 'h, 's) VotingRound \<Rightarrow> ('i, 'h, 's) shared \<Rightarrow> bool" where
  "poll_kept par number voters vr sh vr' sh' \<longleftrightarrow>
     round_good par number voters (vr_votes vr') \<and> same_round (vr_votes vr) (vr_votes vr') \<and> same_fields vr vr'
     \<and> (casts_ok vr (sh_sent sh) \<longrightarrow> casts_ok vr' (sh_sent sh'))
     \<and> (\<exists>new. sh_sent sh' = sh_sent sh @ new \<and> (\<forall>x\<in>set new. fst x = rd_round_number (vr_votes vr)))
     \<and> (\<exists>ns. sh_notifications sh' = sh_notifications sh @ ns \<and> (\<forall>x\<in>set ns. notice_ok par number voters x))
     \<and> length (sh_bridged sh') = length (sh_bridged sh)"

lemma poll_kept_refl: "round_good par number voters (vr_votes vr) \<Longrightarrow> poll_kept par number voters vr sh vr sh"
  by (simp add: poll_kept_def same_fields_def)

lemma poll_kept_trans:
  assumes a: "poll_kept par number voters vr sh vr1 sh1" and b: "poll_kept par number voters vr1 sh1 vr2 sh2"
  shows "poll_kept par number voters vr sh vr2 sh2"
proof -
  obtain x y where s: "sh_sent sh1 = sh_sent sh @ x" "\<forall>z\<in>set x. fst z = rd_round_number (vr_votes vr)"
    "sh_sent sh2 = sh_sent sh1 @ y" "\<forall>z\<in>set y. fst z = rd_round_number (vr_votes vr1)"
    using a b by (auto simp: poll_kept_def)
  obtain u w where n: "sh_notifications sh1 = sh_notifications sh @ u" "\<forall>z\<in>set u. notice_ok par number voters z"
    "sh_notifications sh2 = sh_notifications sh1 @ w" "\<forall>z\<in>set w. notice_ok par number voters z"
    using a b by (auto simp: poll_kept_def)
  have "\<exists>new. sh_sent sh2 = sh_sent sh @ new \<and> (\<forall>x\<in>set new. fst x = rd_round_number (vr_votes vr))"
    using s a by (intro exI [of _ "x @ y"]) (auto simp: poll_kept_def same_round_def)
  moreover have "\<exists>ns. sh_notifications sh2 = sh_notifications sh @ ns \<and> (\<forall>x\<in>set ns. notice_ok par number voters x)"
    using n by (intro exI [of _ "u @ w"]) auto
  ultimately show ?thesis using a b by (auto simp: poll_kept_def same_round_def same_fields_def)
qed

lemma casts_ok_votes:
  "same_round (vr_votes vr) votes \<Longrightarrow> casts_ok (vr\<lparr>vr_votes := votes\<rparr>) sent = casts_ok vr sent"
  by (simp add: casts_ok_def cast_slots_def same_round_def)

lemma poll_kept_votes:
  assumes "round_good par number voters votes" "same_round (vr_votes vr) votes"
  shows "poll_kept par number voters vr sh (vr\<lparr>vr_votes := votes\<rparr>) sh"
  using assms by (simp add: poll_kept_def casts_ok_votes same_fields_def)

lemma poll_kept_cast:
  assumes "round_good par number voters (vr_votes vr)" "cast_votes chain inp sh' vr = Some (res, vr')"
  shows "poll_kept par number voters vr sh vr' sh"
  using assms cast_votes_spec [OF assms(2)] by (simp add: poll_kept_def)

lemma poll_kept_output:
  assumes good: "round_good par number voters (vr_votes vr)"
    and out: "buffered_poll answers c (map (\<lambda>m. (rd_round_number (vr_votes vr), m)) (vr_outgoing vr)) (sh_sent sh) = (res, buffer, sent)"
  shows "poll_kept par number voters vr sh (vr\<lparr>vr_outgoing := map snd buffer\<rparr>) (sh\<lparr>sh_sent := sent\<rparr>)"
proof -
  let ?n = "rd_round_number (vr_votes vr)"
  obtain acc lost where acc: "sent = sh_sent sh @ acc" "map (\<lambda>m. (?n, m)) (vr_outgoing vr) = acc @ lost @ buffer"
    using buffered_poll_spec [OF out] by blast
  have n: "\<forall>x\<in>set acc \<union> set buffer. fst x = ?n" using arg_cong [OF acc(2), of set] by auto
  then have f: "filter (\<lambda>x. fst x = ?n) (map slot acc) = map slot acc" by (auto intro: filter_True)
  have b: "map (\<lambda>m. slot (?n, m)) (map snd buffer) = map slot buffer"
    using n by (force intro!: map_cong)
  have "map (\<lambda>m. slot (?n, m)) (vr_outgoing vr) = map slot acc @ map slot lost @ map slot buffer"
    using arg_cong [OF acc(2), of "map slot"] by (simp add: o_def)
  then have "cast_slots vr (sh_sent sh) = filter (\<lambda>x. fst x = ?n) (map slot (sh_sent sh)) @ map slot acc @ map slot lost @ map slot buffer"
    by (simp add: cast_slots_def)
  moreover have "cast_slots (vr\<lparr>vr_outgoing := map snd buffer\<rparr>) sent
      = filter (\<lambda>x. fst x = ?n) (map slot (sh_sent sh)) @ map slot acc @ map slot buffer"
    using acc(1) f b by (simp add: cast_slots_def)
  ultimately have "casts_ok vr (sh_sent sh) \<longrightarrow> casts_ok (vr\<lparr>vr_outgoing := map snd buffer\<rparr>) sent"
    by (auto simp: casts_ok_def)
  then show ?thesis using good n acc(1) by (simp add: poll_kept_def same_fields_def)
qed

lemma round_state_sel [simp]:
  "st_prevote_ghost (round_state r) = rd_prevote_ghost r" "st_finalized (round_state r) = rd_finalized r"
  "st_estimate (round_state r) = rd_estimate r" "st_completable (round_state r) = rd_completable r"
  by (simp_all add: round_state_def)

lemma notify_spec:
  assumes chain: "block_chain par number anc" and good: "round_good par number voters (vr_votes vr)"
  shows "\<exists>vr' sh'. notify anc pre (round_state (vr_votes vr)) vr sh = Some (vr', sh')
    \<and> poll_kept par number voters vr sh vr' sh' \<and> vr_votes vr' = vr_votes vr"
proof -
  let ?post = "round_state (vr_votes vr)"
  define sh1 where "sh1 = (case vr_bridged_round_state vr of None \<Rightarrow> sh
    | Some b \<Rightarrow> sh\<lparr>sh_bridged := (sh_bridged sh)[b := ?post]\<rparr>)"
  have kept: "poll_kept par number voters vr sh vr sh1"
    using good by (cases "vr_bridged_round_state vr") (simp_all add: sh1_def poll_kept_def same_fields_def)
  show ?thesis
  proof (cases "pre \<noteq> ?post \<and> st_finalized pre \<noteq> st_finalized ?post \<and> st_completable ?post
      \<and> vr_state vr = Some Precommitted \<and> rd_finalized (vr_votes vr) \<noteq> None")
    case True
    then obtain h n where f: "rd_finalized (vr_votes vr) = Some (h, n)" by auto
    obtain ps where ps: "finalizing_precommits anc (vr_votes vr) = Some ps" using f by (simp add: finalizing_precommits_def)
    let ?c = "\<lparr>cm_target_hash = h, cm_target_number = n, cm_precommits = ps\<rparr>"
    let ?x = "(h, n, rd_round_number (vr_votes vr), ?c)"
    have "notify anc pre ?post vr sh = Some (vr\<lparr>vr_best_finalized := Some ?c\<rparr>,
        sh1\<lparr>sh_notifications := sh_notifications sh1 @ [?x]\<rparr>)"
      using True f ps unfolding notify_def sh1_def [symmetric] by (simp add: Let_def)
    moreover have "notice_ok par number voters ?x"
      using finalizing_commit_backed [OF chain good f ps] by (simp add: notice_ok_def)
    then have "poll_kept par number voters vr sh1 (vr\<lparr>vr_best_finalized := Some ?c\<rparr>)
        (sh1\<lparr>sh_notifications := sh_notifications sh1 @ [?x]\<rparr>)"
      using good by (simp add: poll_kept_def same_fields_def casts_ok_def cast_slots_def)
    ultimately show ?thesis using poll_kept_trans [OF kept] by simp
  next
    case False
    then have "notify anc pre ?post vr sh = Some (vr, if pre = ?post then sh else sh1)"
      unfolding notify_def sh1_def [symmetric] by (auto simp: Let_def split: option.splits voting_state.splits)
    then show ?thesis using kept poll_kept_refl [OF good] by simp
  qed
qed

lemma finish_poll_spec:
  assumes chain: "block_chain par number anc" and good: "round_good par number voters (vr_votes vr)"
    and ok: "incoming_ok number incoming"
  shows "\<exists>res vr' sh'. finish_poll anc incoming pre vr sh = Some (res, vr', sh') \<and> poll_kept par number voters vr sh vr' sh'"
proof -
  obtain res votes where v: "process_incoming anc incoming (vr_votes vr) = Some (res, votes)"
    "round_good par number voters votes" "same_round (vr_votes vr) votes" using process_incoming_returns [OF chain good ok] by blast
  let ?vr = "vr\<lparr>vr_votes := votes\<rparr>"
  have k: "poll_kept par number voters vr sh ?vr sh" by (rule poll_kept_votes [OF v(2,3)])
  obtain vr' sh' where n: "notify anc pre (round_state votes) ?vr sh = Some (vr', sh')" "poll_kept par number voters ?vr sh vr' sh'"
    using notify_spec [OF chain, of voters ?vr pre sh] v(2) by auto
  show ?thesis using v(1) k n poll_kept_trans [OF k n(2)] by (cases res) (simp_all add: finish_poll_def)
qed

definition input_ok :: "('h \<Rightarrow> u64) \<Rightarrow> ('i, 'h, 's) poll_input \<Rightarrow> bool" where
  "input_ok number inp \<longleftrightarrow> incoming_ok number (pi_incoming inp) \<and> incoming_ok number (pi_incoming_local inp)"

lemma voting_round_poll_kept:
  assumes chain: "block_chain par number (ch_ancestry chain)" and good: "round_good par number voters (vr_votes vr)"
    and ok: "input_ok number inp" and poll: "voting_round_poll chain inp vr sh = Some (res, vr', sh')"
  shows "poll_kept par number voters vr sh vr' sh'"
proof -
  obtain res1 votes where v: "process_incoming (ch_ancestry chain) (pi_incoming inp) (vr_votes vr) = Some (res1, votes)"
    "round_good par number voters votes" "same_round (vr_votes vr) votes"
    using process_incoming_returns [OF chain good, of "pi_incoming inp"] ok by (auto simp: input_ok_def)
  let ?vr1 = "vr\<lparr>vr_votes := votes\<rparr>"
  have k1: "poll_kept par number voters vr sh ?vr1 sh" by (rule poll_kept_votes [OF v(2,3)])
  show ?thesis
  proof (cases res1)
    case (Inl e)
    then show ?thesis using poll v(1) k1 by (simp add: voting_round_poll_def Let_def)
  next
    case (Inr u)
    obtain res2 vr2 where c: "cast_votes chain inp sh ?vr1 = Some (res2, vr2)"
      using poll v(1) Inr by (auto simp: voting_round_poll_def Let_def split: option.splits)
    have k2: "poll_kept par number voters vr sh vr2 sh" using poll_kept_trans [OF k1 poll_kept_cast [OF _ c]] v(2) by simp
    then have g2: "round_good par number voters (vr_votes vr2)" by (simp add: poll_kept_def)
    show ?thesis
    proof (cases res2)
      case (Inl e)
      then show ?thesis using poll v(1) \<open>res1 = Inr u\<close> c k2 by (simp add: voting_round_poll_def Let_def)
    next
      case (Inr u2)
      obtain res3 buffer sent where b: "buffered_poll (pi_start_send inp) (pi_poll_complete inp)
          (map (\<lambda>m. (rd_round_number (vr_votes vr2), m)) (vr_outgoing vr2)) (sh_sent sh) = (res3, buffer, sent)" by (metis prod_cases3)
      let ?vr3 = "vr2\<lparr>vr_outgoing := map snd buffer\<rparr>" and ?sh3 = "sh\<lparr>sh_sent := sent\<rparr>"
      have k3: "poll_kept par number voters vr sh ?vr3 ?sh3" by (rule poll_kept_trans [OF k2 poll_kept_output [OF g2 b]])
      have p: "(case res3 of Inl e \<Rightarrow> Some (Inl e, ?vr3, ?sh3) | Inr False \<Rightarrow> Some (Inr False, ?vr3, ?sh3)
          | Inr True \<Rightarrow> finish_poll (ch_ancestry chain) (pi_incoming_local inp) (round_state (vr_votes vr)) ?vr3 ?sh3) = Some (res, vr', sh')"
        using poll v(1) \<open>res1 = Inr u\<close> c Inr b by (simp add: voting_round_poll_def Let_def)
      have "poll_kept par number voters ?vr3 ?sh3 vr' sh'"
        if "finish_poll (ch_ancestry chain) (pi_incoming_local inp) (round_state (vr_votes vr)) ?vr3 ?sh3 = Some (res, vr', sh')"
        using finish_poll_spec [OF chain, of voters ?vr3 "pi_incoming_local inp" "round_state (vr_votes vr)" ?sh3] g2 ok that
        by (auto simp: input_ok_def)
      then show ?thesis using p k3 poll_kept_trans [OF k3] by (auto split: sum.splits bool.splits)
    qed
  qed
qed

end
