(* ===== verification/Grandpa_Voter.thy ===== *)
theory Grandpa_Voter
  imports Voting_Round
begin

text \<open>
  The voter, \<open>core/finality-grandpa/src/voter.rs\<close>: it runs one round after the other, keeps old rounds in the background until their estimate is
  finalized, exchanges commits for them, and catches up with a later round it hears of. The rounds in the background are
  shared by the voter and its committer; they are in a store, \<open>vo_heap\<close>, and are referred to by their index. The answers
  of streams, sinks and timers are inputs, as for a single round.
\<close>

section \<open>The environment\<close>

text \<open>
  The chain, and what the voter tells its environment when a round is completed and when a block is to be finalized. The
  environment has a state of its own, of any type.
\<close>

record ('i, 'h, 's, 'e) Environment =
  ev_ancestry :: "'h \<Rightarrow> 'h \<Rightarrow> 'h list option"
  ev_best_chain_containing :: "'e \<Rightarrow> 'h \<Rightarrow> ('h \<times> u64) option"
  ev_completed :: "u64 \<Rightarrow> 'h RoundState \<Rightarrow> 'e \<Rightarrow> (unit + unit) \<times> 'e"
  ev_finalize_block :: "'h \<Rightarrow> u64 \<Rightarrow> u64 \<Rightarrow> ('h, 's, 'i) Commit \<Rightarrow> 'e \<Rightarrow> (unit + unit) \<times> 'e"

section \<open>The state\<close>

record BackgroundRound =
  br_inner :: nat
  br_finalized_number :: u64

record ('i, 'h, 's) RoundCommitter =
  rc_voting_round :: nat
  rc_last_commit :: "('h, 's, 'i) Commit option"

text \<open>The committer's fields are those of the voter that start with \<open>vo_committer\<close>.\<close>

record ('i, 'h, 's, 'e) Voter =
  vo_env :: 'e
  vo_voters :: "'i VoterSet"
  vo_best_round :: "('i, 'h, 's) VotingRound"
  vo_past_rounds :: "BackgroundRound list"
  vo_heap :: "('i, 'h, 's) VotingRound list"
  vo_shared :: "('i, 'h, 's) shared"
  vo_committer_rounds :: "(u64 \<times> ('i, 'h, 's) RoundCommitter) list"
  vo_committer_outgoing :: "(u64 \<times> ('h, 's, 'i) Commit) list"
  vo_committer_sent :: "(u64 \<times> ('h, 's, 'i) Commit) list"
  vo_last_finalized_number :: u64
  vo_prospective_round :: "('i, 'h, 's) VotingRound option"
  vo_last_finalized_in_rounds :: "'h \<times> u64"

abbreviation round_number :: "('i, 'h, 's) VotingRound \<Rightarrow> u64" where
  "round_number vr \<equiv> rd_round_number (vr_votes vr)"

text \<open>The answers of one pass of the voter's \<open>poll\<close>. The scheduler decides which rounds in the background run, and in which order.\<close>

record ('i, 'h, 's) voter_input =
  vi_past_rounds :: "(nat \<times> ('i, 'h, 's) poll_input) list"
  vi_commits :: "(unit + u64 \<times> ('h, 's, 'i) CompactCommit) list"
  vi_commit_timer :: "u64 \<Rightarrow> unit + bool"
  vi_commit_send :: "AsyncSink list"
  vi_commit_complete :: "unit + bool"
  vi_prospective :: "('i, 'h, 's) poll_input"
  vi_best :: "('i, 'h, 's) poll_input"

definition chain_of :: "('i, 'h, 's, 'e) Environment \<Rightarrow> 'e \<Rightarrow> 'h Chain" where
  "chain_of env e = \<lparr>ch_ancestry = ev_ancestry env, ch_best_chain_containing = ev_best_chain_containing env e\<rparr>"

definition voter_new ::
  "'e \<Rightarrow> 'i VoterSet \<Rightarrow> u64 \<Rightarrow> 'h RoundState \<Rightarrow> 'h \<times> u64 \<Rightarrow> ('i, 'h, 's, 'e) Voter" where
  "voter_new e voters last_round_number last_round_state last_finalized =
     \<lparr>vo_env = e, vo_voters = voters,
      vo_best_round = voting_round_new (last_round_number + 1) voters last_finalized (Some 0),
      vo_past_rounds = [], vo_heap = [],
      vo_shared = \<lparr>sh_bridged = [last_round_state], sh_notifications = [], sh_sent = []\<rparr>,
      vo_committer_rounds = [], vo_committer_outgoing = [], vo_committer_sent = [],
      vo_last_finalized_number = snd last_finalized, vo_prospective_round = None,
      vo_last_finalized_in_rounds = last_finalized\<rparr>"

section \<open>Rounds in the background\<close>

definition is_done :: "BackgroundRound \<Rightarrow> ('i, 'h, 's) VotingRound \<Rightarrow> bool" where
  "is_done bg vr = (case st_estimate (round_state (vr_votes vr)) of None \<Rightarrow> False | Some x \<Rightarrow> snd x \<le> br_finalized_number bg)"

definition background_update_finalized :: "u64 \<Rightarrow> BackgroundRound \<Rightarrow> BackgroundRound" where
  "background_update_finalized new_finalized bg = bg\<lparr>br_finalized_number := max (br_finalized_number bg) new_finalized\<rparr>"

text \<open>The result says whether the round is done.\<close>

definition background_poll ::
  "('i, 'h::linorder, 's, 'e) Environment \<Rightarrow> ('i, 'h, 's) poll_input \<Rightarrow> BackgroundRound \<Rightarrow> ('i, 'h, 's, 'e) Voter
     \<Rightarrow> ((unit + bool) \<times> ('i, 'h, 's, 'e) Voter) option" where
  "background_poll env inp bg v =
     (case voting_round_poll (chain_of env (vo_env v)) inp (vo_heap v ! br_inner bg) (vo_shared v) of
        None \<Rightarrow> None
      | Some (res, vr, sh) \<Rightarrow>
          let v = v\<lparr>vo_heap := (vo_heap v)[br_inner bg := vr], vo_shared := sh\<rparr>
          in case res of Inl e \<Rightarrow> Some (Inl e, v) | Inr _ \<Rightarrow> Some (Inr (is_done bg vr), v))"

text \<open>A round that is done, or has failed, leaves the set of futures.\<close>

fun poll_past_rounds ::
  "('i, 'h::linorder, 's, 'e) Environment \<Rightarrow> (nat \<times> ('i, 'h, 's) poll_input) list \<Rightarrow> ('i, 'h, 's, 'e) Voter
     \<Rightarrow> ((unit + unit) \<times> ('i, 'h, 's, 'e) Voter) option" where
  "poll_past_rounds env [] v = Some (Inr (), v)"
| "poll_past_rounds env ((a, inp) # schedule) v =
     (case find (\<lambda>bg. br_inner bg = a) (vo_past_rounds v) of
        None \<Rightarrow> poll_past_rounds env schedule v
      | Some bg \<Rightarrow>
          (case background_poll env inp bg v of
             None \<Rightarrow> None
           | Some (Inl e, v) \<Rightarrow> Some (Inl e, v\<lparr>vo_past_rounds := removeAll bg (vo_past_rounds v)\<rparr>)
           | Some (Inr finished, v) \<Rightarrow>
               poll_past_rounds env schedule
                 (if finished then v\<lparr>vo_past_rounds := removeAll bg (vo_past_rounds v)\<rparr> else v)))"

definition set_last_finalized_number :: "u64 \<Rightarrow> ('i, 'h, 's, 'e) Voter \<Rightarrow> bool \<times> ('i, 'h, 's, 'e) Voter" where
  "set_last_finalized_number finalized_number v =
     (if vo_last_finalized_number v < finalized_number
      then (True, v\<lparr>vo_last_finalized_number := finalized_number\<rparr>) else (False, v))"

text \<open>The notifications that are left when the environment reports an error stay in the channel.\<close>

fun process_notifications ::
  "('i, 'h, 's, 'e) Environment \<Rightarrow> ('h \<times> u64 \<times> u64 \<times> ('h, 's, 'i) Commit) list \<Rightarrow> ('i, 'h, 's, 'e) Voter
     \<Rightarrow> (unit + unit) \<times> ('i, 'h, 's, 'e) Voter" where
  "process_notifications env [] v = (Inr (), v\<lparr>vo_shared := vo_shared v\<lparr>sh_notifications := []\<rparr>\<rparr>)"
| "process_notifications env ((f_hash, f_num, round, commit) # ns) v =
     (let v = v\<lparr>vo_past_rounds := map (background_update_finalized f_num) (vo_past_rounds v)\<rparr>;
          (finalize, v) = set_last_finalized_number f_num v;
          (res, e) = (if finalize then ev_finalize_block env f_hash f_num round commit (vo_env v) else (Inr (), vo_env v));
          v = v\<lparr>vo_env := e\<rparr>
      in case res of
           Inl e \<Rightarrow> (Inl e, v\<lparr>vo_shared := vo_shared v\<lparr>sh_notifications := ns\<rparr>\<rparr>)
         | Inr _ \<Rightarrow> process_notifications env ns
             (if snd (vo_last_finalized_in_rounds v) < f_num then v\<lparr>vo_last_finalized_in_rounds := (f_hash, f_num)\<rparr> else v))"

definition prune_background_rounds ::
  "('i, 'h::linorder, 's, 'e) Environment \<Rightarrow> (nat \<times> ('i, 'h, 's) poll_input) list \<Rightarrow> ('i, 'h, 's, 'e) Voter
     \<Rightarrow> ((unit + unit) \<times> ('i, 'h, 's, 'e) Voter) option" where
  "prune_background_rounds env schedule v =
     (case poll_past_rounds env schedule v of
        None \<Rightarrow> None
      | Some (Inl e, v) \<Rightarrow> Some (Inl e, v)
      | Some (Inr _, v) \<Rightarrow> Some (process_notifications env (sh_notifications (vo_shared v)) v))"

section \<open>Commits\<close>

fun import_precommits ::
  "('h \<Rightarrow> 'h \<Rightarrow> 'h list option) \<Rightarrow> ('h::linorder, 's, 'i) SignedPrecommit list \<Rightarrow> ('i, 'h, 's) Round
     \<Rightarrow> ((unit + unit) \<times> ('i, 'h, 's) Round) option" where
  "import_precommits anc [] votes = Some (Inr (), votes)"
| "import_precommits anc (sp # sps) votes =
     (case import_precommit anc (sp_precommit sp) (sp_id sp) (sp_signature sp) votes of
        None \<Rightarrow> None
      | Some (Inl e, votes) \<Rightarrow> Some (Inl e, votes)
      | Some (Inr equivocation, votes) \<Rightarrow> import_precommits anc sps votes)"

text \<open>The result says whether the commit was valid.\<close>

definition round_import_commit ::
  "('h \<Rightarrow> 'h \<Rightarrow> 'h list option) \<Rightarrow> ('h::linorder, 's, 'i) Commit \<Rightarrow> ('i, 'h, 's) RoundCommitter \<Rightarrow> ('i, 'h, 's) VotingRound
     \<Rightarrow> ((unit + bool) \<times> ('i, 'h, 's) RoundCommitter \<times> ('i, 'h, 's) VotingRound) option" where
  "round_import_commit anc commit rc vr =
     (if cm_target_number commit < (case rd_finalized (vr_votes vr) of None \<Rightarrow> 0 | Some (_, n) \<Rightarrow> n)
      then Some (Inr True, rc, vr)
      else (case validate_commit anc commit (rd_voters (vr_votes vr)) of
              None \<Rightarrow> None
            | Some (Inl e) \<Rightarrow> Some (Inl e, rc, vr)
            | Some (Inr None) \<Rightarrow> Some (Inr False, rc, vr)
            | Some (Inr (Some _)) \<Rightarrow>
                (case import_precommits anc (cm_precommits commit) (vr_votes vr) of
                   None \<Rightarrow> None
                 | Some (Inl e, votes) \<Rightarrow> Some (Inl e, rc, vr\<lparr>vr_votes := votes\<rparr>)
                 | Some (Inr _, votes) \<Rightarrow> Some (Inr True, rc\<lparr>rc_last_commit := Some commit\<rparr>, vr\<lparr>vr_votes := votes\<rparr>))))"

text \<open>\<open>Inr None\<close> is a timer that is not ready.\<close>

definition round_commit ::
  "unit + bool \<Rightarrow> ('i, 'h, 's) RoundCommitter \<Rightarrow> ('i, 'h, 's) VotingRound
     \<Rightarrow> (unit + ('h, 's, 'i) Commit option option) \<times> ('i, 'h, 's) RoundCommitter" where
  "round_commit commit_timer rc vr =
     (case commit_timer of
        Inl e \<Rightarrow> (Inl e, rc)
      | Inr False \<Rightarrow> (Inr None, rc)
      | Inr True \<Rightarrow>
          (Inr (Some (case (rc_last_commit rc, rd_finalized (vr_votes vr)) of
                        (None, Some _) \<Rightarrow> vr_best_finalized vr
                      | (Some c, Some (_, finalized_number)) \<Rightarrow>
                          if cm_target_number c < finalized_number then vr_best_finalized vr else None
                      | _ \<Rightarrow> None)),
           rc\<lparr>rc_last_commit := None\<rparr>))"

fun committer_process_incoming ::
  "('i, 'h::linorder, 's, 'e) Environment \<Rightarrow> (unit + u64 \<times> ('h, 's, 'i) CompactCommit) list \<Rightarrow> (u64 \<times> ('h, 's, 'i) Commit) option
     \<Rightarrow> ('i, 'h, 's, 'e) Voter \<Rightarrow> ((unit + (u64 \<times> ('h, 's, 'i) Commit) option) \<times> ('i, 'h, 's, 'e) Voter) option" where
  "committer_process_incoming env [] highest v = Some (Inr highest, v)"
| "committer_process_incoming env (Inl e # incoming) highest v = Some (Inl e, v)"
| "committer_process_incoming env (Inr (rn, compact) # incoming) highest v =
     (let commit = commit_of_compact compact
      in case map_of (vo_committer_rounds v) rn of
           Some rc \<Rightarrow>
             (case round_import_commit (ev_ancestry env) commit rc (vo_heap v ! rc_voting_round rc) of
                None \<Rightarrow> None
              | Some (res, rc', vr) \<Rightarrow>
                  let v = v\<lparr>vo_committer_rounds := AList.update rn rc' (vo_committer_rounds v),
                            vo_heap := (vo_heap v)[rc_voting_round rc := vr]\<rparr>
                  in case res of
                       Inl e \<Rightarrow> Some (Inl e, v)
                     | Inr _ \<Rightarrow> committer_process_incoming env incoming highest v)
         | None \<Rightarrow>
             (case validate_commit (ev_ancestry env) commit (vo_voters v) of
                None \<Rightarrow> None
              | Some (Inl e) \<Rightarrow> Some (Inl e, v)
              | Some (Inr None) \<Rightarrow> committer_process_incoming env incoming highest v
              | Some (Inr (Some (finalized_hash, finalized_number))) \<Rightarrow>
                  let highest = (case highest of
                                   Some (n, _) \<Rightarrow> if rn \<le> n then highest else Some (rn, commit)
                                 | None \<Rightarrow> Some (rn, commit));
                      (finalize, v) = set_last_finalized_number finalized_number v;
                      (res, e) = (if finalize then ev_finalize_block env finalized_hash finalized_number rn commit (vo_env v)
                                  else (Inr (), vo_env v));
                      v = v\<lparr>vo_env := e\<rparr>
                  in case res of
                       Inl e \<Rightarrow> Some (Inl e, v)
                     | Inr _ \<Rightarrow> committer_process_incoming env incoming highest v))"

text \<open>The rounds whose timer is not ready are retained; those whose timer fires may have a commit to send.\<close>

fun retain_rounds ::
  "(u64 \<Rightarrow> unit + bool) \<Rightarrow> ('i, 'h, 's) VotingRound list \<Rightarrow> (u64 \<times> ('i, 'h, 's) RoundCommitter) list
     \<Rightarrow> (u64 \<times> ('i, 'h, 's) RoundCommitter) list \<times> (u64 \<times> ('h, 's, 'i) Commit) list" where
  "retain_rounds timer heap [] = ([], [])"
| "retain_rounds timer heap ((rn, rc) # rounds) =
     (let (kept, commits) = retain_rounds timer heap rounds
      in case round_commit (timer rn) rc (heap ! rc_voting_round rc) of
           (Inr None, rc) \<Rightarrow> ((rn, rc) # kept, commits)
         | (Inr (Some (Some commit)), rc) \<Rightarrow> (kept, (rn, commit) # commits)
         | (_, rc) \<Rightarrow> (kept, commits))"

definition process_timers :: "(u64 \<Rightarrow> unit + bool) \<Rightarrow> ('i, 'h, 's, 'e) Voter \<Rightarrow> ('i, 'h, 's, 'e) Voter" where
  "process_timers timer v =
     (let (kept, commits) = retain_rounds timer (vo_heap v) (vo_committer_rounds v)
      in v\<lparr>vo_committer_rounds := kept, vo_committer_outgoing := vo_committer_outgoing v @ commits\<rparr>)"

text \<open>Two committers for one round are refused by an assertion.\<close>

definition committer_push :: "u64 \<Rightarrow> nat \<Rightarrow> ('i, 'h, 's, 'e) Voter \<Rightarrow> ('i, 'h, 's, 'e) Voter option" where
  "committer_push rn a v =
     (if map_of (vo_committer_rounds v) rn \<noteq> None then None
      else Some (v\<lparr>vo_committer_rounds := vo_committer_rounds v @ [(rn, \<lparr>rc_voting_round = a, rc_last_commit = None\<rparr>)]\<rparr>))"

definition committer_poll ::
  "('i, 'h::linorder, 's, 'e) Environment \<Rightarrow> ('i, 'h, 's) voter_input \<Rightarrow> ('i, 'h, 's, 'e) Voter
     \<Rightarrow> ((unit + (u64 \<times> ('h, 's, 'i) Commit) option) \<times> ('i, 'h, 's, 'e) Voter) option" where
  "committer_poll env inp v =
     (case committer_process_incoming env (vi_commits inp) None v of
        None \<Rightarrow> None
      | Some (Inl e, v) \<Rightarrow> Some (Inl e, v)
      | Some (Inr highest, v) \<Rightarrow>
          let v = process_timers (vi_commit_timer inp) v;
              (res, buffer, sent) = buffered_poll (vi_commit_send inp) (vi_commit_complete inp)
                 (vo_committer_outgoing v) (vo_committer_sent v);
              v = v\<lparr>vo_committer_outgoing := buffer, vo_committer_sent := sent\<rparr>
          in case res of Inl e \<Rightarrow> Some (Inl e, v) | Inr _ \<Rightarrow> Some (Inr highest, v))"

definition process_commits ::
  "('i, 'h::linorder, 's, 'e) Environment \<Rightarrow> ('i, 'h, 's) voter_input \<Rightarrow> ('i, 'h, 's, 'e) Voter
     \<Rightarrow> ((unit + unit) \<times> ('i, 'h, 's, 'e) Voter) option" where
  "process_commits env inp v =
     (case committer_poll env inp v of
        None \<Rightarrow> None
      | Some (Inl e, v) \<Rightarrow> Some (Inl e, v)
      | Some (Inr None, v) \<Rightarrow> Some (Inr (), v)
      | Some (Inr (Some (rn, _)), v) \<Rightarrow>
          let should_start_prospective = (round_number (vo_best_round v) + 1 < rn
                \<and> (case vo_prospective_round v of None \<Rightarrow> True | Some r \<Rightarrow> round_number r < rn));
              ghost_base = (case (case vo_prospective_round v of None \<Rightarrow> None | Some r \<Rightarrow> rd_finalized (vr_votes r)) of
                  Some f \<Rightarrow> f
                | None \<Rightarrow> (case rd_finalized (vr_votes (vo_best_round v)) of
                             Some f \<Rightarrow> f | None \<Rightarrow> vo_last_finalized_in_rounds v))
          in if should_start_prospective
             then Some (Inr (), v\<lparr>vo_prospective_round := Some (voting_round_new (rn + 1) (vo_voters v) ghost_base None)\<rparr>)
             else Some (Inr (), v))"

section \<open>From round to round\<close>

definition completed_best_round ::
  "('i, 'h, 's, 'e) Environment \<Rightarrow> ('i, 'h, 's) VotingRound option \<Rightarrow> ('i, 'h, 's, 'e) Voter
     \<Rightarrow> ((unit + unit) \<times> ('i, 'h, 's, 'e) Voter) option" where
  "completed_best_round env next_round v =
     (let best = vo_best_round v; old_round_number = round_number best
      in case ev_completed env old_round_number (round_state (vr_votes best)) (vo_env v) of
           (Inl err, e) \<Rightarrow> Some (Inl err, v\<lparr>vo_env := e\<rparr>)
         | (Inr _, e) \<Rightarrow>
             let (next_round, old_round, sh) =
                   (case next_round of
                      Some r \<Rightarrow> (r, best, vo_shared v)
                    | None \<Rightarrow>
                        (let (b, best, sh) = bridge_state best (vo_shared v)
                         in (voting_round_new (old_round_number + 1) (vo_voters v) (vo_last_finalized_in_rounds v) (Some b), best, sh)));
                 a = length (vo_heap v)
             in map_option (\<lambda>v. (Inr (), v))
                  (committer_push old_round_number a
                    (v\<lparr>vo_env := e, vo_best_round := next_round, vo_shared := sh, vo_heap := vo_heap v @ [old_round],
                       vo_past_rounds := vo_past_rounds v @ [\<lparr>br_inner = a, br_finalized_number = 0\<rparr>]\<rparr>)))"

definition completed_prospective_round ::
  "('i, 'h, 's, 'e) Environment \<Rightarrow> ('i, 'h, 's) VotingRound \<Rightarrow> ('i, 'h, 's, 'e) Voter
     \<Rightarrow> (unit + unit) \<times> ('i, 'h, 's, 'e) Voter" where
  "completed_prospective_round env prospective_round v =
     (case ev_completed env (round_number prospective_round) (round_state (vr_votes prospective_round)) (vo_env v) of
        (Inl err, e) \<Rightarrow> (Inl err, v\<lparr>vo_env := e\<rparr>)
      | (Inr _, e) \<Rightarrow>
          let (b, prospective_round, sh) = bridge_state prospective_round (vo_shared v)
          in (Inr (), v\<lparr>vo_env := e, vo_shared := sh,
                vo_best_round := voting_round_new (round_number prospective_round + 1) (vo_voters v)
                  (graph_base (rd_graph (vr_votes prospective_round))) (Some b),
                vo_heap := vo_heap v @ [prospective_round],
                vo_past_rounds := vo_past_rounds v @ [\<lparr>br_inner = length (vo_heap v), br_finalized_number = 0\<rparr>]\<rparr>))"

text \<open>
  \<open>Inr None\<close> asks for another pass; \<open>Inr (Some c)\<close> says whether the best round was polled, and if so whether it is
  completable.
\<close>

definition process_prospective_round ::
  "('i, 'h::linorder, 's, 'e) Environment \<Rightarrow> ('i, 'h, 's) voter_input \<Rightarrow> ('i, 'h, 's, 'e) Voter
     \<Rightarrow> ((unit + bool option option) \<times> ('i, 'h, 's, 'e) Voter) option" where
  "process_prospective_round env inp v =
     (case vo_prospective_round v of
        None \<Rightarrow> Some (Inr (Some None), v)
      | Some p \<Rightarrow>
          let v = v\<lparr>vo_prospective_round := None\<rparr>; chain = chain_of env (vo_env v)
          in case voting_round_poll chain (vi_prospective inp) p (vo_shared v) of
               None \<Rightarrow> None
             | Some (Inr True, p, sh) \<Rightarrow>
                 (case completed_prospective_round env p (v\<lparr>vo_shared := sh\<rparr>) of
                    (Inl e, v) \<Rightarrow> Some (Inl e, v)
                  | (Inr _, v) \<Rightarrow> Some (Inr None, v))
             | Some (Inr False, p, sh) \<Rightarrow>
                 if \<not> round_number (vo_best_round v) < round_number p then None
                 else (case voting_round_poll chain (vi_best inp) (vo_best_round v) sh of
                         None \<Rightarrow> None
                       | Some (Inl e, best, sh) \<Rightarrow> Some (Inl e, v\<lparr>vo_best_round := best, vo_shared := sh\<rparr>)
                       | Some (Inr True, best, sh) \<Rightarrow>
                           if round_number best = round_number p - 1
                           then (let (b, best, sh) = bridge_state best sh;
                                     p = p\<lparr>vr_last_round_state := Some b\<rparr>
                                 in case completed_best_round env (Some p) (v\<lparr>vo_best_round := best, vo_shared := sh\<rparr>) of
                                      None \<Rightarrow> None
                                    | Some (Inl e, v) \<Rightarrow> Some (Inl e, v)
                                    | Some (Inr _, v) \<Rightarrow> Some (Inr None, v))
                           else Some (Inr (Some (Some True)), v\<lparr>vo_best_round := best, vo_shared := sh\<rparr>)
                       | Some (Inr False, best, sh) \<Rightarrow>
                           Some (Inr (Some (Some False)),
                             v\<lparr>vo_best_round := best, vo_shared := sh, vo_prospective_round := Some p\<rparr>))
             | Some (Inl e, p, sh) \<Rightarrow> Some (Inr (Some None), v\<lparr>vo_shared := sh\<rparr>))"

text \<open>The result says whether the voter is to be polled again.\<close>

definition process_best_round ::
  "('i, 'h::linorder, 's, 'e) Environment \<Rightarrow> ('i, 'h, 's) voter_input \<Rightarrow> bool option \<Rightarrow> ('i, 'h, 's, 'e) Voter
     \<Rightarrow> ((unit + bool) \<times> ('i, 'h, 's, 'e) Voter) option" where
  "process_best_round env inp best_round_completable v =
     (case (case best_round_completable of
              Some c \<Rightarrow> Some (Inr c, vo_best_round v, vo_shared v)
            | None \<Rightarrow> voting_round_poll (chain_of env (vo_env v)) (vi_best inp) (vo_best_round v) (vo_shared v)) of
        None \<Rightarrow> None
      | Some (res, best, sh) \<Rightarrow>
          let v = v\<lparr>vo_best_round := best, vo_shared := sh\<rparr>
          in case res of
               Inl e \<Rightarrow> Some (Inl e, v)
             | Inr completable \<Rightarrow>
                 if \<not> (completable \<and> vr_state best = Some Precommitted) then Some (Inr False, v)
                 else (case completed_best_round env None v of
                         None \<Rightarrow> None
                       | Some (Inl e, v) \<Rightarrow> Some (Inl e, v)
                       | Some (Inr _, v) \<Rightarrow> Some (Inr True, v)))"

text \<open>One pass through the body of \<open>poll\<close>, and the passes of a poll, which end when no round has changed.\<close>

definition voter_pass ::
  "('i, 'h::linorder, 's, 'e) Environment \<Rightarrow> ('i, 'h, 's) voter_input \<Rightarrow> ('i, 'h, 's, 'e) Voter
     \<Rightarrow> ((unit + bool) \<times> ('i, 'h, 's, 'e) Voter) option" where
  "voter_pass env inp v =
     (case prune_background_rounds env (vi_past_rounds inp) v of
        None \<Rightarrow> None
      | Some (Inl e, v) \<Rightarrow> Some (Inl e, v)
      | Some (Inr _, v) \<Rightarrow>
          (case process_commits env inp v of
             None \<Rightarrow> None
           | Some (Inl e, v) \<Rightarrow> Some (Inl e, v)
           | Some (Inr _, v) \<Rightarrow>
               (case process_prospective_round env inp v of
                  None \<Rightarrow> None
                | Some (Inl e, v) \<Rightarrow> Some (Inl e, v)
                | Some (Inr (Some best_round_completable), v) \<Rightarrow> process_best_round env inp best_round_completable v
                | Some (Inr None, v) \<Rightarrow> Some (Inr True, v))))"

fun voter_poll ::
  "('i, 'h::linorder, 's, 'e) Environment \<Rightarrow> ('i, 'h, 's) voter_input list \<Rightarrow> ('i, 'h, 's, 'e) Voter
     \<Rightarrow> ((unit + bool) \<times> ('i, 'h, 's, 'e) Voter) option" where
  "voter_poll env [] v = Some (Inr True, v)"
| "voter_poll env (inp # inps) v =
     (case voter_pass env inp v of
        None \<Rightarrow> None
      | Some (Inr True, v) \<Rightarrow> voter_poll env inps v
      | Some x \<Rightarrow> Some x)"

end
