(* ===== verification/Voter_Safety.thy ===== *)
theory Voter_Safety
  imports Grandpa_Voter "HOL-Library.Multiset"
begin

text \<open>
  What a voter does over all its rounds: it never votes twice in a slot, and it asks its environment to finalize higher and higher blocks, each with
  a commit of a supermajority. The environment's part of the argument is the locale \<open>voter_environment\<close>.
\<close>

section \<open>Sets of rounds\<close>

text \<open>
  The rounds of a voter, of which each may be polled: they are in a good state, have different numbers, and the votes cast so far fill no
  slot twice.
\<close>

definition rounds_ok ::
  "('h \<rightharpoonup> 'h) \<Rightarrow> ('h \<Rightarrow> u64) \<Rightarrow> 'i VoterSet \<Rightarrow> ('i, 'h, 's) shared \<Rightarrow> ('i, 'h, 's) VotingRound list \<Rightarrow> bool" where
  "rounds_ok par number voters sh rs \<longleftrightarrow>
     (\<forall>vr\<in>set rs. round_good par number voters (vr_votes vr) \<and> casts_ok vr (sh_sent sh))
     \<and> distinct (map round_number rs) \<and> distinct (map slot (sh_sent sh))
     \<and> (\<forall>x\<in>set (sh_notifications sh). notice_ok par number voters x)"

lemma casts_ok_others:
  assumes "casts_ok vr sent" "\<forall>x\<in>set new. fst x \<noteq> round_number vr"
  shows "casts_ok vr (sent @ new)"
proof -
  have "filter (\<lambda>x. fst x = round_number vr) (map slot new) = []" using assms(2) by (auto simp: filter_empty_conv)
  then have "cast_slots vr (sent @ new) = cast_slots vr sent" by (simp add: cast_slots_def)
  then show ?thesis using assms(1) by (simp add: casts_ok_def)
qed

lemma slots_distinct:
  assumes "distinct (map slot sent)" "casts_ok vr (sent @ new)" "\<forall>x\<in>set new. fst x = round_number vr"
  shows "distinct (map slot (sent @ new))"
proof -
  let ?f = "filter (\<lambda>x. fst x = round_number vr)"
  have "?f (map slot new) = map slot new" using assms(3) by (auto intro: filter_True)
  then have "distinct (?f (map slot sent) @ map slot new)" using assms(2) by (auto simp: casts_ok_def cast_slots_def)
  moreover have "fst y = round_number vr" if "y \<in> set (map slot new)" for y using that assms(3) by auto
  then have "set (map slot sent) \<inter> set (map slot new) \<subseteq> set (?f (map slot sent)) \<inter> set (map slot new)"
    by (simp only: set_filter) blast
  ultimately show ?thesis using assms(1) by auto
qed

lemma rounds_ok_mset: "mset rs = mset rs' \<Longrightarrow> rounds_ok par number voters sh rs \<Longrightarrow> rounds_ok par number voters sh rs'"
  unfolding rounds_ok_def by (metis mset_eq_imp_distinct_iff mset_map set_mset_mset)

lemma rounds_ok_subset:
  "rounds_ok par number voters sh (xs @ ys) \<Longrightarrow> rounds_ok par number voters sh ys"
  by (simp add: rounds_ok_def)

lemma rounds_ok_poll:
  assumes ok: "rounds_ok par number voters sh (vr # rs)" and kept: "poll_kept par number voters vr sh vr' sh'"
  shows "rounds_ok par number voters sh' (vr' # rs)"
proof -
  have n: "round_number vr' = round_number vr" using kept by (simp add: poll_kept_def same_round_def)
  obtain new where new: "sh_sent sh' = sh_sent sh @ new" "\<forall>x\<in>set new. fst x = round_number vr" using kept by (auto simp: poll_kept_def)
  have c: "casts_ok vr' (sh_sent sh')" using kept ok by (simp add: poll_kept_def rounds_ok_def)
  have "casts_ok x (sh_sent sh')" if "x \<in> set rs" for x
  proof -
    have "round_number vr \<notin> round_number ` set rs" using ok by (simp add: rounds_ok_def)
    then have "round_number x \<noteq> round_number vr" using that by (metis imageI)
    then show ?thesis using casts_ok_others [of x "sh_sent sh" new] ok that new by (auto simp: rounds_ok_def)
  qed
  moreover have "distinct (map slot (sh_sent sh'))"
    unfolding new(1) by (rule slots_distinct [of _ vr']) (use ok c new n in \<open>auto simp: rounds_ok_def\<close>)
  moreover have "\<forall>x\<in>set (sh_notifications sh'). notice_ok par number voters x" using ok kept by (auto simp: rounds_ok_def poll_kept_def)
  ultimately show ?thesis using ok kept c n by (auto simp: rounds_ok_def poll_kept_def)
qed

text \<open>A round without a view of the last one casts no vote.\<close>

lemma idle_sends_nothing:
  assumes "casts_ok vr (sh_sent sh)" "vr_last_round_state vr = None" "poll_kept par number voters vr sh vr' sh'"
  shows "sh_sent sh' = sh_sent sh"
proof -
  obtain new where new: "sh_sent sh' = sh_sent sh @ new" "\<forall>x\<in>set new. fst x = round_number vr" using assms(3) by (auto simp: poll_kept_def)
  have "casts_ok vr' (sh_sent sh')" "vr_last_round_state vr' = None" "round_number vr' = round_number vr"
    using assms by (auto simp: poll_kept_def same_fields_def same_round_def)
  then have "filter (\<lambda>x. fst x = round_number vr) (map slot (sh_sent sh @ new)) = []"
    using new(1) by (simp add: casts_ok_def cast_slots_def)
  then have "new = []" using new(2) by (cases new) auto
  then show ?thesis using new(1) by simp
qed

lemma rounds_ok_votes:
  assumes "rounds_ok par number voters sh (vr # rs)" "round_good par number voters votes" "same_round (vr_votes vr) votes"
  shows "rounds_ok par number voters sh (vr\<lparr>vr_votes := votes\<rparr> # rs)"
  by (rule rounds_ok_poll [OF assms(1) poll_kept_votes [OF assms(2,3)]])

lemma rounds_ok_shared:
  "rounds_ok par number voters sh rs \<Longrightarrow> sh_sent sh' = sh_sent sh \<Longrightarrow> set (sh_notifications sh') \<subseteq> set (sh_notifications sh)
     \<Longrightarrow> rounds_ok par number voters sh' rs"
  by (auto simp: rounds_ok_def)

lemma rounds_ok_fields:
  assumes "rounds_ok par number voters sh (vr # rs)" "vr_votes vr' = vr_votes vr" "vr_outgoing vr' = vr_outgoing vr"
    "vr_state vr' = vr_state vr" "vr_last_round_state vr' = None \<Longrightarrow> vr_last_round_state vr = None"
  shows "rounds_ok par number voters sh (vr' # rs)"
  using assms by (auto simp: rounds_ok_def casts_ok_def cast_slots_def)

lemma round_new_number: "rd_round_number (round_new params) = rp_round_number params"
  by (simp add: round_new_def split: prod.split)

lemma rounds_ok_new:
  fixes sh :: "('i, 'h, 's) shared"
  assumes "rounds_ok par number voters sh rs" "voters_ok voters" "base = (b, number b)"
    and "\<forall>x\<in>set (sh_sent sh). fst x < n" "\<forall>vr\<in>set rs. round_number vr < n"
  shows "rounds_ok par number voters sh (voting_round_new n voters base l # rs)"
proof -
  have "filter (\<lambda>x. fst x = n) (map slot (sh_sent sh)) = []" using assms(4) by (force simp: filter_empty_conv)
  then have "casts_ok (voting_round_new n voters base l) (sh_sent sh)"
    by (simp add: casts_ok_def cast_slots_def voting_round_new_def round_new_number)
  moreover have "round_good par number voters (vr_votes (voting_round_new n voters base l :: ('i, 'h, 's) VotingRound))"
    using round_good_new [OF assms(2), of par number n b] assms(3) by (simp add: voting_round_new_def)
  moreover have "n \<notin> round_number ` set rs" using assms(5) by force
  ultimately show ?thesis using assms(1) by (simp add: rounds_ok_def) (simp add: voting_round_new_def round_new_number)
qed

section \<open>The invariant of a voter\<close>

definition voter_rounds :: "('i, 'h, 's, 'e) Voter \<Rightarrow> ('i, 'h, 's) VotingRound list" where
  "voter_rounds v = vo_best_round v # (case vo_prospective_round v of None \<Rightarrow> [] | Some p \<Rightarrow> [p]) @ vo_heap v"

text \<open>Rounds in the background are before the best one, a prospective round is after it and has no view of the last round.\<close>

definition order_ok :: "('i, 'h, 's, 'e) Voter \<Rightarrow> bool" where
  "order_ok v \<longleftrightarrow> (\<forall>vr\<in>set (vo_heap v). round_number vr < round_number (vo_best_round v))
     \<and> (\<forall>x\<in>set (sh_sent (vo_shared v)). fst x \<le> round_number (vo_best_round v))
     \<and> (\<forall>p. vo_prospective_round v = Some p \<longrightarrow> round_number (vo_best_round v) < round_number p \<and> round_number p < - 1
          \<and> vr_last_round_state p = None)"

definition references_ok :: "('i, 'h, 's, 'e) Voter \<Rightarrow> bool" where
  "references_ok v \<longleftrightarrow> (\<forall>bg\<in>set (vo_past_rounds v). br_inner bg < length (vo_heap v))
     \<and> (\<forall>(rn, rc)\<in>set (vo_committer_rounds v). rc_voting_round rc < length (vo_heap v)
          \<and> rn = round_number (vo_heap v ! rc_voting_round rc))"

definition voter_ok ::
  "('h \<rightharpoonup> 'h) \<Rightarrow> ('h \<Rightarrow> u64) \<Rightarrow> ('e \<Rightarrow> u64 \<Rightarrow> bool) \<Rightarrow> ('i, 'h, 's, 'e) Voter \<Rightarrow> bool" where
  "voter_ok par number einv v \<longleftrightarrow> voters_ok (vo_voters v)
     \<and> rounds_ok par number (vo_voters v) (vo_shared v) (voter_rounds v) \<and> order_ok v \<and> references_ok v
     \<and> snd (vo_last_finalized_in_rounds v) = number (fst (vo_last_finalized_in_rounds v))
     \<and> einv (vo_env v) (vo_last_finalized_number v)"

text \<open>
  What the voter's streams promise, with room for the round numbers to grow: a commit is of known blocks and of a round below the
  largest numbers.
\<close>

definition commits_ok :: "('h \<Rightarrow> u64) \<Rightarrow> (unit + u64 \<times> ('h, 's, 'i) CompactCommit) list \<Rightarrow> bool" where
  "commits_ok number incoming \<longleftrightarrow> (\<forall>rn c. Inr (rn, c) \<in> set incoming \<longrightarrow> rn < - 2
     \<and> cc_target_number c = number (cc_target_hash c)
     \<and> (\<forall>pc\<in>set (cc_precommits c). pc_target_number pc = number (pc_target_hash pc)))"

definition voter_input_ok :: "('h \<Rightarrow> u64) \<Rightarrow> ('i, 'h, 's) voter_input \<Rightarrow> bool" where
  "voter_input_ok number inp \<longleftrightarrow> (\<forall>(a, i)\<in>set (vi_past_rounds inp). input_ok number i) \<and> commits_ok number (vi_commits inp)
     \<and> input_ok number (vi_prospective inp) \<and> input_ok number (vi_best inp)"

end
