(* ===== verification/Voter_Runs.thy ===== *)
theory Voter_Runs
  imports Voter_Safety
begin

text \<open>
  The steps of a voter keep its invariant, whatever its environment does, as long as that keeps a relation between its own state and
  the last finalized number.
\<close>

section \<open>Commits imported into a round\<close>

lemma import_precommits_returns:
  assumes chain: "block_chain par number anc" and good: "round_good par number voters r"
    and n: "\<forall>sp\<in>set sps. pc_target_number (sp_precommit sp) = number (pc_target_hash (sp_precommit sp))"
  shows "\<exists>res r'. import_precommits anc sps r = Some (res, r') \<and> round_good par number voters r' \<and> same_round r r'"
  using good n
proof (induction sps arbitrary: r)
  case (Cons sp sps)
  obtain res r1 where r1: "import_precommit anc (sp_precommit sp) (sp_id sp) (sp_signature sp) r = Some (res, r1)"
    "round_good par number voters r1" "same_round r r1" using import_precommit_good [OF chain Cons.prems(1)] Cons.prems(2) by force
  show ?case
  proof (cases res)
    case (Inl e)
    then show ?thesis using r1 by simp
  next
    case (Inr eq)
    then show ?thesis using r1 Cons.IH [OF r1(2)] Cons.prems(2) same_round_trans [OF r1(3)] by auto
  qed
qed simp

lemma round_import_commit_kept:
  assumes chain: "block_chain par number anc" and good: "round_good par number voters (vr_votes vr)"
    and n: "\<forall>sp\<in>set (cm_precommits c). pc_target_number (sp_precommit sp) = number (pc_target_hash (sp_precommit sp))"
    and run: "round_import_commit anc c rc vr = Some (res, rc', vr')"
  shows "rc_voting_round rc' = rc_voting_round rc
    \<and> (\<exists>votes. vr' = vr\<lparr>vr_votes := votes\<rparr> \<and> round_good par number voters votes \<and> same_round (vr_votes vr) votes)"
proof (cases "vr' = vr \<and> rc' = rc")
  case True
  then show ?thesis using good by (intro conjI exI [of _ "vr_votes vr"]) simp_all
next
  case False
  obtain res1 votes where v: "import_precommits anc (cm_precommits c) (vr_votes vr) = Some (res1, votes)"
    "round_good par number voters votes" "same_round (vr_votes vr) votes" using import_precommits_returns [OF chain good n] by blast
  have "rc_voting_round rc' = rc_voting_round rc \<and> vr' = vr\<lparr>vr_votes := votes\<rparr>"
    using run False v(1) by (auto simp: round_import_commit_def split: if_splits option.splits sum.splits)
  then show ?thesis using v by blast
qed

lemma commit_of_compact_numbers:
  assumes "commits_ok number incoming" "Inr (rn, compact) \<in> set incoming"
  shows "rn < - 2" "cm_target_number (commit_of_compact compact) = number (cm_target_hash (commit_of_compact compact))"
    "\<forall>sp\<in>set (cm_precommits (commit_of_compact compact)). pc_target_number (sp_precommit sp) = number (pc_target_hash (sp_precommit sp))"
  using assms by (auto simp: commits_ok_def commit_of_compact_def dest: set_zip_leftD)

lemma set_AList_update: "x \<in> set (AList.update k y al) \<Longrightarrow> x = (k, y) \<or> x \<in> set al"
  by (induction al) (auto split: if_splits)

lemma validated_backed:
  assumes "block_chain par number anc" "voters_ok voters"
    "cm_target_number c = number (cm_target_hash c)"
    "\<forall>sp\<in>set (cm_precommits c). pc_target_number (sp_precommit sp) = number (pc_target_hash (sp_precommit sp))"
    "validate_commit anc c voters = Some (Inr (Some (h, n)))"
  shows "supermajority_commit par number voters h n c"
  using validate_commit_backed [OF assms] by (simp add: supermajority_commit_def commit_backers_def)

lemma retain_rounds_kept:
  "(rn, rc) \<in> set (fst (retain_rounds timer heap rounds)) \<Longrightarrow>
     \<exists>rc0. (rn, rc0) \<in> set rounds \<and> rc_voting_round rc = rc_voting_round rc0"
proof (induction rounds)
  case (Cons x rounds)
  obtain rn0 rc0 where x: "x = (rn0, rc0)" by (cases x)
  obtain kept commits where k: "retain_rounds timer heap rounds = (kept, commits)" by (cases "retain_rounds timer heap rounds")
  have "(rn, rc) \<in> set kept \<or> rn = rn0 \<and> rc_voting_round rc = rc_voting_round rc0"
    using Cons.prems x k
    by (auto simp: Let_def round_commit_def split: sum.splits bool.splits option.splits prod.splits if_splits)
  then show ?case using Cons.IH k x by auto
qed simp

lemma unat_top: "unat (- 1 :: u64) = 2 ^ 64 - 1" "unat (- 2 :: u64) = 2 ^ 64 - 2"
  by (simp_all add: unsigned_minus_1_eq_mask mask_eq_exp_minus_1)

lemma next_number: "(b :: u64) < - 1 \<Longrightarrow> b < b + 1"
proof -
  assume "b < - 1"
  then have "unat (b + 1) = unat b + 1"
    by (simp add: word_less_nat_alt unat_top unat_word_ariths)
  then show ?thesis by (simp add: word_less_nat_alt)
qed

lemma later_number:
  assumes "(b :: u64) < - 1" "b + 1 < rn" "rn < - 2"
  shows "b < rn + 1" "rn + 1 < - 1"
proof -
  have r: "unat rn < 2 ^ 64 - 2" using assms(3) by (simp add: word_less_nat_alt unat_top)
  then have n: "unat (rn + 1) = unat rn + 1" by (simp add: unat_word_ariths)
  show "rn + 1 < - 1" using r n by (simp add: word_less_nat_alt unat_top)
  have "b < rn" using next_number [OF assms(1)] assms(2) by (rule less_trans)
  then show "b < rn + 1" using n by (simp add: word_less_nat_alt)
qed

lemma finalized_number:
  assumes "round_good par number voters r" "rd_finalized r = Some f"
  shows "f = (fst f, number (fst f))"
  using assms by (cases f) (auto simp: round_good_def round_inv_def marked_def)

lemma voting_round_new_number [simp]: "round_number (voting_round_new n voters base l) = n"
  by (simp add: voting_round_new_def round_new_number)

lemma voter_ok_output [simp]:
  "voter_ok par number einv (v\<lparr>vo_committer_outgoing := x\<rparr>) = voter_ok par number einv v"
  "voter_ok par number einv (v\<lparr>vo_committer_sent := x\<rparr>) = voter_ok par number einv v"
  by (simp_all add: voter_ok_def voter_rounds_def order_ok_def references_ok_def)

lemma bridge_state_rounds:
  assumes "bridge_state vr sh = (b, vr', sh')" "rounds_ok par number voters sh (vr # rs)"
  shows "rounds_ok par number voters sh' (vr' # rs)" "vr_votes vr' = vr_votes vr" "sh_sent sh' = sh_sent sh"
proof -
  have e: "vr' = vr\<lparr>vr_bridged_round_state := Some b\<rparr>" "sh' = sh\<lparr>sh_bridged := sh_bridged sh @ [round_state (vr_votes vr)]\<rparr>"
    using assms(1) by (auto simp: bridge_state_def Let_def)
  have "rounds_ok par number voters sh' (vr # rs)" by (rule rounds_ok_shared [OF assms(2)]) (simp_all add: e)
  then show "rounds_ok par number voters sh' (vr' # rs)" by (rule rounds_ok_fields) (simp_all add: e)
  show "vr_votes vr' = vr_votes vr" "sh_sent sh' = sh_sent sh" by (simp_all add: e)
qed

section \<open>The environment of a voter\<close>

text \<open>The environment: a chain, and a relation between its state and the last finalized number that its operations keep.\<close>

locale voter_environment =
  fixes par :: "'h::linorder \<rightharpoonup> 'h" and number :: "'h \<Rightarrow> u64" and voters :: "'i VoterSet"
    and env :: "('i, 'h, 's, 'e) Environment" and einv :: "'e \<Rightarrow> u64 \<Rightarrow> bool"
  assumes chain: "block_chain par number (ev_ancestry env)"
    and completed_keeps: "einv e n \<Longrightarrow> einv (snd (ev_completed env r st e)) n"
    and finalize_keeps: "einv e m \<Longrightarrow> m < n \<Longrightarrow> supermajority_commit par number voters h n c \<Longrightarrow>
      einv (snd (ev_finalize_block env h n r c e)) n"
begin

abbreviation ok :: "('i, 'h, 's, 'e) Voter \<Rightarrow> bool" where
  "ok v \<equiv> voter_ok par number einv v \<and> vo_voters v = voters"

lemma chain_of_ancestry [simp]: "ch_ancestry (chain_of env e) = ev_ancestry env"
  by (simp add: chain_of_def)

lemma okD:
  assumes "ok v"
  shows "voters_ok voters" "rounds_ok par number voters (vo_shared v) (voter_rounds v)" "order_ok v" "references_ok v"
    "snd (vo_last_finalized_in_rounds v) = number (fst (vo_last_finalized_in_rounds v))"
    "einv (vo_env v) (vo_last_finalized_number v)" "vo_voters v = voters"
  using assms by (auto simp: voter_ok_def)

lemma okI:
  assumes "voters_ok voters" "rounds_ok par number voters (vo_shared v) (voter_rounds v)" "order_ok v" "references_ok v"
    "snd (vo_last_finalized_in_rounds v) = number (fst (vo_last_finalized_in_rounds v))"
    "einv (vo_env v) (vo_last_finalized_number v)" "vo_voters v = voters"
  shows "ok v"
  using assms by (auto simp: voter_ok_def)

lemma poll_kept_round:
  assumes "rounds_ok par number voters sh rs" "vr \<in> set rs" "input_ok number inp"
    and "voting_round_poll (chain_of env e) inp vr sh = Some (res, vr', sh')"
  shows "poll_kept par number voters vr sh vr' sh'"
  by (rule voting_round_poll_kept [OF _ _ assms(3,4)]) (use assms(1,2) chain in \<open>auto simp: rounds_ok_def\<close>)

text \<open>A round of the store is replaced by one with the same number.\<close>

lemma heap_update:
  assumes ok: "ok v" and a: "a < length (vo_heap v)" and n: "round_number vr = round_number (vo_heap v ! a)"
    and r: "\<And>rs. rounds_ok par number voters (vo_shared v) (vo_heap v ! a # rs) \<Longrightarrow> rounds_ok par number voters sh (vr # rs)"
    and s: "\<forall>x\<in>set (sh_sent sh). x \<in> set (sh_sent (vo_shared v)) \<or> fst x = round_number (vo_heap v ! a)"
  shows "ok (v\<lparr>vo_heap := (vo_heap v)[a := vr], vo_shared := sh\<rparr>)"
proof (rule okI)
  let ?v = "v\<lparr>vo_heap := (vo_heap v)[a := vr], vo_shared := sh\<rparr>"
  let ?rest = "vo_best_round v # (case vo_prospective_round v of None \<Rightarrow> [] | Some p \<Rightarrow> [p]) @ take a (vo_heap v) @ drop (Suc a) (vo_heap v)"
  note o = okD [OF ok]
  have "mset (voter_rounds v) = mset (vo_heap v ! a # ?rest)"
    unfolding voter_rounds_def by (subst id_take_nth_drop [OF a]) simp
  from rounds_ok_mset [OF this o(2)] have new: "rounds_ok par number voters sh (vr # ?rest)" by (rule r)
  have "mset (vr # ?rest) = mset (voter_rounds ?v)"
    by (simp add: voter_rounds_def upd_conv_take_nth_drop [OF a])
  from rounds_ok_mset [OF this new] show "rounds_ok par number voters (vo_shared ?v) (voter_rounds ?v)" by simp
  have below: "round_number (vo_heap v ! a) < round_number (vo_best_round v)" using o(3) a by (simp add: order_ok_def)
  have "round_number x < round_number (vo_best_round v)" if x: "x \<in> set ((vo_heap v)[a := vr])" for x
  proof -
    have "x = vr \<or> x \<in> set (vo_heap v)" using x set_update_subset_insert [of "vo_heap v" a vr] by blast
    then show ?thesis using below n o(3) by (auto simp: order_ok_def)
  qed
  moreover have "fst x \<le> round_number (vo_best_round v)" if "x \<in> set (sh_sent sh)" for x
    using s that below o(3) by (auto simp: order_ok_def)
  ultimately show "order_ok ?v" using o(3) by (simp add: order_ok_def)
  have "round_number ((vo_heap v)[a := vr] ! k) = round_number (vo_heap v ! k)" for k
    using n by (cases "k = a") (simp_all add: nth_list_update a)
  then show "references_ok ?v" using o(4) by (simp add: references_ok_def)
qed (use okD [OF ok] in simp_all)

lemma background_poll_ok:
  assumes ok: "ok v" and bg: "bg \<in> set (vo_past_rounds v)" and inp: "input_ok number inp"
    and poll: "background_poll env inp bg v = Some (res, v')"
  shows "ok v'" "vo_past_rounds v' = vo_past_rounds v" "vo_best_round v' = vo_best_round v"
proof -
  let ?vr = "vo_heap v ! br_inner bg"
  obtain res' vr' sh' where p: "voting_round_poll (chain_of env (vo_env v)) inp ?vr (vo_shared v) = Some (res', vr', sh')"
    using poll by (auto simp: background_poll_def split: option.splits)
  then have v': "v' = v\<lparr>vo_heap := (vo_heap v)[br_inner bg := vr'], vo_shared := sh'\<rparr>"
    using poll by (auto simp: background_poll_def Let_def split: sum.splits)
  have a: "br_inner bg < length (vo_heap v)" using okD(4) [OF ok] bg by (simp add: references_ok_def)
  then have "?vr \<in> set (voter_rounds v)" by (simp add: voter_rounds_def)
  note kept = poll_kept_round [OF okD(2) [OF ok] this inp p]
  have "round_number vr' = round_number ?vr" using kept by (simp add: poll_kept_def same_round_def)
  moreover have "\<forall>x\<in>set (sh_sent sh'). x \<in> set (sh_sent (vo_shared v)) \<or> fst x = round_number ?vr"
    using kept by (auto simp: poll_kept_def)
  ultimately show "ok v'" unfolding v' by (intro heap_update ok a) (auto intro: rounds_ok_poll [OF _ kept])
  show "vo_past_rounds v' = vo_past_rounds v" "vo_best_round v' = vo_best_round v" by (simp_all add: v')
qed

lemma ok_past: "ok v \<Longrightarrow> br_inner ` set bgs \<subseteq> br_inner ` set (vo_past_rounds v) \<Longrightarrow> ok (v\<lparr>vo_past_rounds := bgs\<rparr>)"
  by (force simp: voter_ok_def voter_rounds_def order_ok_def references_ok_def)

lemma poll_past_rounds_ok:
  assumes "ok v" "\<forall>(a, i)\<in>set schedule. input_ok number i" "poll_past_rounds env schedule v = Some (res, v')"
  shows "ok v' \<and> vo_best_round v' = vo_best_round v"
  using assms
proof (induction schedule arbitrary: v)
  case (Cons x schedule)
  obtain a inp where x: "x = (a, inp)" by (cases x)
  have inps: "input_ok number inp" "\<forall>(a, i)\<in>set schedule. input_ok number i" using Cons.prems(2) x by auto
  show ?case
  proof (cases "find (\<lambda>bg. br_inner bg = a) (vo_past_rounds v)")
    case None
    then show ?thesis using Cons x inps by auto
  next
    case (Some bg)
    then have bg: "bg \<in> set (vo_past_rounds v)" by (auto simp: find_Some_iff)
    obtain res1 v1 where v1: "background_poll env inp bg v = Some (res1, v1)"
      using Cons.prems(3) x Some by (auto split: option.splits)
    note k = background_poll_ok [OF Cons.prems(1) bg inps(1) v1]
    have rem: "ok (v1\<lparr>vo_past_rounds := removeAll bg (vo_past_rounds v1)\<rparr>)" by (rule ok_past [OF k(1)]) auto
    show ?thesis
    proof (cases res1)
      case (Inl e)
      then show ?thesis using Cons.prems(3) x Some v1 rem k(3) by auto
    next
      case (Inr finished)
      then show ?thesis
        using Cons.IH [OF _ inps(2), of "if finished then v1\<lparr>vo_past_rounds := removeAll bg (vo_past_rounds v1)\<rparr> else v1"]
          Cons.prems(3) x Some v1 rem k by (cases finished) simp_all
    qed
  qed
qed auto

lemma ok_finalized:
  assumes "ok v" "m \<le> vo_last_finalized_number v \<Longrightarrow> einv e (vo_last_finalized_number v)"
    "vo_last_finalized_number v < m \<Longrightarrow> einv e m"
  shows "ok ((snd (set_last_finalized_number m v))\<lparr>vo_env := e\<rparr>)"
  using assms by (auto simp: voter_ok_def voter_rounds_def order_ok_def references_ok_def set_last_finalized_number_def)

lemma ok_in_rounds: "ok v \<Longrightarrow> n = number h \<Longrightarrow> ok (v\<lparr>vo_last_finalized_in_rounds := (h, n)\<rparr>)"
  by (auto simp: voter_ok_def voter_rounds_def order_ok_def references_ok_def)

lemma ok_notifications:
  assumes "ok v" "set ns \<subseteq> set (sh_notifications (vo_shared v))"
  shows "ok (v\<lparr>vo_shared := vo_shared v\<lparr>sh_notifications := ns\<rparr>\<rparr>)"
proof -
  have "rounds_ok par number voters (vo_shared v\<lparr>sh_notifications := ns\<rparr>) (voter_rounds v)"
    by (rule rounds_ok_shared [OF okD(2) [OF assms(1)]]) (use assms(2) in auto)
  then show ?thesis using assms(1) by (auto simp: voter_ok_def voter_rounds_def order_ok_def references_ok_def)
qed

lemma finalize_ok:
  assumes ok: "ok v" and h: "supermajority_commit par number voters h n c"
    and s: "set_last_finalized_number n v = (b, v1)"
    and e: "(if b then ev_finalize_block env h n r c (vo_env v1) else (Inr (), vo_env v1)) = (res, e)"
  shows "ok (v1\<lparr>vo_env := e\<rparr>)"
proof -
  have "ok ((snd (set_last_finalized_number n v))\<lparr>vo_env := e\<rparr>)"
  proof (rule ok_finalized [OF ok])
    assume "n \<le> vo_last_finalized_number v"
    then have "\<not> b" "v1 = v" using s by (auto simp: set_last_finalized_number_def split: if_splits)
    then show "einv e (vo_last_finalized_number v)" using e okD(6) [OF ok] by simp
  next
    assume l: "vo_last_finalized_number v < n"
    then have "b" "vo_env v1 = vo_env v" using s by (auto simp: set_last_finalized_number_def split: if_splits)
    then have "e = snd (ev_finalize_block env h n r c (vo_env v))" using e by simp
    then show "einv e n" using finalize_keeps [OF okD(6) [OF ok] l h] by simp
  qed
  then show ?thesis using s by simp
qed

lemma process_notifications_ok:
  assumes "ok v" "set ns \<subseteq> set (sh_notifications (vo_shared v))" "process_notifications env ns v = (res, v')"
  shows "ok v' \<and> vo_best_round v' = vo_best_round v"
  using assms
proof (induction ns arbitrary: v)
  case Nil
  then show ?case using ok_notifications [OF Nil(1), of "[]"] by auto
next
  case (Cons x ns)
  obtain h n r c where x: "x = (h, n, r, c)" by (cases x)
  let ?v0 = "v\<lparr>vo_past_rounds := map (background_update_finalized n) (vo_past_rounds v)\<rparr>"
  obtain b v1 where s: "set_last_finalized_number n ?v0 = (b, v1)" by (cases "set_last_finalized_number n ?v0")
  obtain res1 e where e: "(if b then ev_finalize_block env h n r c (vo_env v1) else (Inr (), vo_env v1)) = (res1, e)"
    by (metis surj_pair)
  let ?v2 = "v1\<lparr>vo_env := e\<rparr>"
  have h: "supermajority_commit par number voters h n c"
    using okD(2) [OF Cons.prems(1)] Cons.prems(2) x by (auto simp: rounds_ok_def notice_ok_def)
  have "ok ?v0" by (rule ok_past [OF Cons.prems(1)]) (auto simp: background_update_finalized_def)
  from finalize_ok [OF this h s e] have ok2: "ok ?v2" .
  have f: "vo_best_round ?v2 = vo_best_round v" "vo_shared ?v2 = vo_shared v"
    using s by (auto simp: set_last_finalized_number_def split: if_splits)
  have sub: "set ns \<subseteq> set (sh_notifications (vo_shared ?v2))" using Cons.prems(2) f by simp
  let ?v3 = "if snd (vo_last_finalized_in_rounds ?v2) < n then ?v2\<lparr>vo_last_finalized_in_rounds := (h, n)\<rparr> else ?v2"
  have ok3: "ok ?v3" using ok2 ok_in_rounds [OF ok2] h by (simp add: supermajority_commit_def)
  have run: "process_notifications env (x # ns) v = (case res1 of
      Inl e \<Rightarrow> (Inl e, ?v2\<lparr>vo_shared := vo_shared ?v2\<lparr>sh_notifications := ns\<rparr>\<rparr>)
    | Inr _ \<Rightarrow> process_notifications env ns ?v3)"
    unfolding x process_notifications.simps Let_def s prod.case e ..
  show ?case
  proof (cases res1)
    case (Inl err)
    then have "v' = ?v2\<lparr>vo_shared := vo_shared ?v2\<lparr>sh_notifications := ns\<rparr>\<rparr>" using Cons.prems(3) run by simp
    then show ?thesis using ok_notifications [OF ok2 sub] f by simp
  next
    case (Inr u)
    then have "process_notifications env ns ?v3 = (res, v')" using Cons.prems(3) run by simp
    from Cons.IH [OF ok3 _ this] show ?thesis using sub f by simp
  qed
qed

lemma prune_ok:
  assumes "ok v" "\<forall>(a, i)\<in>set schedule. input_ok number i" "prune_background_rounds env schedule v = Some (res, v')"
  shows "ok v' \<and> vo_best_round v' = vo_best_round v"
proof -
  obtain res1 v1 where v1: "poll_past_rounds env schedule v = Some (res1, v1)"
    using assms(3) by (auto simp: prune_background_rounds_def split: option.splits)
  note k = poll_past_rounds_ok [OF assms(1,2) v1]
  show ?thesis
  proof (cases res1)
    case (Inl e)
    then show ?thesis using assms(3) v1 k by (simp add: prune_background_rounds_def)
  next
    case (Inr u)
    then have "process_notifications env (sh_notifications (vo_shared v1)) v1 = (res, v')"
      using assms(3) v1 by (simp add: prune_background_rounds_def)
    then show ?thesis using process_notifications_ok [OF conjunct1 [OF k]] k by auto
  qed
qed

lemma ok_committer_rounds:
  assumes "ok v" "\<forall>(rn, rc)\<in>set rounds. rc_voting_round rc < length (vo_heap v)
      \<and> rn = round_number (vo_heap v ! rc_voting_round rc)"
  shows "ok (v\<lparr>vo_committer_rounds := rounds\<rparr>)"
  by (rule okI) (use okD [OF assms(1)] assms(2) in \<open>auto simp: voter_rounds_def order_ok_def references_ok_def\<close>)

lemma committer_import_ok:
  assumes ok: "ok v" and rc: "map_of (vo_committer_rounds v) rn = Some rc"
    and n: "\<forall>sp\<in>set (cm_precommits c). pc_target_number (sp_precommit sp) = number (pc_target_hash (sp_precommit sp))"
    and run: "round_import_commit (ev_ancestry env) c rc (vo_heap v ! rc_voting_round rc) = Some (res, rc', vr)"
  shows "ok (v\<lparr>vo_committer_rounds := AList.update rn rc' (vo_committer_rounds v),
    vo_heap := (vo_heap v)[rc_voting_round rc := vr]\<rparr>)"
proof -
  let ?a = "rc_voting_round rc"
  have "(rn, rc) \<in> set (vo_committer_rounds v)" using rc by (rule map_of_SomeD)
  then have a: "?a < length (vo_heap v)" "rn = round_number (vo_heap v ! ?a)" using okD(4) [OF ok] by (auto simp: references_ok_def)
  then have "vo_heap v ! ?a \<in> set (voter_rounds v)" by (simp add: voter_rounds_def)
  then have good: "round_good par number voters (vr_votes (vo_heap v ! ?a))" using okD(2) [OF ok] by (simp add: rounds_ok_def)
  obtain votes where v: "rc_voting_round rc' = ?a" "vr = (vo_heap v ! ?a)\<lparr>vr_votes := votes\<rparr>" "round_good par number voters votes"
    "same_round (vr_votes (vo_heap v ! ?a)) votes" using round_import_commit_kept [OF chain good n run] by blast
  have num: "round_number vr = round_number (vo_heap v ! ?a)" using v by (simp add: same_round_def)
  have "ok (v\<lparr>vo_heap := (vo_heap v)[?a := vr], vo_shared := vo_shared v\<rparr>)"
    by (rule heap_update [OF ok a(1) num]) (use rounds_ok_votes [OF _ v(3,4)] v(2) in auto)
  then have ok1: "ok (v\<lparr>vo_heap := (vo_heap v)[?a := vr]\<rparr>)" by simp
  have "\<forall>(rn', r)\<in>set (AList.update rn rc' (vo_committer_rounds v)). rc_voting_round r < length (vo_heap v)
      \<and> rn' = round_number ((vo_heap v)[?a := vr] ! rc_voting_round r)"
  proof clarify
    fix rn' r
    assume "(rn', r) \<in> set (AList.update rn rc' (vo_committer_rounds v))"
    then consider "rn' = rn" "r = rc'" | "(rn', r) \<in> set (vo_committer_rounds v)" using set_AList_update by fastforce
    then show "rc_voting_round r < length (vo_heap v) \<and> rn' = round_number ((vo_heap v)[?a := vr] ! rc_voting_round r)"
    proof cases
      case 1
      then show ?thesis using a v(1) num by simp
    next
      case 2
      then show ?thesis using okD(4) [OF ok] num by (cases "rc_voting_round r = ?a") (auto simp: references_ok_def)
    qed
  qed
  with ok_committer_rounds [OF ok1, of "AList.update rn rc' (vo_committer_rounds v)"]
  have "ok (v\<lparr>vo_heap := (vo_heap v)[?a := vr], vo_committer_rounds := AList.update rn rc' (vo_committer_rounds v)\<rparr>)" by simp
  moreover have "v\<lparr>vo_heap := (vo_heap v)[?a := vr], vo_committer_rounds := AList.update rn rc' (vo_committer_rounds v)\<rparr>
      = v\<lparr>vo_committer_rounds := AList.update rn rc' (vo_committer_rounds v), vo_heap := (vo_heap v)[?a := vr]\<rparr>"
    by (cases v) simp
  ultimately show ?thesis by simp
qed

lemma committer_process_incoming_ok:
  assumes "ok v" "commits_ok number incoming" "\<forall>n c. highest = Some (n, c) \<longrightarrow> n < - 2"
    and "committer_process_incoming env incoming highest v = Some (res, v')"
  shows "ok v' \<and> vo_best_round v' = vo_best_round v \<and> (\<forall>n c. res = Inr (Some (n, c)) \<longrightarrow> n < - 2)"
  using assms
proof (induction incoming arbitrary: highest v)
  case (Cons x incoming)
  have inc: "commits_ok number incoming" using Cons.prems(2) by (simp add: commits_ok_def)
  show ?case
  proof (cases x)
    case (Inl e)
    then show ?thesis using Cons.prems by auto
  next
    case (Inr y)
    obtain rn compact where y: "x = Inr (rn, compact)" using Inr by (cases y) auto
    let ?c = "commit_of_compact compact"
    have mem: "Inr (rn, compact) \<in> set (x # incoming)" using y by simp
    have c: "rn < - 2" "cm_target_number ?c = number (cm_target_hash ?c)"
      "\<forall>sp\<in>set (cm_precommits ?c). pc_target_number (sp_precommit sp) = number (pc_target_hash (sp_precommit sp))"
      by (rule commit_of_compact_numbers [OF Cons.prems(2) mem])+
    show ?thesis
    proof (cases "map_of (vo_committer_rounds v) rn")
      case (Some rc)
      obtain res1 rc' vr where r: "round_import_commit (ev_ancestry env) ?c rc (vo_heap v ! rc_voting_round rc) = Some (res1, rc', vr)"
        using Cons.prems(4) y Some by (auto simp: Let_def split: option.splits)
      let ?v1 = "v\<lparr>vo_committer_rounds := AList.update rn rc' (vo_committer_rounds v), vo_heap := (vo_heap v)[rc_voting_round rc := vr]\<rparr>"
      have ok1: "ok ?v1" by (rule committer_import_ok [OF Cons.prems(1) Some c(3) r])
      show ?thesis
        using Cons.prems(3,4) y Some r ok1 Cons.IH [OF ok1 inc Cons.prems(3)] by (cases res1) (auto simp: Let_def)
    next
      case None
      obtain x1 where x1: "validate_commit (ev_ancestry env) ?c (vo_voters v) = Some x1"
        using Cons.prems(4) y None by (auto simp: Let_def split: option.splits)
      consider (err) "x1 = Inl ()" | (invalid) "x1 = Inr None" | (valid) h n where "x1 = Inr (Some (h, n))"
        by (metis old.unit.exhaust option.exhaust sum.exhaust surj_pair)
      then show ?thesis
      proof cases
        case err
        then show ?thesis using Cons.prems y None x1 by (auto simp: Let_def)
      next
        case invalid
        then show ?thesis using Cons.prems y None x1 Cons.IH [OF Cons.prems(1) inc Cons.prems(3)] by (auto simp: Let_def)
      next
        case valid
        have h: "supermajority_commit par number voters h n ?c"
          using validated_backed [OF chain okD(1) [OF Cons.prems(1)] c(2,3)] x1 valid okD(7) [OF Cons.prems(1)] by simp
        define top where "top = (case highest of Some (n, _) \<Rightarrow> if rn \<le> n then highest else Some (rn, ?c) | None \<Rightarrow> Some (rn, ?c))"
        have top: "\<forall>n c. top = Some (n, c) \<longrightarrow> n < - 2"
          using Cons.prems(3) c(1) by (auto simp: top_def split: option.splits if_splits)
        obtain b v1 where s: "set_last_finalized_number n v = (b, v1)" by (cases "set_last_finalized_number n v")
        obtain res1 e where e: "(if b then ev_finalize_block env h n rn ?c (vo_env v1) else (Inr (), vo_env v1)) = (res1, e)"
          by (metis surj_pair)
        have ok1: "ok (v1\<lparr>vo_env := e\<rparr>)" by (rule finalize_ok [OF Cons.prems(1) h s e])
        have best: "vo_best_round v1 = vo_best_round v" using s by (auto simp: set_last_finalized_number_def split: if_splits)
        have "(case res1 of Inl e' \<Rightarrow> Some (Inl e', v1\<lparr>vo_env := e\<rparr>)
            | Inr _ \<Rightarrow> committer_process_incoming env incoming top (v1\<lparr>vo_env := e\<rparr>)) = Some (res, v')"
          using Cons.prems(4) unfolding y committer_process_incoming.simps Let_def None option.case x1 valid sum.case prod.case s e top_def .
        then show ?thesis using ok1 best Cons.IH [OF ok1 inc top] by (cases res1) auto
      qed
    qed
  qed
qed auto

lemma process_timers_ok: "ok v \<Longrightarrow> ok (process_timers timer v) \<and> vo_best_round (process_timers timer v) = vo_best_round v
    \<and> vo_prospective_round (process_timers timer v) = vo_prospective_round v"
proof -
  assume ok: "ok v"
  obtain kept commits where k: "retain_rounds timer (vo_heap v) (vo_committer_rounds v) = (kept, commits)"
    by (cases "retain_rounds timer (vo_heap v) (vo_committer_rounds v)")
  have "ok (v\<lparr>vo_committer_rounds := kept\<rparr>)"
    by (rule ok_committer_rounds [OF ok]) (use retain_rounds_kept [of _ _ timer "vo_heap v" "vo_committer_rounds v"] k okD(4) [OF ok]
      in \<open>fastforce simp: references_ok_def\<close>)
  then have "ok (v\<lparr>vo_committer_rounds := kept, vo_committer_outgoing := vo_committer_outgoing v @ commits\<rparr>)" by simp
  then show ?thesis using k by (simp add: process_timers_def)
qed

lemma committer_poll_ok:
  assumes ok: "ok v" and inp: "commits_ok number (vi_commits inp)" and run: "committer_poll env inp v = Some (res, v')"
  shows "ok v' \<and> vo_best_round v' = vo_best_round v \<and> (\<forall>n c. res = Inr (Some (n, c)) \<longrightarrow> n < - 2)"
proof -
  obtain res1 v1 where v1: "committer_process_incoming env (vi_commits inp) None v = Some (res1, v1)"
    using run by (auto simp: committer_poll_def split: option.splits)
  note k = committer_process_incoming_ok [OF ok inp _ v1]
  show ?thesis
  proof (cases res1)
    case (Inl e)
    then show ?thesis using run v1 k by (auto simp: committer_poll_def)
  next
    case (Inr highest)
    let ?v2 = "process_timers (vi_commit_timer inp) v1"
    obtain r2 buffer sent where b: "buffered_poll (vi_commit_send inp) (vi_commit_complete inp) (vo_committer_outgoing ?v2)
        (vo_committer_sent ?v2) = (r2, buffer, sent)" by (metis prod_cases3)
    have "ok (?v2\<lparr>vo_committer_outgoing := buffer, vo_committer_sent := sent\<rparr>)"
      using process_timers_ok [of v1] k by simp
    moreover have "v' = ?v2\<lparr>vo_committer_outgoing := buffer, vo_committer_sent := sent\<rparr>" "\<forall>c. res = Inr c \<longrightarrow> c = highest"
      using run v1 Inr b by (auto simp: committer_poll_def Let_def split: sum.splits)
    ultimately show ?thesis using process_timers_ok [of v1] k Inr by auto
  qed
qed

lemma ok_prospective:
  assumes ok: "ok v" and n: "round_number (vo_best_round v) < n" "n < - 1" and base: "base = (b, number b)"
  shows "ok (v\<lparr>vo_prospective_round := Some (voting_round_new n voters base None)\<rparr>)" (is "ok ?v")
proof (rule okI)
  note o = okD [OF ok]
  have "rounds_ok par number voters (vo_shared v) (vo_best_round v # vo_heap v)"
    using o(2) by (cases "vo_prospective_round v") (auto simp: voter_rounds_def rounds_ok_def)
  then have "rounds_ok par number voters (vo_shared v) (voting_round_new n voters base None # vo_best_round v # vo_heap v)"
    by (rule rounds_ok_new [where number = number and b = b]) (use o(1,3) n base in \<open>auto simp: order_ok_def\<close>)
  then have "rounds_ok par number voters (vo_shared v) (voter_rounds ?v)"
    by (rule rounds_ok_mset [rotated]) (simp add: voter_rounds_def)
  then show "rounds_ok par number voters (vo_shared ?v) (voter_rounds ?v)" by simp
  show "order_ok ?v" using o(3) n by (simp add: order_ok_def voting_round_new_def round_new_number)
  show "references_ok ?v" using o(4) by (simp add: references_ok_def)
qed (use okD [OF ok] in simp_all)

lemma process_commits_ok:
  assumes ok: "ok v" and inp: "commits_ok number (vi_commits inp)" and run: "process_commits env inp v = Some (res, v')"
    and b: "round_number (vo_best_round v) < - 1"
  shows "ok v' \<and> vo_best_round v' = vo_best_round v"
proof -
  obtain res1 v1 where v1: "committer_poll env inp v = Some (res1, v1)" using run by (auto simp: process_commits_def split: option.splits)
  note k = committer_poll_ok [OF ok inp v1]
  then have o: "ok v1" by simp
  define base where "base = (case (case vo_prospective_round v1 of None \<Rightarrow> None | Some r \<Rightarrow> rd_finalized (vr_votes r)) of
      Some f \<Rightarrow> f | None \<Rightarrow> (case rd_finalized (vr_votes (vo_best_round v1)) of Some f \<Rightarrow> f | None \<Rightarrow> vo_last_finalized_in_rounds v1))"
  have good: "\<forall>vr\<in>set (voter_rounds v1). round_good par number voters (vr_votes vr)" using okD(2) [OF o] by (simp add: rounds_ok_def)
  have base: "base = (fst base, number (fst base))"
    using good finalized_number okD(5) [OF o]
    by (auto simp: base_def voter_rounds_def prod_eq_iff split: option.splits)
  have "v' = v1 \<or> (\<exists>n c. res1 = Inr (Some (n, c)) \<and> round_number (vo_best_round v1) + 1 < n
      \<and> v' = v1\<lparr>vo_prospective_round := Some (voting_round_new (n + 1) (vo_voters v1) base None)\<rparr>)"
    using run v1 unfolding process_commits_def base_def by (auto simp: Let_def split: sum.splits option.splits if_splits)
  then show ?thesis
  proof (elim disjE exE conjE)
    fix n c
    assume n: "res1 = Inr (Some (n, c))" "round_number (vo_best_round v1) + 1 < n"
      "v' = v1\<lparr>vo_prospective_round := Some (voting_round_new (n + 1) (vo_voters v1) base None)\<rparr>"
    have "n < - 2" "vo_best_round v1 = vo_best_round v" using k n(1) by auto
    then show ?thesis
      using ok_prospective [OF o later_number [OF _ n(2)] base] b n(3) okD(7) [OF o] by simp
  qed (use k in simp)
qed

text \<open>What the invariant says apart from the rounds.\<close>

definition base_ok :: "('i, 'h, 's, 'e) Voter \<Rightarrow> bool" where
  "base_ok v \<longleftrightarrow> voters_ok voters \<and> references_ok v
     \<and> snd (vo_last_finalized_in_rounds v) = number (fst (vo_last_finalized_in_rounds v))
     \<and> einv (vo_env v) (vo_last_finalized_number v) \<and> vo_voters v = voters"

lemma ok_base: "ok v \<Longrightarrow> base_ok v"
  by (auto simp: voter_ok_def base_ok_def)

lemma base_ok_update [simp]:
  "base_ok (v\<lparr>vo_shared := sh\<rparr>) = base_ok v" "base_ok (v\<lparr>vo_best_round := r\<rparr>) = base_ok v"
  "base_ok (v\<lparr>vo_prospective_round := p\<rparr>) = base_ok v"
  by (simp_all add: base_ok_def references_ok_def)

lemma base_ok_rounds:
  assumes "base_ok v" "rounds_ok par number voters (vo_shared v) (voter_rounds v)" "order_ok v"
  shows "ok v"
  by (rule okI) (use assms in \<open>simp_all add: base_ok_def\<close>)

lemma ok_next:
  assumes b: "base_ok v" and p: "vo_prospective_round v = None" and e: "einv e (vo_last_finalized_number v)"
    and r: "rounds_ok par number voters sh (nxt # old # vo_heap v)"
    and n: "\<forall>vr\<in>set (old # vo_heap v). round_number vr < round_number nxt" "\<forall>x\<in>set (sh_sent sh). fst x \<le> round_number nxt"
  shows "ok (v\<lparr>vo_env := e, vo_best_round := nxt, vo_shared := sh, vo_heap := vo_heap v @ [old],
      vo_past_rounds := vo_past_rounds v @ [\<lparr>br_inner = length (vo_heap v), br_finalized_number = 0\<rparr>]\<rparr>)" (is "ok ?v")
proof (rule base_ok_rounds)
  have "references_ok ?v" using b by (fastforce simp: base_ok_def references_ok_def nth_append)
  then show "base_ok ?v" using b e by (simp add: base_ok_def)
  have "rounds_ok par number voters sh (voter_rounds ?v)"
    by (rule rounds_ok_mset [OF _ r]) (simp add: voter_rounds_def p)
  then show "rounds_ok par number voters (vo_shared ?v) (voter_rounds ?v)" by simp
  show "order_ok ?v" using n p by (simp add: order_ok_def)
qed

lemma committer_push_ok:
  assumes "ok v" "a < length (vo_heap v)" "rn = round_number (vo_heap v ! a)" "committer_push rn a v = Some v'"
  shows "ok v'"
proof -
  have v': "v' = v\<lparr>vo_committer_rounds := vo_committer_rounds v @ [(rn, \<lparr>rc_voting_round = a, rc_last_commit = None\<rparr>)]\<rparr>"
    using assms(4) by (simp add: committer_push_def split: if_splits)
  show ?thesis unfolding v' by (rule ok_committer_rounds [OF assms(1)]) (use assms(2,3) okD(4) [OF assms(1)] in \<open>auto simp: references_ok_def\<close>)
qed

lemma ok_env: "ok v \<Longrightarrow> einv e (vo_last_finalized_number v) \<Longrightarrow> ok (v\<lparr>vo_env := e\<rparr>)"
  by (auto simp: voter_ok_def voter_rounds_def order_ok_def references_ok_def)

text \<open>The best round is done; the next one is new, or is the prospective round that it has caught up with.\<close>

lemma completed_best_round_new:
  assumes ok: "ok v" and p: "vo_prospective_round v = None" and n: "round_number (vo_best_round v) < - 1"
    and run: "completed_best_round env None v = Some (res, v')"
  shows "ok v'"
proof -
  let ?best = "vo_best_round v"
  obtain r1 e where c: "ev_completed env (round_number ?best) (round_state (vr_votes ?best)) (vo_env v) = (r1, e)" by (metis surj_pair)
  have e: "einv e (vo_last_finalized_number v)" using completed_keeps [OF okD(6) [OF ok]] c by (metis snd_conv)
  show ?thesis
  proof (cases r1)
    case (Inl err)
    then have "v' = v\<lparr>vo_env := e\<rparr>" using run c by (simp add: completed_best_round_def Let_def)
    then show ?thesis using ok_env [OF ok e] by simp
  next
    case (Inr u)
    obtain b best sh where br: "bridge_state ?best (vo_shared v) = (b, best, sh)" by (metis prod_cases3)
    let ?nxt = "voting_round_new (round_number ?best + 1) (vo_voters v) (vo_last_finalized_in_rounds v) (Some b)"
    let ?v1 = "v\<lparr>vo_env := e, vo_best_round := ?nxt, vo_shared := sh, vo_heap := vo_heap v @ [best],
      vo_past_rounds := vo_past_rounds v @ [\<lparr>br_inner = length (vo_heap v), br_finalized_number = 0\<rparr>]\<rparr>"
    have push: "committer_push (round_number ?best) (length (vo_heap v)) ?v1 = Some v'"
      using run c Inr br by (simp add: completed_best_round_def Let_def)
    have "rounds_ok par number voters (vo_shared v) (?best # vo_heap v)" using okD(2) [OF ok] p by (simp add: voter_rounds_def)
    note br' = bridge_state_rounds [OF br this]
    have lt: "round_number ?best < round_number ?best + 1" by (rule next_number [OF n])
    have order: "\<forall>vr\<in>set (best # vo_heap v). round_number vr < round_number ?best + 1"
        "\<forall>x\<in>set (sh_sent sh). fst x < round_number ?best + 1"
      using okD(3) [OF ok] br'(2,3) lt by (auto simp: order_ok_def)
    have "rounds_ok par number voters sh (?nxt # best # vo_heap v)"
      unfolding okD(7) [OF ok]
      by (rule rounds_ok_new [where number = number and b = "fst (vo_last_finalized_in_rounds v)", OF br'(1) okD(1) [OF ok]])
        (use okD(5) [OF ok] order in \<open>simp_all add: prod_eq_iff\<close>)
    then have "ok ?v1"
      by (intro ok_next ok_base ok p e) (use order in \<open>auto simp: less_imp_le\<close>)
    then show ?thesis by (rule committer_push_ok [OF _ _ _ push]) (simp_all add: br'(2))
  qed
qed

lemma completed_best_round_caught_up:
  assumes b: "base_ok v" and p: "vo_prospective_round v = None"
    and r: "rounds_ok par number voters (vo_shared v) (nxt # vo_best_round v # vo_heap v)"
    and o: "order_ok v" "round_number (vo_best_round v) < round_number nxt"
    and run: "completed_best_round env (Some nxt) v = Some (res, v')"
  shows "ok v'"
proof -
  let ?best = "vo_best_round v"
  have ok: "ok v"
    by (rule base_ok_rounds [OF b _ o(1)]) (use rounds_ok_subset [of par number voters "vo_shared v" "[nxt]"] r p in \<open>simp add: voter_rounds_def\<close>)
  obtain r1 e where c: "ev_completed env (round_number ?best) (round_state (vr_votes ?best)) (vo_env v) = (r1, e)" by (metis surj_pair)
  have e: "einv e (vo_last_finalized_number v)" using completed_keeps [OF okD(6) [OF ok]] c by (metis snd_conv)
  show ?thesis
  proof (cases r1)
    case (Inl err)
    then have "v' = v\<lparr>vo_env := e\<rparr>" using run c by (simp add: completed_best_round_def Let_def)
    then show ?thesis using ok_env [OF ok e] by simp
  next
    case (Inr u)
    let ?v1 = "v\<lparr>vo_env := e, vo_best_round := nxt, vo_shared := vo_shared v, vo_heap := vo_heap v @ [?best],
      vo_past_rounds := vo_past_rounds v @ [\<lparr>br_inner = length (vo_heap v), br_finalized_number = 0\<rparr>]\<rparr>"
    have push: "committer_push (round_number ?best) (length (vo_heap v)) ?v1 = Some v'"
      using run c Inr by (simp add: completed_best_round_def Let_def)
    have "ok ?v1" by (rule ok_next [OF b p e r]) (use o in \<open>auto simp: order_ok_def intro: less_trans less_imp_le order.trans\<close>)
    then show ?thesis by (rule committer_push_ok [OF _ _ _ push]) simp_all
  qed
qed

lemma completed_prospective_round_ok:
  assumes ok: "ok v" and none: "vo_prospective_round v = None"
    and r: "rounds_ok par number voters (vo_shared v) (p # vo_best_round v # vo_heap v)"
    and n: "round_number (vo_best_round v) < round_number p" "round_number p < - 1"
    and run: "completed_prospective_round env p v = (res, v')"
  shows "ok v'"
proof -
  obtain r1 e where c: "ev_completed env (round_number p) (round_state (vr_votes p)) (vo_env v) = (r1, e)" by (metis surj_pair)
  have e: "einv e (vo_last_finalized_number v)" using completed_keeps [OF okD(6) [OF ok]] c by (metis snd_conv)
  show ?thesis
  proof (cases r1)
    case (Inl err)
    then have "v' = v\<lparr>vo_env := e\<rparr>" using run c by (simp add: completed_prospective_round_def)
    then show ?thesis using ok_env [OF ok e] by simp
  next
    case (Inr u)
    obtain b p' sh where br: "bridge_state p (vo_shared v) = (b, p', sh)" by (metis prod_cases3)
    let ?base = "graph_base (rd_graph (vr_votes p'))"
    let ?nxt = "voting_round_new (round_number p' + 1) (vo_voters v) ?base (Some b)"
    have v': "v' = v\<lparr>vo_env := e, vo_best_round := ?nxt, vo_shared := sh, vo_heap := vo_heap v @ [p'],
        vo_past_rounds := vo_past_rounds v @ [\<lparr>br_inner = length (vo_heap v), br_finalized_number = 0\<rparr>]\<rparr>"
      using run c Inr br by (cases v) (simp add: completed_prospective_round_def Let_def)
    have "rounds_ok par number voters (vo_shared v) (p # vo_heap v)" using r by (simp add: rounds_ok_def)
    note br' = bridge_state_rounds [OF br this]
    have "round_good par number voters (vr_votes p')" using br'(1) by (simp add: rounds_ok_def)
    then have base: "?base = (fst ?base, number (fst ?base))" by (simp add: round_good_def)
    have lt: "round_number p' < round_number p' + 1" using next_number n(2) br'(2) by simp
    have p': "round_number (vo_best_round v) < round_number p'" using n(1) br'(2) by simp
    have below: "round_number x < round_number p' + 1" if "x \<in> set (vo_heap v)" for x
      using that okD(3) [OF ok] less_trans [OF p' lt] by (auto simp: order_ok_def intro: less_trans)
    have sent: "fst x < round_number p' + 1" if "x \<in> set (sh_sent sh)" for x
      using that okD(3) [OF ok] br'(3) le_less_trans [OF _ less_trans [OF p' lt]] by (auto simp: order_ok_def)
    have "rounds_ok par number voters sh (?nxt # p' # vo_heap v)"
      unfolding okD(7) [OF ok]
      by (rule rounds_ok_new [where number = number and b = "fst ?base", OF br'(1) okD(1) [OF ok] base])
        (use below sent lt in auto)
    then show ?thesis unfolding v'
      by (intro ok_next ok_base ok none e) (use below sent lt in \<open>auto simp: less_imp_le\<close>)
  qed
qed

text \<open>Polling the best round of a voter without its prospective one.\<close>

lemma best_poll_ok:
  assumes base: "base_ok v" and r: "rounds_ok par number voters sh (vo_best_round v # rs)" and inp: "input_ok number inp"
    and poll: "voting_round_poll (chain_of env e) inp (vo_best_round v) sh = Some (res, best, sh')"
    and sent: "\<forall>x\<in>set (sh_sent sh). fst x \<le> round_number (vo_best_round v)"
  shows "rounds_ok par number voters sh' (best # rs)" "round_number best = round_number (vo_best_round v)"
    "\<forall>x\<in>set (sh_sent sh'). fst x \<le> round_number best"
proof -
  note k = poll_kept_round [OF r _ inp poll, simplified]
  show "rounds_ok par number voters sh' (best # rs)" by (rule rounds_ok_poll [OF r k])
  show n: "round_number best = round_number (vo_best_round v)" using k by (simp add: poll_kept_def same_round_def)
  obtain new where "sh_sent sh' = sh_sent sh @ new" "\<forall>x\<in>set new. fst x = round_number (vo_best_round v)"
    using k by (auto simp: poll_kept_def)
  then show "\<forall>x\<in>set (sh_sent sh'). fst x \<le> round_number best" using sent n by (metis Un_iff order_refl set_append)
qed

lemma caught_up_ok:
  assumes ok: "ok v" and none: "vo_prospective_round v = None"
    and r: "rounds_ok par number voters (vo_shared v) (vo_best_round v # p # vo_heap v)"
    and n: "round_number (vo_best_round v) < round_number p"
    and br: "bridge_state (vo_best_round v) (vo_shared v) = (b, best, sh)"
    and run: "completed_best_round env (Some (p\<lparr>vr_last_round_state := Some b\<rparr>)) (v\<lparr>vo_best_round := best, vo_shared := sh\<rparr>) = Some (res, v')"
  shows "ok v'"
proof -
  let ?v = "v\<lparr>vo_best_round := best, vo_shared := sh\<rparr>" and ?p = "p\<lparr>vr_last_round_state := Some b\<rparr>"
  note br' = bridge_state_rounds [OF br r]
  have "rounds_ok par number voters sh (p # best # vo_heap v)" by (rule rounds_ok_mset [OF _ br'(1)]) simp
  then have "rounds_ok par number voters sh (?p # best # vo_heap v)" by (rule rounds_ok_fields) simp_all
  moreover have "order_ok ?v" using okD(3) [OF ok] br'(2,3) none by (simp add: order_ok_def)
  ultimately show ?thesis
    by (intro completed_best_round_caught_up [OF _ _ _ _ _ run]) (use ok_base [OF ok] none n br'(2) in simp_all)
qed

lemma process_prospective_round_ok:
  assumes ok: "ok v" and inp: "input_ok number (vi_prospective inp)" "input_ok number (vi_best inp)"
    and run: "process_prospective_round env inp v = Some (res, v')"
  shows "ok v'" "\<forall>c. res = Inr (Some c) \<longrightarrow> c \<noteq> Some False \<longrightarrow> vo_prospective_round v' = None"
    "\<forall>c. res = Inr (Some c) \<longrightarrow> round_number (vo_best_round v') = round_number (vo_best_round v)"
proof -
  have "ok v' \<and> (\<forall>c. res = Inr (Some c) \<longrightarrow> (c \<noteq> Some False \<longrightarrow> vo_prospective_round v' = None)
      \<and> round_number (vo_best_round v') = round_number (vo_best_round v))"
  proof (cases "vo_prospective_round v")
    case None
    then show ?thesis using run ok by (auto simp: process_prospective_round_def)
  next
    case (Some p)
    let ?v0 = "v\<lparr>vo_prospective_round := None\<rparr>" and ?ch = "chain_of env (vo_env v)" and ?best = "vo_best_round v"
    note o = okD [OF ok]
    have ord: "round_number ?best < round_number p" "round_number p < - 1" "vr_last_round_state p = None"
      using o(3) Some by (simp_all add: order_ok_def)
    have rounds: "rounds_ok par number voters (vo_shared v) (p # ?best # vo_heap v)"
      by (rule rounds_ok_mset [OF _ o(2)]) (simp add: voter_rounds_def Some)
    obtain r1 p1 sh1 where p1: "voting_round_poll ?ch (vi_prospective inp) p (vo_shared v) = Some (r1, p1, sh1)"
      using run Some by (auto simp: process_prospective_round_def Let_def split: option.splits)
    note k = poll_kept_round [OF rounds _ inp(1) p1, simplified]
    have r1: "rounds_ok par number voters sh1 (p1 # ?best # vo_heap v)" by (rule rounds_ok_poll [OF rounds k])
    have n1: "round_number p1 = round_number p" "vr_last_round_state p1 = None"
      using k ord(3) by (simp_all add: poll_kept_def same_round_def same_fields_def)
    have sent1: "sh_sent sh1 = sh_sent (vo_shared v)"
      by (rule idle_sends_nothing [OF _ ord(3) k]) (use rounds in \<open>simp add: rounds_ok_def\<close>)
    have base: "base_ok ?v0" using ok_base [OF ok] by simp
    let ?v1 = "?v0\<lparr>vo_shared := sh1\<rparr>"
    have "rounds_ok par number voters sh1 (?best # vo_heap v)" using r1 by (simp add: rounds_ok_def)
    then have ok1: "ok ?v1"
      by (intro base_ok_rounds) (use base o(3) sent1 in \<open>auto simp: voter_rounds_def order_ok_def\<close>)
    have r1': "rounds_ok par number voters sh1 (?best # p1 # vo_heap v)" by (rule rounds_ok_mset [OF _ r1]) simp
    consider (failed) "r1 = Inl ()" | (complete) "r1 = Inr True" | (running) "r1 = Inr False" by (metis (full_types) old.unit.exhaust sum.exhaust)
    then show ?thesis
    proof cases
      case failed
      then have "res = Inr (Some None)" "v' = ?v1" using run Some p1 by (simp_all add: process_prospective_round_def Let_def)
      then show ?thesis using ok1 by simp
    next
      case complete
      obtain r2 v2 where c: "completed_prospective_round env p1 ?v1 = (r2, v2)" by (metis surj_pair)
      have "ok v2" by (rule completed_prospective_round_ok [OF ok1 _ _ _ _ c]) (use r1 ord n1 in simp_all)
      then show ?thesis using run Some p1 complete c by (cases r2) (auto simp: process_prospective_round_def Let_def)
    next
      case running
      obtain r2 best sh2 where b: "voting_round_poll ?ch (vi_best inp) ?best sh1 = Some (r2, best, sh2)"
        using run Some p1 running by (auto simp: process_prospective_round_def Let_def split: option.splits if_splits)
      have b': "rounds_ok par number voters sh2 (best # p1 # vo_heap v)" "round_number best = round_number ?best"
        "\<forall>x\<in>set (sh_sent sh2). fst x \<le> round_number best"
        using best_poll_ok [OF ok_base [OF ok] r1' inp(2) b] o(3) sent1 by (simp_all add: order_ok_def)
      let ?v2 = "?v0\<lparr>vo_best_round := best, vo_shared := sh2\<rparr>"
      have "order_ok ?v2" using o(3) b'(2,3) by (simp add: order_ok_def)
      moreover have "rounds_ok par number voters sh2 (best # vo_heap v)" using b'(1) by (simp add: rounds_ok_def)
      ultimately have ok2: "ok ?v2" by (intro base_ok_rounds) (use base in \<open>simp_all add: voter_rounds_def\<close>)
      have num: "round_number best < round_number p1" using b'(2) ord(1) n1(1) by simp
      have num': "round_number ?best < round_number p1" using num b'(2) by simp
      consider (error) "r2 = Inl ()" | (behind) "r2 = Inr True" "round_number best \<noteq> round_number p1 - 1"
        | (reached) "r2 = Inr True" "round_number best = round_number p1 - 1" | (open_) "r2 = Inr False"
        by (metis (full_types) old.unit.exhaust sum.exhaust)
      then show ?thesis
      proof cases
        case reached
        obtain x best2 sh3 where br: "bridge_state best sh2 = (x, best2, sh3)" by (metis prod_cases3)
        obtain r3 v3 where c: "completed_best_round env (Some (p1\<lparr>vr_last_round_state := Some x\<rparr>))
            (?v0\<lparr>vo_best_round := best2, vo_shared := sh3\<rparr>) = Some (r3, v3)"
          using run Some p1 running b num' reached br by (auto simp: process_prospective_round_def Let_def split: option.splits)
        have "ok v3" by (rule caught_up_ok [OF ok2, of p1 x best2 sh3 r3]) (use b'(1) num br c in simp_all)
        then show ?thesis using run Some p1 running b num' reached br c
          by (cases r3) (auto simp: process_prospective_round_def Let_def)
      next
        case open_
        have "ok (?v2\<lparr>vo_prospective_round := Some p1\<rparr>)"
          by (rule base_ok_rounds) (use base b'(1,3) num ord n1 o(3) b'(2) in \<open>simp_all add: voter_rounds_def order_ok_def\<close>)
        then show ?thesis using run Some p1 running b num' open_ b'(2) by (auto simp: process_prospective_round_def Let_def)
      qed (use run Some p1 running b num' ok2 b'(2) in \<open>auto simp: process_prospective_round_def Let_def\<close>)
    qed
  qed
  then show "ok v'" "\<forall>c. res = Inr (Some c) \<longrightarrow> c \<noteq> Some False \<longrightarrow> vo_prospective_round v' = None"
    "\<forall>c. res = Inr (Some c) \<longrightarrow> round_number (vo_best_round v') = round_number (vo_best_round v)" by auto
qed

lemma process_best_round_ok:
  assumes ok: "ok v" and inp: "input_ok number (vi_best inp)" and n: "round_number (vo_best_round v) < - 1"
    and c: "c \<noteq> Some False \<longrightarrow> vo_prospective_round v = None"
    and run: "process_best_round env inp c v = Some (res, v')"
  shows "ok v'"
proof -
  obtain r best sh where p: "(case c of Some c \<Rightarrow> Some (Inr c, vo_best_round v, vo_shared v)
      | None \<Rightarrow> voting_round_poll (chain_of env (vo_env v)) (vi_best inp) (vo_best_round v) (vo_shared v)) = Some (r, best, sh)"
    using run by (auto simp: process_best_round_def split: option.splits)
  let ?v = "v\<lparr>vo_best_round := best, vo_shared := sh\<rparr>"
  have ok1: "ok ?v" "round_number best = round_number (vo_best_round v)"
  proof -
    have "ok ?v \<and> round_number best = round_number (vo_best_round v)"
    proof (cases c)
      case None
      have r: "rounds_ok par number voters (vo_shared v) (vo_best_round v # vo_heap v)"
        using okD(2) [OF ok] c None by (simp add: voter_rounds_def)
      have "voting_round_poll (chain_of env (vo_env v)) (vi_best inp) (vo_best_round v) (vo_shared v) = Some (r, best, sh)"
        using p None by simp
      note b = best_poll_ok [OF ok_base [OF ok] r inp this]
      have sent: "\<forall>x\<in>set (sh_sent (vo_shared v)). fst x \<le> round_number (vo_best_round v)" using okD(3) [OF ok] by (simp add: order_ok_def)
      have "order_ok ?v" using okD(3) [OF ok] b(2,3) [OF sent] c None by (simp add: order_ok_def)
      then have "ok ?v" by (intro base_ok_rounds) (use ok_base [OF ok] b(1) [OF sent] c None in \<open>simp_all add: voter_rounds_def\<close>)
      then show ?thesis using b(2) [OF sent] by simp
    qed (use p ok in auto)
    then show "ok ?v" "round_number best = round_number (vo_best_round v)" by simp_all
  qed
  have fin: "ok v2" if run2: "completed_best_round env None ?v = Some (r2, v2)" and r: "r = Inr True" for r2 v2
  proof (rule completed_best_round_new [OF ok1(1) _ _ run2])
    have "c \<noteq> Some False" using p r by (cases "c = Some False") simp_all
    then show "vo_prospective_round ?v = None" using c by simp
    show "round_number (vo_best_round ?v) < - 1" using n ok1(2) by simp
  qed
  show ?thesis
    using run fin ok1(1) unfolding process_best_round_def p
    by (auto simp: Let_def split: sum.splits if_splits option.splits)
qed

lemma voter_pass_ok:
  assumes ok: "ok v" and inp: "voter_input_ok number inp" and n: "round_number (vo_best_round v) < - 1"
    and run: "voter_pass env inp v = Some (res, v')"
  shows "ok v'"
proof -
  have i: "\<forall>(a, i)\<in>set (vi_past_rounds inp). input_ok number i" "commits_ok number (vi_commits inp)"
    "input_ok number (vi_prospective inp)" "input_ok number (vi_best inp)" using inp by (simp_all add: voter_input_ok_def)
  obtain r1 v1 where v1: "prune_background_rounds env (vi_past_rounds inp) v = Some (r1, v1)"
    using run by (auto simp: voter_pass_def split: option.splits)
  have k1: "ok v1" "vo_best_round v1 = vo_best_round v" using prune_ok [OF ok i(1) v1] by simp_all
  show ?thesis
  proof (cases r1)
    case r1: (Inr u1)
    obtain r2 v2 where v2: "process_commits env inp v1 = Some (r2, v2)"
      using run v1 r1 by (auto simp: voter_pass_def split: option.splits)
    have k2: "ok v2" "vo_best_round v2 = vo_best_round v" using process_commits_ok [OF k1(1) i(2) v2] k1(2) n by simp_all
    show ?thesis
    proof (cases r2)
      case r2: (Inr u2)
      obtain r3 v3 where v3: "process_prospective_round env inp v2 = Some (r3, v3)"
        using run v1 r1 v2 r2 by (auto simp: voter_pass_def split: option.splits)
      note k3 = process_prospective_round_ok [OF k2(1) i(3,4) v3]
      have "ok v'" if "r3 = Inr (Some c)" "process_best_round env inp c v3 = Some (res, v')" for c
        by (rule process_best_round_ok [OF k3(1) i(4) _ _ that(2)]) (use k3(2,3) that(1) k2(2) n in auto)
      then show ?thesis using run v1 r1 v2 r2 v3 k3(1) by (auto simp: voter_pass_def split: sum.splits option.splits)
    qed (use run v1 r1 v2 k2 in \<open>auto simp: voter_pass_def\<close>)
  qed (use run v1 k1 in \<open>auto simp: voter_pass_def\<close>)
qed

end

end
