(* ===== verification/Spec2Isabelle.thy ===== *)
theory Spec2Isabelle
  imports Scale_Out_Check Pow_Reward Round_Finality Finality_Node Voter_Runs
begin

text \<open>
  A verification development for YeeRoot, a sharded proof-of-work chain on the Substrate framework (version 1) with a
  finality gadget of the GRANDPA family. The source is Rust, under \<^verbatim>\<open>src/\<close>. The definitions are a shallow
  embedding: one definition per Rust function, in the order of the source, with the source's names.

  \<^bold>\<open>The program and the theories.\<close> Three parts are modelled.

  \<^item> \<^bold>\<open>The runtime modules.\<close> The state of the chain is a chain of extended records, \<open>system_store\<close>, \<open>sharding_store\<close>,
    \<open>pow_store\<close>, \<open>balances_store\<close>, one per module, so that a module's operations leave the fields of the modules below it
    alone. \<open>Runtime_Store\<close> has the system module and the outer events; \<open>Sharding_Utils\<close>
    (\<^verbatim>\<open>core/sharding/primitives/src/utils.rs\<close>) the shard of an account and the splitting of shards;
    \<open>Sharding_Digest\<close> the digest items of \<^verbatim>\<open>srml/yee-sharding/src\<close>; \<open>Sharding_Module\<close> the shard inherent and
    the scale-out phases; \<open>Scale_Out_Check\<close> what a verifier checks of them (\<^verbatim>\<open>core/consensus/pow/src/verifier.rs\<close>);
    \<open>Pow_Store\<close> and \<open>Pow_Reward\<close> the reward module (\<^verbatim>\<open>srml/yee-pow/src/lib.rs\<close>); \<open>Balances\<close>,
    \<open>Balances_Laws\<close>, \<open>Balances_Accounts\<close>, \<open>Balances_Invariant\<close> and \<open>Balances_Locks\<close> the balances
    (\<^verbatim>\<open>srml/yee-balances/src/lib.rs\<close>). A block pays its miner through the rewards, which call the balances; fees
    flow back from the balances into the rewards; both ask the sharding module which shard an account is of.
  \<^item> \<^bold>\<open>The finality gadget\<close>, \<^verbatim>\<open>core/finality-grandpa/src\<close>. \<open>Voter_Set\<close> has the voters, the thresholds and the
    commits (\<^verbatim>\<open>lib.rs\<close>), \<open>Bitfields\<close> the bitfields that record who voted (\<^verbatim>\<open>bitfield.rs\<close>), \<open>Vote_Graph\<close> the
    graph of votes (\<^verbatim>\<open>vote_graph.rs\<close>), \<open>Grandpa_Round\<close> a round and the validation of commits (\<^verbatim>\<open>round.rs\<close>).
    \<open>Block_Tree\<close> is the tree of blocks that the gadget sees through its chain interface, the locale \<open>block_chain\<close>;
    \<open>Dummy_Chain\<close> interprets it on the chain of the source's own tests (\<^verbatim>\<open>testing.rs\<close>). \<open>Vote_Graph_Links\<close>,
    \<open>Vote_Graph_Votes\<close>, \<open>Vote_Graph_Insert\<close>, \<open>Vote_Graph_Search\<close> and \<open>Vote_Graph_Ghost\<close> show that the
    graph refines the votes cast; \<open>Round_Weights\<close>, \<open>Round_Invariant\<close>, \<open>Round_Imports\<close>, \<open>Round_Safety\<close>,
    \<open>Round_Theorems\<close>, \<open>Round_Finality\<close> and \<open>Round_Commit\<close> what follows for rounds, with \<open>Round_Examples\<close> for
    concrete ones.
  \<^item> \<^bold>\<open>The finality client\<close>, \<^verbatim>\<open>core/crfg/src\<close>, which runs the gadget on a node. \<open>Authorities\<close>
    (\<^verbatim>\<open>authorities.rs\<close>) has the authority sets and their pending changes, \<open>Justification\<close>
    (\<^verbatim>\<open>justification.rs\<close>, and the signature check of \<^verbatim>\<open>communication.rs\<close>) the proofs of finality,
    \<open>Consensus_Changes\<close> (\<^verbatim>\<open>consensus_changes.rs\<close>) the tracker of that name, \<open>Codecs\<close> and \<open>Aux_Schema\<close>
    (\<^verbatim>\<open>aux_schema.rs\<close>) the persistent data, \<open>Finality_Client\<close> (\<^verbatim>\<open>environment.rs\<close>) the environment of the voter
    with the finalization of blocks, \<open>Block_Import\<close> (\<^verbatim>\<open>import.rs\<close>) the import of blocks and justifications, and
    \<open>Finality_Node\<close> (\<^verbatim>\<open>lib.rs\<close>) the start of a node and its loop.

  \<open>Yee_Base\<close> is the prelude: results, words of fixed width, little-endian bytes, finite sums, association lists.

  \<^bold>\<open>Conventions.\<close> A Rust \<open>Result\<close> is a sum (\<open>Ok\<close> and \<open>Err\<close> abbreviate its injections), a panic or a loop that does not
  end is \<open>None\<close>. Integers are words of the source's width and wrap as the release build does. A runtime call that returns an
  error keeps what it wrote before, since this version of the framework does not roll back; operations therefore return the
  store next to the result. Hash maps and sets are association lists and lists without duplicates: where the source
  iterates over one, the model fixes the order of insertion. Block numbers are \<open>u64\<close>. Assertions that only debug builds
  check are not modelled.

  \<^bold>\<open>Parameters.\<close> Code outside the repository is an argument of the definitions that use it, with documented
  behaviour as a named hypothesis: the chain seen by the gadget (\<open>block_chain\<close>), the fork tree of pending changes
  (\<open>fork_tree_ok\<close>), the database (\<open>aux_store_ok\<close>), the codec (\<open>schema_ok\<close>), the client
  (\<open>client_ok\<close>, \<open>import_client_ok\<close>, \<open>client_headers\<close>), signatures and hashes. Each has an instance in the development on which
  the properties are evaluated.

  \<^bold>\<open>What is shown.\<close>

  \<^item> \<^bold>\<open>Balances.\<close> Transfers conserve the sum of issuance, burned fees and relayed value; every operation keeps the
    well-formedness of the store; locks and vesting restrict exactly what they say.
  \<^item> \<^bold>\<open>Sharding and rewards.\<close> The shard of an account is its last bits and splitting is inverted by
    \<open>get_original_shard_num\<close>; a header a node produces passes the verifier's check; a signalled scale-out completes; a block's
    reward is paid once, when it is due, and to the miner's own shard.
  \<^item> \<^bold>\<open>Gadget.\<close> Bitfields refine sets of voters and their weights; the vote graph refines the votes cast; the
    prevote-GHOST is the highest block with a supermajority; a finalized block has a supermajority of precommits, and two
    conflicting ones, on any two nodes, convict more than a third of the weight of a double vote; valid commits are sound.
  \<^item> \<^bold>\<open>Client.\<close> Verified justifications carry a supermajority of valid signatures; a finalized round can be
    justified; authority sets hand over in order; at every reachable state of the node the database holds the authority
    set of the memory; failed imports change nothing.

  Properties that turned out not to hold are stated as what the code does instead, and are listed as findings.

  \<^bold>\<open>Fuel and termination.\<close> All recursions but those named here are structural or have a termination proof. The walk of
  \<open>chain_ancestry\<close> along justified headers takes fuel, one more than the number of headers; each step consumes a header, and the
  theorems about it show that this is enough. The searches of the vote graph and the loops of \<open>from_commit\<close> and
  \<open>canonical_at_height\<close>, which follow parent hashes that a faulty chain could close to a cycle, are partial functions
  into options; the theorems show that they return on a tree.

  \<^bold>\<open>Not modelled.\<close> Code whose behaviour is in asynchronous streams, timers, threads and sockets: the voter's message streams and
  commit timers (\<^verbatim>\<open>voter.rs\<close>, \<^verbatim>\<open>communication.rs\<close>, \<^verbatim>\<open>until_imported.rs\<close>), the networks under
  \<^verbatim>\<open>foreign/\<close>, the RPC servers, the switch, the boot node router, the command line and the services. Code that is a
  thin layer over libraries outside the repository: Merkle and trie proofs, proof-of-work hashing, the layout of relayed
  extrinsics, the executive's dispatch over the framework's module traits, light-client proofs. The remaining runtime modules
  (assets, sudo, tracker, relay, storage) are independent of the parts above.
\<close>

end
